(* ===== verification/GW_Prelude.thy ===== *)
theory GW_Prelude
  imports Main "HOL-Library.Word"
begin

text \<open>
  Shared vocabulary of the GWKernel development: the C integer types as words, a
  little-endian byte memory with its read-over-write laws, the loop shapes the kernel
  uses over arrays, and the C string helpers that several files of the kernel define
  for themselves.
\<close>

unbundle bit_operations_syntax

section \<open>Machine types\<close>

type_synonym u8 = "8 word"
type_synonym u16 = "16 word"
type_synonym u32 = "32 word"
type_synonym u64 = "64 word"

text \<open>
  Physical memory is identity mapped, so an address is a natural number and memory a
  function from addresses to bytes.
\<close>

type_synonym mem = "nat \<Rightarrow> u8"

named_theorems gw_frame \<open>reads that a write to another address range does not change\<close>
named_theorems gw_inv \<open>preservation of component invariants\<close>

section \<open>Little-endian loads and stores\<close>

definition rd16 :: "mem \<Rightarrow> nat \<Rightarrow> u16" where
  "rd16 m a = ucast (m a) OR push_bit 8 (ucast (m (a + 1)))"

definition rd32 :: "mem \<Rightarrow> nat \<Rightarrow> u32" where
  "rd32 m a = ucast (m a) OR push_bit 8 (ucast (m (a + 1))) OR
     push_bit 16 (ucast (m (a + 2))) OR push_bit 24 (ucast (m (a + 3)))"

definition wr32 :: "mem \<Rightarrow> nat \<Rightarrow> u32 \<Rightarrow> mem" where
  "wr32 m a v = m(a := ucast v, a + 1 := ucast (drop_bit 8 v),
     a + 2 := ucast (drop_bit 16 v), a + 3 := ucast (drop_bit 24 v))"

definition rd64 :: "mem \<Rightarrow> nat \<Rightarrow> u64" where
  "rd64 m a = ucast (rd32 m a) OR push_bit 32 (ucast (rd32 m (a + 4)))"

definition wr64 :: "mem \<Rightarrow> nat \<Rightarrow> u64 \<Rightarrow> mem" where
  "wr64 m a v = wr32 (wr32 m a (ucast v)) (a + 4) (ucast (drop_bit 32 v))"

lemma rd32_wr32 [simp]: "rd32 (wr32 m a v) a = v"
proof (rule bit_word_eqI)
  fix n assume "n < LENGTH(32)"
  then consider "n < 8" | "8 \<le> n" "n < 16" | "16 \<le> n" "n < 24" | "24 \<le> n" "n < 32"
    by fastforce
  then show "bit (rd32 (wr32 m a v) a) n \<longleftrightarrow> bit v n"
    by cases (auto simp: rd32_def wr32_def bit_simps)
qed

lemma rd32_cong:
  assumes "\<And>i. i < 4 \<Longrightarrow> m (a + i) = m' (a + i)"
  shows "rd32 m a = rd32 m' a"
  using assms[of 0] assms[of 1] assms[of 2] assms[of 3] by (simp add: rd32_def)

lemma rd64_cong:
  assumes "\<And>i. i < 8 \<Longrightarrow> m (a + i) = m' (a + i)"
  shows "rd64 m a = rd64 m' a"
proof -
  have lo: "rd32 m a = rd32 m' a"
    by (rule rd32_cong) (simp add: assms)
  have hi: "rd32 m (a + 4) = rd32 m' (a + 4)"
    by (rule rd32_cong) (use assms in \<open>simp add: add.assoc\<close>)
  show ?thesis by (simp only: rd64_def lo hi)
qed

lemma wr32_other: "x < a \<or> a + 4 \<le> x \<Longrightarrow> wr32 m a v x = m x"
  by (auto simp: wr32_def)

lemma wr64_other: "x < a \<or> a + 8 \<le> x \<Longrightarrow> wr64 m a v x = m x"
  by (auto simp: wr64_def wr32_other)

lemma rd32_wr32_other [gw_frame]:
  "b + 4 \<le> a \<or> a + 4 \<le> b \<Longrightarrow> rd32 (wr32 m a v) b = rd32 m b"
  by (intro rd32_cong wr32_other) auto

lemma rd32_wr64_other [gw_frame]:
  "b + 4 \<le> a \<or> a + 8 \<le> b \<Longrightarrow> rd32 (wr64 m a v) b = rd32 m b"
  by (intro rd32_cong wr64_other) auto

lemma rd64_wr32_other [gw_frame]:
  "b + 8 \<le> a \<or> a + 4 \<le> b \<Longrightarrow> rd64 (wr32 m a v) b = rd64 m b"
  by (intro rd64_cong wr32_other) auto

lemma rd64_wr64_other [gw_frame]:
  "b + 8 \<le> a \<or> a + 8 \<le> b \<Longrightarrow> rd64 (wr64 m a v) b = rd64 m b"
  by (intro rd64_cong wr64_other) auto

lemma join_split_u64: "ucast (ucast v :: u32) OR push_bit 32 (ucast (ucast (drop_bit 32 v) :: u32)) = (v :: u64)"
proof (rule bit_word_eqI)
  fix n assume "n < LENGTH(64)"
  then consider "n < 32" | "32 \<le> n" "n < 64" by fastforce
  then show "bit (ucast (ucast v :: u32) OR push_bit 32 (ucast (ucast (drop_bit 32 v) :: u32)) :: u64) n
      \<longleftrightarrow> bit v n"
    by cases (auto simp: bit_simps)
qed

lemma rd64_wr64 [simp]: "rd64 (wr64 m a v) a = v"
  by (simp add: rd64_def wr64_def rd32_wr32_other join_split_u64)

section \<open>Block operations on memory\<close>

text \<open>\<open>memset\<close> and \<open>memcpy\<close> as the kernel's local helpers compute them.\<close>

definition mem_set :: "mem \<Rightarrow> nat \<Rightarrow> u8 \<Rightarrow> nat \<Rightarrow> mem" where
  "mem_set m a c n = (\<lambda>x. if a \<le> x \<and> x < a + n then c else m x)"

definition mem_store :: "mem \<Rightarrow> nat \<Rightarrow> u8 list \<Rightarrow> mem" where
  "mem_store m a bs = (\<lambda>x. if a \<le> x \<and> x < a + length bs then bs ! (x - a) else m x)"

definition mem_load :: "mem \<Rightarrow> nat \<Rightarrow> nat \<Rightarrow> u8 list" where
  "mem_load m a n = map (\<lambda>i. m (a + i)) [0..<n]"

lemma length_mem_load [simp]: "length (mem_load m a n) = n"
  by (simp add: mem_load_def)

lemma nth_mem_load [simp]: "i < n \<Longrightarrow> mem_load m a n ! i = m (a + i)"
  by (simp add: mem_load_def)

lemma mem_load_store [simp]: "mem_load (mem_store m a bs) a (length bs) = bs"
  by (rule nth_equalityI) (auto simp: mem_store_def)

lemma mem_set_other: "x < a \<or> a + n \<le> x \<Longrightarrow> mem_set m a c n x = m x"
  by (auto simp: mem_set_def)

lemma mem_store_other: "x < a \<or> a + length bs \<le> x \<Longrightarrow> mem_store m a bs x = m x"
  by (auto simp: mem_store_def)

lemma rd32_mem_set_other [gw_frame]:
  "b + 4 \<le> a \<or> a + n \<le> b \<Longrightarrow> rd32 (mem_set m a c n) b = rd32 m b"
  by (intro rd32_cong mem_set_other) auto

lemma rd64_mem_set_other [gw_frame]:
  "b + 8 \<le> a \<or> a + n \<le> b \<Longrightarrow> rd64 (mem_set m a c n) b = rd64 m b"
  by (intro rd64_cong mem_set_other) auto

section \<open>Bits\<close>

lemma bit_via_shift: "drop_bit k (b :: u8) AND 1 = 1 \<longleftrightarrow> bit b k"
  by (simp add: and_one_eq bit_iff_odd_drop_bit odd_iff_mod_2_eq_one)

lemma unat_of_nat_u64: "n < 2 ^ 64 \<Longrightarrow> unat (of_nat n :: u64) = n"
  by (simp add: unat_of_nat take_bit_nat_eq_self)

lemma unat_Suc_u64: "unat (w :: u64) + 1 < 2 ^ 64 \<Longrightarrow> unat (w + 1) = unat w + 1"
  by (simp add: unat_word_ariths)

lemma unat_ucast_u32_u64 [simp]: "unat (ucast (w :: u32) :: u64) = unat w"
proof -
  have "unat w < 2 ^ LENGTH(32)" by (rule unsigned_less)
  then show ?thesis by (simp add: unsigned_ucast_eq take_bit_nat_eq_self)
qed

end
