(* ===== verification/Pmm.thy ===== *)
theory Pmm
  imports GW_Prelude
begin

text \<open>
  The physical memory manager, \<open>kernel/mm/pmm.c\<close>: a bitmap over 4 KiB pages with a
  counter of used pages, filled from the firmware's memory map. The bitmap is a
  function from byte index to byte; pages and counters are the code's 64-bit values,
  and the loop variables (always below \<open>PMM_MAX_PAGES\<close>) are natural numbers.
  Messages to the serial console are not part of the state.
\<close>

section \<open>State and operations\<close>

abbreviation PAGE_SIZE :: "'a::numeral" where "PAGE_SIZE \<equiv> 4096"
abbreviation PMM_MAX_PAGES :: "'a::numeral" where "PMM_MAX_PAGES \<equiv> 1048576"
abbreviation PMM_BITMAP_BYTES :: nat where "PMM_BITMAP_BYTES \<equiv> 131072"

abbreviation GW_BOOT_MAGIC :: u64 where "GW_BOOT_MAGIC \<equiv> 0x31425747"

record GW_BOOT_INFO =
  magic :: u64
  kernel_physical_base :: u64
  kernel_entry :: u64
  memory_map :: u64
  memory_map_size :: u64
  memory_map_desc_size :: u64
  memory_map_desc_version :: u64
  framebuffer_base :: u64
  framebuffer_size :: u64
  framebuffer_width :: u32
  framebuffer_height :: u32
  framebuffer_pitch :: u32
  framebuffer_bpp :: u32
  rsdp :: u64

record efi_memory_descriptor_t =
  Type :: u32
  PhysicalStart :: u64
  VirtualStart :: u64
  NumberOfPages :: u64
  Attribute :: u64

abbreviation "EfiLoaderCode \<equiv> (1 :: u32)"
abbreviation "EfiLoaderData \<equiv> (2 :: u32)"
abbreviation "EfiBootServicesCode \<equiv> (3 :: u32)"
abbreviation "EfiBootServicesData \<equiv> (4 :: u32)"
abbreviation "EfiConventionalMemory \<equiv> (7 :: u32)"

record pmm =
  pmm_bitmap :: "nat \<Rightarrow> u8"
  pmm_total :: u64
  pmm_used :: u64
  pmm_highest_page :: u64
  pmm_ready :: bool

definition bitmap_set :: "nat \<Rightarrow> pmm \<Rightarrow> pmm" where
  "bitmap_set page s =
     (if PMM_MAX_PAGES \<le> page then s
      else s\<lparr>pmm_bitmap := (pmm_bitmap s)(page div 8 :=
               pmm_bitmap s (page div 8) OR push_bit (page mod 8) 1)\<rparr>)"

definition bitmap_clear :: "nat \<Rightarrow> pmm \<Rightarrow> pmm" where
  "bitmap_clear page s =
     (if PMM_MAX_PAGES \<le> page then s
      else s\<lparr>pmm_bitmap := (pmm_bitmap s)(page div 8 :=
               pmm_bitmap s (page div 8) AND NOT (push_bit (page mod 8) 1))\<rparr>)"

definition bitmap_test :: "pmm \<Rightarrow> nat \<Rightarrow> bool" where
  "bitmap_test s page =
     (if PMM_MAX_PAGES \<le> page then True
      else drop_bit (page mod 8) (pmm_bitmap s (page div 8)) AND 1 = 1)"

text \<open>The step \<open>bitmap_set(p); pmm_used++\<close> of the marking and allocation loops.\<close>

definition claim_page :: "nat \<Rightarrow> pmm \<Rightarrow> pmm" where
  "claim_page p s = (bitmap_set p s)\<lparr>pmm_used := pmm_used s + 1\<rparr>"

definition mark_page :: "nat \<Rightarrow> pmm \<Rightarrow> pmm" where
  "mark_page p s = (if \<not> bitmap_test s p then claim_page p s else s)"

definition mark_range_used :: "u64 \<Rightarrow> u64 \<Rightarrow> pmm \<Rightarrow> pmm" where
  "mark_range_used phys sz s =
     (if sz = 0 then s
      else let start = phys div PAGE_SIZE;
               end0 = (phys + sz + PAGE_SIZE - 1) div PAGE_SIZE;
               end1 = (if end0 > PMM_MAX_PAGES then PMM_MAX_PAGES else end0)
           in fold mark_page [unat start..<unat end1] s)"

definition pmm_mark_used :: "u64 \<Rightarrow> u64 \<Rightarrow> pmm \<Rightarrow> pmm" where
  "pmm_mark_used phys sz s = mark_range_used phys sz s"

definition read_descriptor :: "mem \<Rightarrow> nat \<Rightarrow> efi_memory_descriptor_t" where
  "read_descriptor m a =
     \<lparr>Type = rd32 m a, PhysicalStart = rd64 m (a + 8), VirtualStart = rd64 m (a + 16),
      NumberOfPages = rd64 m (a + 24), Attribute = rd64 m (a + 32)\<rparr>"

definition usable :: "efi_memory_descriptor_t \<Rightarrow> bool" where
  "usable d \<longleftrightarrow> Type d = EfiConventionalMemory \<or> Type d = EfiBootServicesCode \<or>
     Type d = EfiBootServicesData \<or> Type d = EfiLoaderCode \<or> Type d = EfiLoaderData"

definition release_page :: "nat \<Rightarrow> pmm \<Rightarrow> pmm" where
  "release_page p s = (if bitmap_test s p then bitmap_clear p s else s)"

text \<open>The body of the loop over the firmware's memory map.\<close>

definition pmm_add_descriptor :: "efi_memory_descriptor_t \<Rightarrow> pmm \<Rightarrow> pmm" where
  "pmm_add_descriptor d s =
     (let start_page = PhysicalStart d div PAGE_SIZE;
          npages = NumberOfPages d;
          s1 = (if start_page + npages > pmm_highest_page s
                then s\<lparr>pmm_highest_page := start_page + npages\<rparr> else s)
      in if usable d \<and> start_page < PMM_MAX_PAGES
         then let last0 = start_page + npages;
                  last1 = (if last0 > PMM_MAX_PAGES then PMM_MAX_PAGES else last0);
                  s2 = fold release_page [unat start_page..<unat last1] s1
              in s2\<lparr>pmm_total := pmm_total s2 + (last1 - start_page)\<rparr>
         else s1)"

text \<open>
  \<open>while (map + desc_size <= end)\<close>: \<open>off\<close> is \<open>map - memory_map\<close>. The caller passes
  \<open>desc_size \<ge> 40\<close>, so the test for 0 never decides. Pointers into the map do not wrap.
\<close>

function pmm_scan_map :: "mem \<Rightarrow> nat \<Rightarrow> nat \<Rightarrow> nat \<Rightarrow> nat \<Rightarrow> pmm \<Rightarrow> pmm" where
  "pmm_scan_map m base len desc_size off s =
     (if desc_size = 0 \<or> len < off + desc_size then s
      else pmm_scan_map m base len desc_size (off + desc_size)
             (pmm_add_descriptor (read_descriptor m (base + off)) s))"
  by pat_completeness auto
termination
  by (relation "measure (\<lambda>(m, base, len, desc_size, off, s). len - off)") auto

declare pmm_scan_map.simps [simp del]

definition count_page :: "nat \<Rightarrow> pmm \<Rightarrow> pmm" where
  "count_page p s = (if bitmap_test s p then s\<lparr>pmm_used := pmm_used s + 1\<rparr> else s)"

definition pmm_init :: "mem \<Rightarrow> u64 \<Rightarrow> GW_BOOT_INFO \<Rightarrow> pmm \<Rightarrow> int \<times> pmm" where
  "pmm_init m bi_addr bi s =
     (if bi_addr = 0 \<or> magic bi \<noteq> GW_BOOT_MAGIC \<or> memory_map bi = 0 then (-1, s)
      else let s0 = s\<lparr>pmm_bitmap := (\<lambda>i. if i < PMM_BITMAP_BYTES then 0xFF else pmm_bitmap s i),
                      pmm_total := 0, pmm_used := 0, pmm_highest_page := 0\<rparr>;
               desc_size = (if memory_map_desc_size bi < 40 then 40 else memory_map_desc_size bi);
               s1 = pmm_scan_map m (unat (memory_map bi)) (unat (memory_map_size bi))
                      (unat desc_size) 0 s0;
               s2 = (if pmm_highest_page s1 > PMM_MAX_PAGES
                     then s1\<lparr>pmm_highest_page := PMM_MAX_PAGES\<rparr> else s1);
               s3 = fold count_page [0..<unat (pmm_highest_page s2)] (s2\<lparr>pmm_used := 0\<rparr>);
               s4 = mark_range_used 0 0x100000 s3;
               s5 = (if kernel_physical_base bi \<noteq> 0
                     then mark_range_used (kernel_physical_base bi) (1024 * 1024) s4 else s4);
               s6 = mark_range_used 0x80000 0x10000 s5;
               s7 = (if bi_addr \<noteq> 0 then mark_range_used bi_addr PAGE_SIZE s6 else s6);
               s8 = (if memory_map bi \<noteq> 0 \<and> memory_map_size bi \<noteq> 0
                     then mark_range_used (memory_map bi) (memory_map_size bi) s7 else s7)
           in (0, s8\<lparr>pmm_ready := True\<rparr>))"

text \<open>
  The allocation loops carry the current page \<open>p\<close> and the number of pages left to scan,
  \<open>pmm_highest_page - p\<close>. Both return the physical address, or 0.
\<close>

fun alloc_page_loop :: "pmm \<Rightarrow> nat \<Rightarrow> nat \<Rightarrow> pmm \<times> u64" where
  "alloc_page_loop s p 0 = (s, 0)"
| "alloc_page_loop s p (Suc n) =
     (if \<not> bitmap_test s p then (claim_page p s, of_nat p * PAGE_SIZE)
      else alloc_page_loop s (Suc p) n)"

definition pmm_alloc_page :: "pmm \<Rightarrow> pmm \<times> u64" where
  "pmm_alloc_page s =
     (if \<not> pmm_ready s then (s, 0)
      else alloc_page_loop s 0 (unat (pmm_highest_page s)))"

fun alloc_pages_loop :: "pmm \<Rightarrow> nat \<Rightarrow> nat \<Rightarrow> nat \<Rightarrow> nat \<Rightarrow> nat \<Rightarrow> pmm \<times> u64" where
  "alloc_pages_loop s count p 0 run start = (s, 0)"
| "alloc_pages_loop s count p (Suc n) run start =
     (if \<not> bitmap_test s p
      then let start' = (if run = 0 then p else start); run' = run + 1
           in if run' = count
              then (fold claim_page [start'..<start' + count] s, of_nat start' * PAGE_SIZE)
              else alloc_pages_loop s count (Suc p) n run' start'
      else alloc_pages_loop s count (Suc p) n 0 start)"

definition pmm_alloc_pages :: "pmm \<Rightarrow> u64 \<Rightarrow> pmm \<times> u64" where
  "pmm_alloc_pages s count =
     (if \<not> pmm_ready s \<or> count = 0 then (s, 0)
      else if count = 1 then pmm_alloc_page s
      else alloc_pages_loop s (unat count) 0 (unat (pmm_highest_page s)) 0 0)"

definition pmm_free_page :: "u64 \<Rightarrow> pmm \<Rightarrow> pmm" where
  "pmm_free_page phys s =
     (if \<not> pmm_ready s \<or> phys AND (PAGE_SIZE - 1) \<noteq> 0 then s
      else let p = phys div PAGE_SIZE
           in if p \<ge> pmm_highest_page s then s
              else if \<not> bitmap_test s (unat p) then s
              else let s1 = bitmap_clear (unat p) s
                   in if pmm_used s1 \<noteq> 0 then s1\<lparr>pmm_used := pmm_used s1 - 1\<rparr> else s1)"

definition pmm_free_pages :: "u64 \<Rightarrow> u64 \<Rightarrow> pmm \<Rightarrow> pmm" where
  "pmm_free_pages phys count s =
     fold (\<lambda>i. pmm_free_page (phys + of_nat i * PAGE_SIZE)) [0..<unat count] s"

definition pmm_get_total_pages :: "pmm \<Rightarrow> u64" where
  "pmm_get_total_pages s = pmm_highest_page s"

definition pmm_get_used_pages :: "pmm \<Rightarrow> u64" where
  "pmm_get_used_pages s = pmm_used s"

definition pmm_get_free_pages :: "pmm \<Rightarrow> u64" where
  "pmm_get_free_pages s =
     (if pmm_highest_page s < pmm_used s then 0 else pmm_highest_page s - pmm_used s)"

section \<open>The abstract view: the set of free pages\<close>

definition free_set :: "pmm \<Rightarrow> nat set" where
  "free_set s = {p. \<not> bitmap_test s p}"

definition pmm_inv :: "pmm \<Rightarrow> bool" where
  "pmm_inv s \<longleftrightarrow> pmm_ready s \<and> pmm_highest_page s \<le> PMM_MAX_PAGES \<and>
     free_set s \<subseteq> {..<unat (pmm_highest_page s)} \<and>
     unat (pmm_used s) + card (free_set s) = unat (pmm_highest_page s)"

section \<open>Bitmap laws\<close>

lemma bitmap_test_bit:
  "bitmap_test s p \<longleftrightarrow> PMM_MAX_PAGES \<le> p \<or> bit (pmm_bitmap s (p div 8)) (p mod 8)"
  by (auto simp: bitmap_test_def bit_via_shift)

lemma div_mod_8_neq: "p \<noteq> q \<Longrightarrow> p div 8 = q div 8 \<Longrightarrow> p mod 8 \<noteq> (q::nat) mod 8"
  by (metis div_mult_mod_eq)

lemma bitmap_test_set:
  "bitmap_test (bitmap_set p s) q \<longleftrightarrow> q = p \<or> bitmap_test s q"
  using div_mod_8_neq[of p q]
  by (auto simp: bitmap_test_bit bitmap_set_def bit_simps)

lemma bitmap_test_clear:
  "bitmap_test (bitmap_clear p s) q \<longleftrightarrow> (q \<noteq> p \<or> PMM_MAX_PAGES \<le> p) \<and> bitmap_test s q"
  using div_mod_8_neq[of p q]
  by (auto simp: bitmap_test_bit bitmap_clear_def bit_simps)

lemma bitmap_test_oob [simp]: "PMM_MAX_PAGES \<le> p \<Longrightarrow> bitmap_test s p"
  by (simp add: bitmap_test_def)

lemma free_set_bound: "p \<in> free_set s \<Longrightarrow> p < PMM_MAX_PAGES"
  by (auto simp: free_set_def bitmap_test_bit)

lemma finite_free_set [simp]: "finite (free_set s)"
  by (rule finite_subset[of _ "{..<PMM_MAX_PAGES}"]) (auto dest: free_set_bound)

lemma free_set_set [simp]: "free_set (bitmap_set p s) = free_set s - {p}"
  by (auto simp: free_set_def bitmap_test_set)

lemma free_set_clear [simp]:
  "free_set (bitmap_clear p s) = (if p < PMM_MAX_PAGES then insert p (free_set s) else free_set s)"
  by (auto simp: free_set_def bitmap_test_clear)

lemma free_set_fields [simp]:
  "free_set (s\<lparr>pmm_used := u\<rparr>) = free_set s"
  "free_set (s\<lparr>pmm_total := u\<rparr>) = free_set s"
  "free_set (s\<lparr>pmm_highest_page := u\<rparr>) = free_set s"
  "free_set (s\<lparr>pmm_ready := b\<rparr>) = free_set s"
  by (simp_all add: free_set_def bitmap_test_def)

lemma bitmap_set_fields [simp]:
  "pmm_used (bitmap_set p s) = pmm_used s" "pmm_total (bitmap_set p s) = pmm_total s"
  "pmm_highest_page (bitmap_set p s) = pmm_highest_page s" "pmm_ready (bitmap_set p s) = pmm_ready s"
  by (simp_all add: bitmap_set_def)

lemma bitmap_clear_fields [simp]:
  "pmm_used (bitmap_clear p s) = pmm_used s" "pmm_total (bitmap_clear p s) = pmm_total s"
  "pmm_highest_page (bitmap_clear p s) = pmm_highest_page s" "pmm_ready (bitmap_clear p s) = pmm_ready s"
  by (simp_all add: bitmap_clear_def)

lemma claim_page_fields [simp]:
  "pmm_highest_page (claim_page p s) = pmm_highest_page s"
  "pmm_ready (claim_page p s) = pmm_ready s"
  "pmm_used (claim_page p s) = pmm_used s + 1"
  "free_set (claim_page p s) = free_set s - {p}"
  by (simp_all add: claim_page_def)


section \<open>Marking and claiming pages\<close>

text \<open>The counter balance that every operation keeps: used pages plus free pages is the managed range.\<close>

definition pmm_ok :: "pmm \<Rightarrow> bool" where
  "pmm_ok s \<longleftrightarrow> pmm_highest_page s \<le> PMM_MAX_PAGES \<and>
     free_set s \<subseteq> {..<unat (pmm_highest_page s)} \<and>
     unat (pmm_used s) + card (free_set s) = unat (pmm_highest_page s)"

lemma pmm_inv_ok: "pmm_inv s \<longleftrightarrow> pmm_ready s \<and> pmm_ok s"
  by (auto simp: pmm_inv_def pmm_ok_def)

lemma pmm_ok_highest: "pmm_ok s \<Longrightarrow> unat (pmm_highest_page s) \<le> PMM_MAX_PAGES"
  using word_le_nat_alt[of "pmm_highest_page s" "PMM_MAX_PAGES :: u64"] by (simp add: pmm_ok_def)

lemma claim_page_ok [gw_inv]:
  assumes "pmm_ok s" "p \<in> free_set s"
  shows "pmm_ok (claim_page p s)"
proof -
  have c: "card (free_set s) = Suc (card (free_set s - {p}))"
    using assms(2) by (metis card_Suc_Diff1 finite_free_set)
  have b: "unat (pmm_used s) + 1 < 2 ^ 64"
    using pmm_ok_highest[OF assms(1)] assms(1) by (simp add: pmm_ok_def c)
  show ?thesis
    using assms(1) c unat_Suc_u64[OF b] by (auto simp: pmm_ok_def)
qed

lemma mark_page_ok [gw_inv]: "pmm_ok s \<Longrightarrow> pmm_ok (mark_page p s)"
  by (auto simp: mark_page_def free_set_def intro: claim_page_ok)

lemma mark_page_fields [simp]:
  "free_set (mark_page p s) = free_set s - {p}"
  "pmm_highest_page (mark_page p s) = pmm_highest_page s"
  "pmm_ready (mark_page p s) = pmm_ready s"
  by (auto simp: mark_page_def) (auto simp: free_set_def)

lemma fold_mark_page [simp]:
  "free_set (fold mark_page ps s) = free_set s - set ps"
  "pmm_highest_page (fold mark_page ps s) = pmm_highest_page s"
  "pmm_ready (fold mark_page ps s) = pmm_ready s"
  by (induction ps arbitrary: s) auto

lemma fold_mark_page_ok [gw_inv]: "pmm_ok s \<Longrightarrow> pmm_ok (fold mark_page ps s)"
  by (induction ps arbitrary: s) (auto intro: mark_page_ok)

lemma fold_claim_page [simp]:
  "free_set (fold claim_page ps s) = free_set s - set ps"
  "pmm_highest_page (fold claim_page ps s) = pmm_highest_page s"
  "pmm_ready (fold claim_page ps s) = pmm_ready s"
  by (induction ps arbitrary: s) auto

lemma fold_claim_page_ok [gw_inv]:
  "pmm_ok s \<Longrightarrow> distinct ps \<Longrightarrow> set ps \<subseteq> free_set s \<Longrightarrow> pmm_ok (fold claim_page ps s)"
proof (induction ps arbitrary: s)
  case (Cons p ps)
  have "pmm_ok (claim_page p s)"
    using Cons.prems by (intro claim_page_ok) auto
  then show ?case
    using Cons.prems by (auto intro!: Cons.IH)
qed simp

lemma mark_range_used_fields [simp]:
  "pmm_highest_page (mark_range_used phys sz s) = pmm_highest_page s"
  "pmm_ready (mark_range_used phys sz s) = pmm_ready s"
  by (simp_all add: mark_range_used_def Let_def)

lemma mark_range_used_ok [gw_inv]: "pmm_ok s \<Longrightarrow> pmm_ok (mark_range_used phys sz s)"
  by (auto simp: mark_range_used_def Let_def intro: fold_mark_page_ok)

text \<open>The pages that hold a byte of the physical range of \<open>sz\<close> bytes at \<open>phys\<close>.\<close>

definition range_pages :: "u64 \<Rightarrow> u64 \<Rightarrow> nat set" where
  "range_pages phys sz = (\<lambda>a. a div PAGE_SIZE) ` {unat phys..<unat phys + unat sz}"

lemma div_image_interval:
  assumes "0 < (n::nat)" "0 < k"
  shows "(\<lambda>a. a div k) ` {b..<b + n} = {b div k..<(b + n + k - 1) div k}"
proof (intro equalityI subsetI)
  fix p assume "p \<in> (\<lambda>a. a div k) ` {b..<b + n}"
  then obtain a where a: "b \<le> a" "a < b + n" "p = a div k" by auto
  have "a div k < (b + n + k - 1) div k"
  proof -
    have "a div k + 1 = (a + k) div k" using assms by (simp add: div_add_self2)
    also have "\<dots> \<le> (b + n + k - 1) div k" using a assms by (intro div_le_mono) auto
    finally show ?thesis by simp
  qed
  then show "p \<in> {b div k..<(b + n + k - 1) div k}"
    using a by (auto intro: div_le_mono)
next
  fix p assume p: "p \<in> {b div k..<(b + n + k - 1) div k}"
  define a where "a = max b (p * k)"
  have "(p + 1) * k \<le> b + n + k - 1"
    using p assms by (metis Suc_eq_plus1 Suc_leI atLeastLessThan_iff less_eq_div_iff_mult_less_eq)
  then have "p * k < b + n" using assms by (simp add: algebra_simps)
  then have "a < b + n" using assms by (simp add: a_def)
  moreover have "a div k = p"
  proof (cases "b \<le> p * k")
    case True then show ?thesis using assms by (simp add: a_def)
  next
    case False
    then have "p \<le> b div k" using assms by (simp add: less_eq_div_iff_mult_less_eq)
    then show ?thesis using False p by (simp add: a_def max_def)
  qed
  ultimately show "p \<in> (\<lambda>a. a div k) ` {b..<b + n}"
    by (auto simp: a_def intro!: image_eqI[where x = a])
qed

lemma mark_range_used_free:
  assumes "unat phys + unat sz + 4095 < 2 ^ 64"
  shows "free_set (mark_range_used phys sz s) = free_set s - range_pages phys sz"
proof (cases "sz = 0")
  case True
  then show ?thesis by (simp add: mark_range_used_def range_pages_def)
next
  case False
  then have sz: "0 < unat sz" by (simp add: unat_gt_0)
  have sum: "unat (phys + sz + 4096 - 1) = unat phys + unat sz + 4096 - 1"
  proof -
    have 1: "unat (phys + sz) = unat phys + unat sz"
      using assms by (subst unat_add_lem[THEN iffD1]) auto
    have "phys + sz + 4096 - 1 = phys + sz + 4095" by simp
    moreover have "unat (phys + sz + 4095) = unat phys + unat sz + 4095"
      using assms 1 by (subst unat_add_lem[THEN iffD1]) auto
    ultimately show ?thesis by (simp add: ac_simps)
  qed
  define e where "e = (phys + sz + 4096 - 1) div PAGE_SIZE"
  have e: "unat e = (unat phys + unat sz + 4096 - 1) div 4096"
    unfolding e_def unat_div sum by simp
  have pages: "range_pages phys sz = {unat phys div 4096..<unat e}"
    unfolding range_pages_def e using sz by (subst div_image_interval) auto
  have "free_set s - {unat phys div 4096..<unat (if e > PMM_MAX_PAGES then PMM_MAX_PAGES else e)}
      = free_set s - {unat phys div 4096..<unat e}"
    using word_less_nat_alt[of "PMM_MAX_PAGES :: u64" e] by (auto dest: free_set_bound)
  moreover have "mark_range_used phys sz s = fold mark_page
      [unat (phys div PAGE_SIZE)..<unat (if e > PMM_MAX_PAGES then PMM_MAX_PAGES else e)] s"
    using False by (simp only: mark_range_used_def Let_def e_def if_False)
  ultimately show ?thesis
    by (simp add: pages unat_div)
qed


section \<open>Initialisation from the memory map\<close>

lemma release_page_fields [simp]:
  "pmm_highest_page (release_page p s) = pmm_highest_page s"
  "free_set (release_page p s) = (if p < PMM_MAX_PAGES then insert p (free_set s) else free_set s)"
  by (auto simp: release_page_def) (auto simp: free_set_def)

lemma fold_release_page:
  "pmm_highest_page (fold release_page ps s) = pmm_highest_page s"
  "free_set (fold release_page ps s) = free_set s \<union> {p \<in> set ps. p < PMM_MAX_PAGES}"
  by (induction ps arbitrary: s) auto

text \<open>The pages a descriptor of usable type makes available.\<close>

definition descriptor_pages :: "efi_memory_descriptor_t \<Rightarrow> nat set" where
  "descriptor_pages d =
     (if usable d
      then {unat (PhysicalStart d div PAGE_SIZE)..<unat (PhysicalStart d div PAGE_SIZE + NumberOfPages d)}
           \<inter> {..<PMM_MAX_PAGES}
      else {})"

lemma add_descriptor_free:
  "free_set (pmm_add_descriptor d s) = free_set s \<union> descriptor_pages d"
proof -
  define sp where "sp = PhysicalStart d div PAGE_SIZE"
  define e where "e = sp + NumberOfPages d"
  define e1 where "e1 = (if e > PMM_MAX_PAGES then PMM_MAX_PAGES else e)"
  have dp: "descriptor_pages d = (if usable d then {unat sp..<unat e} \<inter> {..<PMM_MAX_PAGES} else {})"
    by (simp add: descriptor_pages_def sp_def e_def)
  have e1: "{p \<in> {unat sp..<unat e1}. p < PMM_MAX_PAGES} = {unat sp..<unat e} \<inter> {..<PMM_MAX_PAGES}"
    using word_less_nat_alt[of "PMM_MAX_PAGES :: u64" e] by (auto simp: e1_def)
  have low: "\<not> sp < PMM_MAX_PAGES \<Longrightarrow> {unat sp..<unat e} \<inter> {..<PMM_MAX_PAGES} = {}"
    using word_less_nat_alt[of sp "PMM_MAX_PAGES :: u64"] by auto
  show ?thesis
    using e1 low
    by (auto simp: pmm_add_descriptor_def Let_def fold_release_page dp
        simp flip: sp_def e_def e1_def split: if_splits)
qed

lemma add_descriptor_highest:
  "pmm_highest_page (pmm_add_descriptor d s) =
     max (pmm_highest_page s) (PhysicalStart d div PAGE_SIZE + NumberOfPages d)"
  by (auto simp: pmm_add_descriptor_def Let_def fold_release_page max_def)

lemma descriptor_pages_below:
  "descriptor_pages d \<subseteq> {..<unat (pmm_highest_page (pmm_add_descriptor d s))}"
proof -
  have "unat (PhysicalStart d div PAGE_SIZE + NumberOfPages d)
      \<le> unat (pmm_highest_page (pmm_add_descriptor d s))"
    unfolding add_descriptor_highest by (subst word_le_nat_alt[symmetric]) simp
  then show ?thesis by (auto simp: descriptor_pages_def)
qed

text \<open>The descriptors the scan visits: one every \<open>desc_size\<close> bytes that fits below the map's end.\<close>

definition map_descriptors :: "mem \<Rightarrow> nat \<Rightarrow> nat \<Rightarrow> nat \<Rightarrow> nat \<Rightarrow> efi_memory_descriptor_t set" where
  "map_descriptors m base len desc_size off =
     {read_descriptor m (base + off + k * desc_size) |k. off + k * desc_size + desc_size \<le> len}"

lemma map_descriptors_step:
  assumes "off + d \<le> len"
  shows "map_descriptors m base len d off =
    insert (read_descriptor m (base + off)) (map_descriptors m base len d (off + d))"
proof (intro equalityI subsetI)
  fix x assume "x \<in> map_descriptors m base len d off"
  then obtain k where k: "x = read_descriptor m (base + off + k * d)" "off + k * d + d \<le> len"
    by (auto simp: map_descriptors_def)
  show "x \<in> insert (read_descriptor m (base + off)) (map_descriptors m base len d (off + d))"
  proof (cases k)
    case (Suc j)
    then show ?thesis using k by (auto simp: map_descriptors_def algebra_simps intro!: exI[of _ j])
  qed (use k in simp)
next
  fix x assume "x \<in> insert (read_descriptor m (base + off)) (map_descriptors m base len d (off + d))"
  then show "x \<in> map_descriptors m base len d off"
  proof
    assume "x \<in> map_descriptors m base len d (off + d)"
    then obtain k where "x = read_descriptor m (base + (off + d) + k * d)" "off + d + k * d + d \<le> len"
      by (auto simp: map_descriptors_def)
    then show ?thesis by (auto simp: map_descriptors_def algebra_simps intro!: exI[of _ "Suc k"])
  qed (use assms in \<open>auto simp: map_descriptors_def intro!: exI[of _ 0]\<close>)
qed

lemma map_descriptors_end: "len < off + d \<Longrightarrow> map_descriptors m base len d off = {}"
  by (auto simp: map_descriptors_def)

lemma pmm_scan_map_free:
  assumes "0 < d"
  shows "free_set (pmm_scan_map m base len d off s) =
    free_set s \<union> \<Union> (descriptor_pages ` map_descriptors m base len d off)"
  using assms
proof (induction m base len d off s rule: pmm_scan_map.induct)
  case (1 m base len d off s)
  show ?case
  proof (cases "len < off + d")
    case True
    then show ?thesis by (simp add: pmm_scan_map.simps map_descriptors_end)
  next
    case False
    then show ?thesis
      using "1.prems" "1.IH"
      by (auto simp: pmm_scan_map.simps[of m base len d off s] map_descriptors_step add_descriptor_free)
  qed
qed

lemma pmm_scan_map_below:
  assumes "free_set s \<subseteq> {..<unat (pmm_highest_page s)}"
  shows "free_set (pmm_scan_map m base len d off s)
    \<subseteq> {..<unat (pmm_highest_page (pmm_scan_map m base len d off s))}"
  using assms
proof (induction m base len d off s rule: pmm_scan_map.induct)
  case (1 m base len d off s)
  let ?s = "pmm_add_descriptor (read_descriptor m (base + off)) s"
  have "unat (pmm_highest_page s) \<le> unat (pmm_highest_page ?s)"
    unfolding add_descriptor_highest by (subst word_le_nat_alt[symmetric]) simp
  then have "free_set ?s \<subseteq> {..<unat (pmm_highest_page ?s)}"
    using "1.prems" descriptor_pages_below[of "read_descriptor m (base + off)" s]
    by (auto simp: add_descriptor_free)
  then show ?case
    using "1.prems" "1.IH" by (simp add: pmm_scan_map.simps[of m base len d off s])
qed

lemma count_page_fields [simp]:
  "free_set (count_page p s) = free_set s"
  "pmm_highest_page (count_page p s) = pmm_highest_page s"
  by (simp_all add: count_page_def)

lemma fold_count_page_fields [simp]:
  "free_set (fold count_page ps s) = free_set s"
  "pmm_highest_page (fold count_page ps s) = pmm_highest_page s"
  by (induction ps arbitrary: s) auto

lemma fold_count_page_used:
  "n < 2 ^ 64 \<Longrightarrow> pmm_used s = 0 \<Longrightarrow>
   unat (pmm_used (fold count_page [0..<n] s)) = card ({..<n} - free_set s)"
proof (induction n)
  case (Suc n)
  let ?s = "fold count_page [0..<n] s"
  have IH: "unat (pmm_used ?s) = card ({..<n} - free_set s)"
    using Suc by simp
  have le: "card ({..<n} - free_set s) \<le> n"
    using card_mono[of "{..<n}" "{..<n} - free_set s"] by simp
  have t: "bitmap_test ?s n \<longleftrightarrow> n \<notin> free_set s"
    using fold_count_page_fields(1)[of "[0..<n]" s] by (auto simp: free_set_def)
  have split: "{..<Suc n} - free_set s =
      (if n \<in> free_set s then {..<n} - free_set s else insert n ({..<n} - free_set s))"
    by (auto simp: less_Suc_eq)
  show ?case
    using IH le Suc.prems unat_Suc_u64[of "pmm_used ?s"]
    by (simp add: count_page_def[of n ?s] t split)
qed simp


lemma balance_from_count:
  assumes "free_set s \<subseteq> {..<n}"
  shows "card ({..<n} - free_set s) + card (free_set s) = n"
proof -
  have "card (free_set s) \<le> n"
    using card_mono[OF _ assms] by simp
  then show ?thesis
    using assms by (simp add: card_Diff_subset)
qed

text \<open>The regions that initialisation protects after the usable ones are freed.\<close>

definition pmm_protected :: "u64 \<Rightarrow> GW_BOOT_INFO \<Rightarrow> nat set" where
  "pmm_protected bi_addr bi =
     range_pages 0 0x100000 \<union>
     (if kernel_physical_base bi \<noteq> 0 then range_pages (kernel_physical_base bi) 0x100000 else {}) \<union>
     range_pages bi_addr PAGE_SIZE \<union>
     range_pages (memory_map bi) (memory_map_size bi)"

definition boot_ranges_fit :: "u64 \<Rightarrow> GW_BOOT_INFO \<Rightarrow> bool" where
  "boot_ranges_fit bi_addr bi \<longleftrightarrow>
     unat (kernel_physical_base bi) + 0x100000 + 4095 < 2 ^ 64 \<and>
     unat bi_addr + 4096 + 4095 < 2 ^ 64 \<and>
     unat (memory_map bi) + unat (memory_map_size bi) + 4095 < 2 ^ 64"

definition boot_descriptors :: "mem \<Rightarrow> GW_BOOT_INFO \<Rightarrow> efi_memory_descriptor_t set" where
  "boot_descriptors m bi =
     map_descriptors m (unat (memory_map bi)) (unat (memory_map_size bi))
       (max 40 (unat (memory_map_desc_size bi))) 0"

lemma range_pages_empty [simp]: "range_pages a 0 = {}"
  by (simp add: range_pages_def)

lemma early_stack_in_first_MiB: "range_pages 0x80000 0x10000 \<subseteq> range_pages 0 0x100000"
  by (auto simp: range_pages_def)

text \<open>The state after the scan, the clamp and the recount, before any region is protected.\<close>

definition pmm_recount :: "pmm \<Rightarrow> pmm" where
  "pmm_recount s1 =
     (let s2 = (if pmm_highest_page s1 > PMM_MAX_PAGES
                then s1\<lparr>pmm_highest_page := PMM_MAX_PAGES\<rparr> else s1)
      in fold count_page [0..<unat (pmm_highest_page s2)] (s2\<lparr>pmm_used := 0\<rparr>))"

lemma pmm_recount_free [simp]: "free_set (pmm_recount s) = free_set s"
  by (simp add: pmm_recount_def Let_def)

lemma pmm_recount_ok:
  assumes "free_set s \<subseteq> {..<unat (pmm_highest_page s)}"
  shows "pmm_ok (pmm_recount s)"
proof -
  define h where "h = (if pmm_highest_page s > PMM_MAX_PAGES then PMM_MAX_PAGES else pmm_highest_page s)"
  have h: "h \<le> PMM_MAX_PAGES" by (auto simp: h_def)
  then have hn: "unat h \<le> PMM_MAX_PAGES"
    using word_le_nat_alt[of h "PMM_MAX_PAGES :: u64"] by simp
  have below: "free_set s \<subseteq> {..<unat h}"
    using assms by (auto simp: h_def dest: free_set_bound)
  have hr: "pmm_highest_page (pmm_recount s) = h"
    by (simp add: pmm_recount_def h_def Let_def)
  have eq: "pmm_recount s = fold count_page [0..<unat h]
      ((if pmm_highest_page s > PMM_MAX_PAGES then s\<lparr>pmm_highest_page := PMM_MAX_PAGES\<rparr> else s)\<lparr>pmm_used := 0\<rparr>)"
    by (simp add: pmm_recount_def h_def Let_def)
  have "unat (pmm_used (pmm_recount s)) = card ({..<unat h} - free_set s)"
    unfolding eq using hn by (subst fold_count_page_used) auto
  then show ?thesis
    using h below balance_from_count[OF below] by (simp add: pmm_ok_def hr)
qed

lemma desc_size_clamp:
  "unat (if memory_map_desc_size bi < 40 then 40 else memory_map_desc_size bi :: u64)
    = max 40 (unat (memory_map_desc_size bi))"
  using word_less_nat_alt[of "memory_map_desc_size bi" 40] by (auto simp: max_def)

lemma bit_FF: "k < 8 \<Longrightarrow> bit (0xFF :: u8) k"
proof -
  assume k: "k < 8"
  have "(0xFF :: u8) = mask 8" by (simp add: mask_eq_exp_minus_1)
  then show ?thesis using k by (simp only: bit_mask_iff) simp
qed

lemma bitmap_full_free_set:
  "free_set (s\<lparr>pmm_bitmap := (\<lambda>i. if i < PMM_BITMAP_BYTES then 0xFF else f i)\<rparr>) = {}"
  using bit_FF by (auto simp: free_set_def bitmap_test_bit less_mult_imp_div_less)

lemma pmm_init_ok:
  assumes "pmm_init m bi_addr bi s = (0, s')"
  shows "pmm_inv s'"
    and "boot_ranges_fit bi_addr bi \<Longrightarrow>
      free_set s' = \<Union> (descriptor_pages ` boot_descriptors m bi) - pmm_protected bi_addr bi"
proof -
  define s0 where "s0 = s\<lparr>pmm_bitmap := (\<lambda>i. if i < PMM_BITMAP_BYTES then 0xFF else pmm_bitmap s i),
       pmm_total := 0, pmm_used := 0, pmm_highest_page := 0\<rparr>"
  define d where "d = max 40 (unat (memory_map_desc_size bi))"
  define s1 where "s1 = pmm_scan_map m (unat (memory_map bi)) (unat (memory_map_size bi)) d 0 s0"
  define s3 where "s3 = pmm_recount s1"
  define s4 where "s4 = mark_range_used 0 0x100000 s3"
  define s5 where "s5 = (if kernel_physical_base bi \<noteq> 0
      then mark_range_used (kernel_physical_base bi) 0x100000 s4 else s4)"
  define s7 where "s7 = mark_range_used bi_addr PAGE_SIZE (mark_range_used 0x80000 0x10000 s5)"
  define s8 where "s8 = (if memory_map_size bi \<noteq> 0
      then mark_range_used (memory_map bi) (memory_map_size bi) s7 else s7)"
  have nz: "bi_addr \<noteq> 0" "memory_map bi \<noteq> 0"
    using assms by (auto simp: pmm_init_def split: if_splits)
  have s': "s' = s8\<lparr>pmm_ready := True\<rparr>"
    using assms nz
    by (auto simp: pmm_init_def desc_size_clamp Let_def s8_def s7_def s5_def s4_def s3_def s1_def
        pmm_recount_def s0_def d_def split: if_splits)
  have f0: "free_set s0 = {}" by (simp add: s0_def bitmap_full_free_set)
  have "pmm_ok s3"
    unfolding s3_def s1_def by (intro pmm_recount_ok pmm_scan_map_below) (simp add: f0)
  then have "pmm_ok s8"
    by (simp add: s8_def s7_def s5_def s4_def mark_range_used_ok)
  then show "pmm_inv s'" by (simp add: s' pmm_inv_ok pmm_ok_def)
  assume fit: "boot_ranges_fit bi_addr bi"
  have f3: "free_set s3 = \<Union> (descriptor_pages ` boot_descriptors m bi)"
    by (simp add: s3_def s1_def pmm_scan_map_free f0 d_def boot_descriptors_def)
  have "free_set s8 = free_set s3 - range_pages 0 0x100000 -
      (if kernel_physical_base bi \<noteq> 0 then range_pages (kernel_physical_base bi) 0x100000 else {}) -
      range_pages 0x80000 0x10000 - range_pages bi_addr PAGE_SIZE -
      range_pages (memory_map bi) (memory_map_size bi)"
    using fit by (simp add: s8_def s7_def s5_def s4_def mark_range_used_free boot_ranges_fit_def)
  then show "free_set s' = \<Union> (descriptor_pages ` boot_descriptors m bi) - pmm_protected bi_addr bi"
    using early_stack_in_first_MiB by (auto simp: s' f3 pmm_protected_def)
qed

section \<open>Allocation\<close>

text \<open>\<open>fits s count t\<close>: the \<open>count\<close> pages from \<open>t\<close> are all free.\<close>

definition fits :: "pmm \<Rightarrow> nat \<Rightarrow> nat \<Rightarrow> bool" where
  "fits s count t \<longleftrightarrow> {t..<t + count} \<subseteq> free_set s"

lemma alloc_page_loop_spec:
  assumes "\<forall>t' < p. t' \<notin> free_set s"
  shows "(\<exists>t < p + n. t \<in> free_set s \<and> (\<forall>t' < t. t' \<notin> free_set s) \<and>
      alloc_page_loop s p n = (claim_page t s, of_nat t * PAGE_SIZE)) \<or>
   ((\<forall>t < p + n. t \<notin> free_set s) \<and> alloc_page_loop s p n = (s, 0))"
  using assms
proof (induction n arbitrary: p)
  case (Suc n)
  show ?case
  proof (cases "p \<in> free_set s")
    case True
    then show ?thesis using Suc.prems by (intro disjI1 exI[of _ p]) (auto simp: free_set_def)
  next
    case False
    then have step: "alloc_page_loop s p (Suc n) = alloc_page_loop s (Suc p) n"
      by (simp add: free_set_def)
    have "\<forall>t' < Suc p. t' \<notin> free_set s" using Suc.prems False by (simp add: less_Suc_eq)
    from Suc.IH[OF this] show ?thesis by (simp only: step add_Suc_shift)
  qed
qed auto

text \<open>
  What the scan for a run knows at page \<open>p\<close>: the last \<open>run\<close> pages are free, the run
  cannot be extended to the left, and no run of \<open>count\<close> pages ends at or before \<open>p\<close>.
\<close>

definition scan_inv :: "pmm \<Rightarrow> nat \<Rightarrow> nat \<Rightarrow> nat \<Rightarrow> nat \<Rightarrow> bool" where
  "scan_inv s count p run start \<longleftrightarrow> run < count \<and> run \<le> p \<and> {p - run..<p} \<subseteq> free_set s \<and>
     (run \<noteq> 0 \<longrightarrow> start = p - run) \<and> (\<forall>t < p - run. \<not> fits s count t)"

lemma scan_inv_used:
  assumes "scan_inv s count p run start" "p \<notin> free_set s"
  shows "scan_inv s count (Suc p) 0 start'"
proof -
  have "\<not> fits s count t" if "t < Suc p" for t
  proof (cases "t < p - run")
    case True
    then show ?thesis using assms(1) by (simp add: scan_inv_def)
  next
    case False
    then have "p \<in> {t..<t + count}" using that assms(1) by (auto simp: scan_inv_def)
    then show ?thesis using assms(2) by (auto simp: fits_def)
  qed
  then show ?thesis using assms(1) by (auto simp: scan_inv_def)
qed

lemma alloc_pages_loop_spec:
  assumes "scan_inv s count p run start"
  shows "(\<exists>t. t + count \<le> p + n \<and> fits s count t \<and> (\<forall>t' < t. \<not> fits s count t') \<and>
      alloc_pages_loop s count p n run start =
        (fold claim_page [t..<t + count] s, of_nat t * PAGE_SIZE)) \<or>
    ((\<forall>t. t + count \<le> p + n \<longrightarrow> \<not> fits s count t) \<and> alloc_pages_loop s count p n run start = (s, 0))"
  using assms
proof (induction n arbitrary: p run start)
  case 0
  have "\<not> fits s count t" if "t + count \<le> p" for t
    using 0 that by (auto simp: scan_inv_def)
  then show ?case by simp
next
  case (Suc n)
  show ?case
  proof (cases "p \<in> free_set s")
    case False
    then have "alloc_pages_loop s count p (Suc n) run start = alloc_pages_loop s count (Suc p) n 0 start"
      by (simp add: free_set_def)
    then show ?thesis using Suc.IH[OF scan_inv_used[OF Suc.prems False]] by simp
  next
    case True
    define start' where "start' = (if run = 0 then p else start)"
    have st: "start' = p - run" using Suc.prems by (auto simp: start'_def scan_inv_def)
    have left: "{start'..<Suc p} \<subseteq> free_set s"
      using Suc.prems True by (auto simp: st scan_inv_def less_Suc_eq)
    have none: "\<forall>t < start'. \<not> fits s count t"
      using Suc.prems by (simp add: st scan_inv_def)
    have rp: "run \<le> p" "run < count" using Suc.prems by (auto simp: scan_inv_def)
    show ?thesis
    proof (cases "run + 1 = count")
      case True
      have "start' + count = Suc p" using rp True st by simp
      then have "fits s count start'" using left by (simp add: fits_def)
      moreover have "alloc_pages_loop s count p (Suc n) run start =
          (fold claim_page [start'..<start' + count] s, of_nat start' * PAGE_SIZE)"
        using True \<open>p \<in> free_set s\<close> by (simp add: free_set_def start'_def Let_def)
      ultimately show ?thesis
        using none \<open>start' + count = Suc p\<close> by (intro disjI1 exI[of _ start']) simp
    next
      case False
      then have "alloc_pages_loop s count p (Suc n) run start =
          alloc_pages_loop s count (Suc p) n (run + 1) start'"
        using \<open>p \<in> free_set s\<close> by (simp add: free_set_def start'_def Let_def)
      moreover have "scan_inv s count (Suc p) (run + 1) start'"
        using left none rp False st by (simp add: scan_inv_def)
      ultimately show ?thesis using Suc.IH[of "Suc p" "run + 1" start'] by (simp only: add_Suc_shift)
    qed
  qed
qed

lemma fits_below:
  assumes "pmm_ok s" "fits s count t" "count \<noteq> 0"
  shows "t + count \<le> unat (pmm_highest_page s)"
proof -
  have "t + count - 1 \<in> free_set s" using assms(2,3) by (auto simp: fits_def)
  then show ?thesis using assms(1,3) by (auto simp: pmm_ok_def)
qed

text \<open>
  First fit: the lowest run of \<open>count\<close> free pages is claimed and its address returned;
  without such a run the result is 0 and the state is unchanged.
\<close>

lemma pmm_alloc_pages_cases:
  assumes "pmm_inv s" "count \<noteq> 0"
  obtains (found) t where "fits s (unat count) t" "\<forall>t' < t. \<not> fits s (unat count) t'"
      "t + unat count \<le> unat (pmm_highest_page s)"
      "pmm_alloc_pages s count = (fold claim_page [t..<t + unat count] s, of_nat t * PAGE_SIZE)"
  | (full) "\<forall>t. \<not> fits s (unat count) t" "pmm_alloc_pages s count = (s, 0)"
proof -
  have ok: "pmm_ok s" "pmm_ready s" using assms by (auto simp: pmm_inv_ok)
  have c: "unat count \<noteq> 0" using assms(2) by (simp add: unat_eq_0)
  let ?h = "unat (pmm_highest_page s)"
  show thesis
  proof (cases "count = 1")
    case True
    have one: "fits s (unat count) t \<longleftrightarrow> t \<in> free_set s" for t
      using True by (auto simp: fits_def)
    have run: "pmm_alloc_pages s count = alloc_page_loop s 0 ?h"
      using True ok by (simp add: pmm_alloc_pages_def pmm_alloc_page_def)
    show thesis
      using alloc_page_loop_spec[of 0 s ?h, simplified]
    proof (elim disjE exE conjE)
      fix t assume t: "t < ?h" "t \<in> free_set s" "\<forall>t' < t. t' \<notin> free_set s"
        "alloc_page_loop s 0 ?h = (claim_page t s, of_nat t * PAGE_SIZE)"
      show thesis by (rule found[of t]) (use t run one True in auto)
    next
      assume n: "\<forall>t < ?h. t \<notin> free_set s" "alloc_page_loop s 0 ?h = (s, 0)"
      show thesis
        by (rule full) (use n run one ok in \<open>auto simp: pmm_ok_def\<close>)
    qed
  next
    case False
    have run: "pmm_alloc_pages s count = alloc_pages_loop s (unat count) 0 ?h 0 0"
      using False ok assms(2) by (simp add: pmm_alloc_pages_def)
    have "scan_inv s (unat count) 0 0 0" using c by (simp add: scan_inv_def)
    from alloc_pages_loop_spec[OF this, of ?h] show thesis
    proof (elim disjE exE conjE)
      fix t assume t: "t + unat count \<le> 0 + ?h" "fits s (unat count) t" "\<forall>t'<t. \<not> fits s (unat count) t'"
        "alloc_pages_loop s (unat count) 0 ?h 0 0 =
          (fold claim_page [t..<t + unat count] s, of_nat t * PAGE_SIZE)"
      show thesis by (rule found[of t]) (use t run in auto)
    next
      assume n: "\<forall>t. t + unat count \<le> 0 + ?h \<longrightarrow> \<not> fits s (unat count) t"
        "alloc_pages_loop s (unat count) 0 ?h 0 0 = (s, 0)"
      show thesis by (rule full) (use n run fits_below[OF ok(1) _ c] in auto)
    qed
  qed
qed

lemma page_address:
  assumes "t < PMM_MAX_PAGES"
  shows "unat (of_nat t * PAGE_SIZE :: u64) = t * 4096"
  using assms unat_of_nat_u64[of t]
  by (subst unat_mult_lem[THEN iffD1]) auto


section \<open>Release\<close>

lemma page_aligned_iff: "(a::u64) AND (PAGE_SIZE - 1) = 0 \<longleftrightarrow> unat a mod 4096 = 0"
proof -
  have m: "a AND (PAGE_SIZE - 1) = take_bit 12 a"
    by (simp add: take_bit_eq_mask mask_eq_exp_minus_1)
  have "unat (take_bit 12 a) = unat a mod 4096"
    by (simp add: unsigned_take_bit_eq take_bit_eq_mod unat_mod)
  then show ?thesis unfolding m by (metis unat_eq_0)
qed

lemma pmm_free_page_fields [simp]:
  "pmm_highest_page (pmm_free_page a s) = pmm_highest_page s"
  "pmm_ready (pmm_free_page a s) = pmm_ready s"
  by (simp_all add: pmm_free_page_def Let_def)

lemma pmm_free_page_inv [gw_inv]:
  assumes "pmm_inv s"
  shows "pmm_inv (pmm_free_page a s)"
proof -
  let ?p = "unat (a div PAGE_SIZE)"
  have "pmm_inv (pmm_free_page a s)"
    if r: "a div PAGE_SIZE < pmm_highest_page s" "bitmap_test s ?p" "a AND (PAGE_SIZE - 1) = 0"
  proof -
    have ok: "pmm_ok s" "pmm_ready s" using assms by (simp_all add: pmm_inv_ok)
    have p: "?p < unat (pmm_highest_page s)" using r(1) by (simp only: word_less_nat_alt)
    then have pm: "?p < PMM_MAX_PAGES" using pmm_ok_highest[OF ok(1)] by simp
    have fresh: "?p \<notin> free_set s" using r(2) by (simp add: free_set_def)
    have "card (free_set s) < unat (pmm_highest_page s)"
    proof -
      have "card (insert ?p (free_set s)) \<le> card {..<unat (pmm_highest_page s)}"
        using p ok(1) by (intro card_mono) (auto simp: pmm_ok_def)
      then show ?thesis using fresh by simp
    qed
    then have u: "0 < unat (pmm_used s)" using ok(1) by (simp add: pmm_ok_def)
    then have "pmm_used s \<noteq> 0" "unat (pmm_used s - 1) = unat (pmm_used s) - 1"
      by (auto simp: unat_sub unat_eq_0 word_le_nat_alt)
    then show ?thesis
      using ok r p pm fresh u not_le[THEN iffD2, OF r(1)]
      by (simp add: pmm_inv_ok pmm_ok_def pmm_free_page_def Let_def)
  qed
  moreover have "pmm_free_page a s = s \<or>
      a div PAGE_SIZE < pmm_highest_page s \<and> bitmap_test s ?p \<and> a AND (PAGE_SIZE - 1) = 0"
    by (simp add: pmm_free_page_def Let_def not_le[symmetric])
  ultimately show ?thesis using assms by fastforce
qed

text \<open>A page-aligned address below the managed limit becomes free; a second release changes nothing.\<close>

lemma pmm_free_page_free_set:
  assumes "pmm_inv s" "unat a mod 4096 = 0" "unat a div 4096 < unat (pmm_highest_page s)"
  shows "free_set (pmm_free_page a s) = insert (unat a div 4096) (free_set s)"
proof -
  have p: "a div PAGE_SIZE < pmm_highest_page s"
    using assms(3) by (simp add: word_less_nat_alt unat_div)
  have pm: "unat a div 4096 < PMM_MAX_PAGES"
    using assms(1,3) pmm_ok_highest[of s] by (simp add: pmm_inv_ok)
  have al: "a AND 4095 = 0" using page_aligned_iff[of a] assms(2) by simp
  show ?thesis
    using assms(1) p pm al
    by (auto simp: pmm_free_page_def Let_def pmm_inv_ok unat_div) (auto simp: free_set_def)
qed

lemma free_pages_fold_inv [gw_inv]:
  "pmm_inv s \<Longrightarrow> pmm_inv (fold (\<lambda>i. pmm_free_page (phys + of_nat i * PAGE_SIZE)) is s)"
  by (induction "is" arbitrary: s) (auto intro: pmm_free_page_inv)

lemma free_pages_fold_highest [simp]:
  "pmm_highest_page (fold (\<lambda>i. pmm_free_page (phys + of_nat i * PAGE_SIZE)) is s) = pmm_highest_page s"
  by (induction "is" arbitrary: s) auto

lemma page_offset:
  assumes "unat phys mod 4096 = 0" "unat phys div 4096 + i < PMM_MAX_PAGES"
  shows "unat (phys + of_nat i * PAGE_SIZE :: u64) = (unat phys div 4096 + i) * 4096"
proof -
  define q where "q = unat phys div 4096"
  have "unat phys = q * 4096" using assms(1) div_mult_mod_eq[of "unat phys" 4096] by (simp add: q_def)
  then have "of_nat (unat phys) = (of_nat q * PAGE_SIZE :: u64)" by simp
  then have "phys + of_nat i * PAGE_SIZE = of_nat (q + i) * PAGE_SIZE"
    by (simp add: distrib_right)
  then show ?thesis unfolding q_def[symmetric] by (simp only: page_address assms(2)[folded q_def])
qed

lemma pmm_free_pages_free_set:
  assumes "pmm_inv s" "unat phys mod 4096 = 0"
    "unat phys div 4096 + unat count \<le> unat (pmm_highest_page s)"
  shows "free_set (pmm_free_pages phys count s) =
    free_set s \<union> {unat phys div 4096..<unat phys div 4096 + unat count}"
proof -
  have hm: "unat (pmm_highest_page s) \<le> PMM_MAX_PAGES"
    using assms(1) pmm_ok_highest[of s] by (simp add: pmm_inv_ok)
  have "free_set (fold (\<lambda>i. pmm_free_page (phys + of_nat i * PAGE_SIZE)) [0..<n] s) =
      free_set s \<union> {unat phys div 4096..<unat phys div 4096 + n}" if "n \<le> unat count" for n
    using that
  proof (induction n)
    case (Suc n)
    let ?s = "fold (\<lambda>i. pmm_free_page (phys + of_nat i * PAGE_SIZE)) [0..<n] s"
    have a: "unat (phys + of_nat n * PAGE_SIZE) = (unat phys div 4096 + n) * 4096"
      using Suc.prems assms(2,3) hm by (intro page_offset) auto
    have "free_set (pmm_free_page (phys + of_nat n * PAGE_SIZE) ?s) =
        insert (unat phys div 4096 + n) (free_set ?s)"
      using pmm_free_page_free_set[OF free_pages_fold_inv[OF assms(1)], of "phys + of_nat n * PAGE_SIZE"]
        Suc.prems assms(3) a by simp
    then show ?case using Suc by auto
  qed simp
  then show ?thesis by (simp add: pmm_free_pages_def)
qed


section \<open>The page allocator interface\<close>

text \<open>
  What the clients of the physical memory manager (heap, page tables, thread stacks,
  process images) rely on: allocation is first fit over a set of available pages, release
  gives pages back, and both keep the invariant and the managed limit.
\<close>

definition frames :: "u64 \<times> u64 \<Rightarrow> nat set" where
  "frames r = {unat (fst r) div 4096..<unat (fst r) div 4096 + unat (snd r)}"

datatype page_req = Alloc u64 | Release nat

text \<open>
  A client's session: it asks for pages and releases what it holds. \<open>live\<close> is the list of
  the ranges (address and number of pages) it was given and has not released.
\<close>

fun serve :: "('s \<Rightarrow> u64 \<Rightarrow> 's \<times> u64) \<Rightarrow> (u64 \<Rightarrow> u64 \<Rightarrow> 's \<Rightarrow> 's) \<Rightarrow> page_req \<Rightarrow>
    's \<times> (u64 \<times> u64) list \<Rightarrow> 's \<times> (u64 \<times> u64) list" where
  "serve alloc free (Alloc n) (s, live) =
     (let (s', a) = alloc s n in if a = 0 then (s', live) else (s', (a, n) # live))"
| "serve alloc free (Release i) (s, live) =
     (if i < length live
      then (free (fst (live ! i)) (snd (live ! i)) s, take i live @ drop (Suc i) live)
      else (s, live))"

locale page_allocator =
  fixes alloc :: "'s \<Rightarrow> u64 \<Rightarrow> 's \<times> u64"
    and free :: "u64 \<Rightarrow> u64 \<Rightarrow> 's \<Rightarrow> 's"
    and avail :: "'s \<Rightarrow> nat set"
    and limit :: "'s \<Rightarrow> nat"
    and inv :: "'s \<Rightarrow> bool"
  assumes avail_limit: "inv s \<Longrightarrow> avail s \<subseteq> {..<limit s}"
    and limit_max: "inv s \<Longrightarrow> limit s \<le> PMM_MAX_PAGES"
    and alloc_zero: "alloc s 0 = (s, 0)"
    and alloc_inv: "inv s \<Longrightarrow> inv (fst (alloc s n))"
    and alloc_limit: "inv s \<Longrightarrow> limit (fst (alloc s n)) = limit s"
    and alloc_first_fit: "inv s \<Longrightarrow> n \<noteq> 0 \<Longrightarrow>
      (\<exists>t. snd (alloc s n) = of_nat t * PAGE_SIZE \<and> {t..<t + unat n} \<subseteq> avail s \<and>
           (\<forall>t' < t. \<not> {t'..<t' + unat n} \<subseteq> avail s) \<and>
           avail (fst (alloc s n)) = avail s - {t..<t + unat n}) \<or>
      (\<forall>t. \<not> {t..<t + unat n} \<subseteq> avail s) \<and> alloc s n = (s, 0)"
    and free_inv: "inv s \<Longrightarrow> inv (free a n s)"
    and free_limit: "inv s \<Longrightarrow> limit (free a n s) = limit s"
    and free_avail: "inv s \<Longrightarrow> unat a mod 4096 = 0 \<Longrightarrow>
      unat a div 4096 + unat n \<le> limit s \<Longrightarrow> avail (free a n s) = avail s \<union> frames (a, n)"
begin

lemma alloc_success:
  assumes "inv s" "alloc s n = (s', a)" "a \<noteq> 0"
  shows "inv s'" "limit s' = limit s" "n \<noteq> 0" "unat a mod 4096 = 0"
    "frames (a, n) \<subseteq> avail s" "avail s' = avail s - frames (a, n)"
    "unat a div 4096 + unat n \<le> limit s"
proof -
  show i: "inv s'" "limit s' = limit s"
    using alloc_inv[OF assms(1), of n] alloc_limit[OF assms(1), of n] assms(2) by simp_all
  show n: "n \<noteq> 0" using assms alloc_zero[of s] by auto
  then have n0: "0 < unat n" by (simp add: unat_gt_0)
  from alloc_first_fit[OF assms(1) n] assms(2,3) obtain t where
    t: "a = of_nat t * PAGE_SIZE" "{t..<t + unat n} \<subseteq> avail s" "avail s' = avail s - {t..<t + unat n}"
    by auto
  have "t + unat n - 1 \<in> avail s" using t(2) n0 by auto
  then have l: "t + unat n \<le> limit s" using avail_limit[OF assms(1)] n0 by auto
  then have "unat a = t * 4096"
    using limit_max[OF assms(1)] n0 page_address[of t] by (simp add: t(1))
  then have f: "frames (a, n) = {t..<t + unat n}" "unat a mod 4096 = 0" "unat a div 4096 = t"
    by (simp_all add: frames_def)
  show "unat a mod 4096 = 0" "frames (a, n) \<subseteq> avail s" "avail s' = avail s - frames (a, n)"
    "unat a div 4096 + unat n \<le> limit s"
    using f t l by simp_all
qed

lemma alloc_failure:
  assumes "inv s" "alloc s n = (s', 0)" "n \<noteq> 0" "0 \<notin> avail s"
  shows "s' = s" "\<forall>t. \<not> {t..<t + unat n} \<subseteq> avail s"
proof -
  have n0: "0 < unat n" using assms(3) by (simp add: unat_gt_0)
  have "(0::u64) = of_nat t * PAGE_SIZE \<Longrightarrow> \<not> {t..<t + unat n} \<subseteq> avail s" for t
  proof
    assume z: "(0::u64) = of_nat t * PAGE_SIZE" and sub: "{t..<t + unat n} \<subseteq> avail s"
    then have "t \<in> avail s" using n0 by auto
    then have "t < PMM_MAX_PAGES"
      using avail_limit[OF assms(1)] limit_max[OF assms(1)] by auto
    then have "t = 0" using page_address[of t] z by (simp flip: z)
    then show False using \<open>t \<in> avail s\<close> assms(4) by simp
  qed
  then show "s' = s" "\<forall>t. \<not> {t..<t + unat n} \<subseteq> avail s"
    using alloc_first_fit[OF assms(1,3)] assms(2) by (metis fst_conv snd_conv)+
qed

lemma alloc_free_avail:
  assumes "inv s" "alloc s n = (s', a)" "a \<noteq> 0"
  shows "avail (free a n s') = avail s"
  using alloc_success[OF assms] free_avail[of s' a n] by auto

text \<open>
  The invariant of a session started in \<open>s0\<close>: the live ranges are disjoint from each other
  and from the available pages, and together with these they are the pages available at the start.
\<close>

definition session_inv :: "'s \<Rightarrow> 's \<times> (u64 \<times> u64) list \<Rightarrow> bool" where
  "session_inv s0 st \<longleftrightarrow> inv (fst st) \<and> limit (fst st) = limit s0 \<and>
     (\<forall>r \<in> set (snd st). unat (fst r) mod 4096 = 0 \<and> unat (fst r) div 4096 + unat (snd r) \<le> limit s0) \<and>
     sorted_wrt (\<lambda>r r'. frames r \<inter> frames r' = {}) (snd st) \<and>
     avail (fst st) \<inter> \<Union> (frames ` set (snd st)) = {} \<and>
     avail (fst st) \<union> \<Union> (frames ` set (snd st)) = avail s0"

lemma session_inv_start: "inv s \<Longrightarrow> session_inv s (s, [])"
  by (simp add: session_inv_def)

lemma session_inv_alloc:
  assumes "session_inv s0 (s, live)" "0 \<notin> avail s0"
  shows "session_inv s0 (serve alloc free (Alloc n) (s, live))"
proof -
  obtain s' a where r: "alloc s n = (s', a)" by force
  have i: "inv s" using assms(1) by (simp add: session_inv_def)
  show ?thesis
  proof (cases "a = 0")
    case False
    note ok = alloc_success[OF i r False]
    show ?thesis using assms(1) False ok r by (auto simp: session_inv_def)
  next
    case True
    have "0 \<notin> avail s" using assms by (auto simp: session_inv_def)
    then have "s' = s"
      using alloc_failure(1)[OF i] alloc_zero[of s] r True by (cases "n = 0") auto
    then show ?thesis using assms(1) True r by simp
  qed
qed

lemma session_inv_release:
  assumes "session_inv s0 (s, live)"
  shows "session_inv s0 (serve alloc free (Release i) (s, live))"
proof (cases "i < length live")
  case True
  define r where "r = live ! i"
  define rest where "rest = take i live @ drop (Suc i) live"
  have live: "live = take i live @ r # drop (Suc i) live"
    using True by (simp add: r_def id_take_nth_drop)
  have set: "set live = insert r (set rest)"
    by (subst live) (simp add: rest_def)
  have "sorted_wrt (\<lambda>r r'. frames r \<inter> frames r' = {}) (take i live @ r # drop (Suc i) live)"
    using assms unfolding live[symmetric] by (simp add: session_inv_def)
  then have d: "sorted_wrt (\<lambda>r r'. frames r \<inter> frames r' = {}) rest"
    "\<forall>r' \<in> set rest. frames r \<inter> frames r' = {}"
    by (auto simp: sorted_wrt_append rest_def)
  have "avail (free (fst r) (snd r) s) = avail s \<union> frames r"
    using assms set free_avail[of s "fst r" "snd r"] by (simp add: session_inv_def)
  then show ?thesis
    using assms True set d free_inv[of s] free_limit[of s]
    by (auto simp: session_inv_def simp flip: r_def rest_def)
qed (use assms in simp)

lemma session_inv_run:
  assumes "inv s0" "0 \<notin> avail s0"
  shows "session_inv s0 (fold (serve alloc free) reqs (s0, []))"
proof -
  have "session_inv s0 st \<Longrightarrow> session_inv s0 (serve alloc free q st)" for q st
    by (cases q; cases st) (use session_inv_alloc session_inv_release assms in auto)
  then have "session_inv s0 st \<Longrightarrow> session_inv s0 (fold (serve alloc free) reqs st)" for st
    by (induction reqs arbitrary: st) auto
  then show ?thesis using session_inv_start assms by blast
qed

end


lemma pmm_alloc_pages_inv [gw_inv]:
  assumes "pmm_inv s"
  shows "pmm_inv (fst (pmm_alloc_pages s n))"
proof (cases "n = 0")
  case False
  from assms this show ?thesis
  proof (cases rule: pmm_alloc_pages_cases)
    case (found t)
    then have "pmm_ok (fold claim_page [t..<t + unat n] s)"
      using assms by (intro fold_claim_page_ok) (auto simp: pmm_inv_ok fits_def)
    then show ?thesis using found assms by (simp add: pmm_inv_ok)
  qed (use assms in simp)
qed (use assms in \<open>simp add: pmm_alloc_pages_def\<close>)

lemma pmm_first_fit:
  assumes "pmm_inv s" "n \<noteq> 0"
  shows "(\<exists>t. snd (pmm_alloc_pages s n) = of_nat t * PAGE_SIZE \<and> {t..<t + unat n} \<subseteq> free_set s \<and>
        (\<forall>t' < t. \<not> {t'..<t' + unat n} \<subseteq> free_set s) \<and>
        free_set (fst (pmm_alloc_pages s n)) = free_set s - {t..<t + unat n}) \<or>
     (\<forall>t. \<not> {t..<t + unat n} \<subseteq> free_set s) \<and> pmm_alloc_pages s n = (s, 0)"
  using assms
proof (cases rule: pmm_alloc_pages_cases)
  case (found t)
  then show ?thesis by (intro disjI1 exI[of _ t]) (simp add: fits_def)
qed (simp add: fits_def)

lemma pmm_alloc_pages_highest:
  assumes "pmm_inv s"
  shows "pmm_highest_page (fst (pmm_alloc_pages s n)) = pmm_highest_page s"
proof (cases "n = 0")
  case False
  from assms this show ?thesis by (cases rule: pmm_alloc_pages_cases) simp_all
qed (simp add: pmm_alloc_pages_def)

interpretation pmm: page_allocator pmm_alloc_pages pmm_free_pages free_set
  "\<lambda>s. unat (pmm_highest_page s)" pmm_inv
proof unfold_locales
  show "pmm_inv s \<Longrightarrow> free_set s \<subseteq> {..<unat (pmm_highest_page s)}" for s
    by (simp add: pmm_inv_def)
  show "pmm_inv s \<Longrightarrow> unat (pmm_highest_page s) \<le> PMM_MAX_PAGES" for s
    using pmm_ok_highest[of s] by (simp add: pmm_inv_ok)
  show "pmm_alloc_pages s 0 = (s, 0)" for s
    by (simp add: pmm_alloc_pages_def)
  show "pmm_inv s \<Longrightarrow> pmm_inv (fst (pmm_alloc_pages s n))" for s n
    by (rule pmm_alloc_pages_inv)
  show "pmm_inv s \<Longrightarrow> unat (pmm_highest_page (fst (pmm_alloc_pages s n))) = unat (pmm_highest_page s)" for s n
    by (simp add: pmm_alloc_pages_highest)
  show "pmm_inv s \<Longrightarrow> pmm_inv (pmm_free_pages a n s)" for a n s
    unfolding pmm_free_pages_def by (rule free_pages_fold_inv)
  show "unat (pmm_highest_page (pmm_free_pages a n s)) = unat (pmm_highest_page s)" for a n s
    by (simp add: pmm_free_pages_def)
  show "pmm_inv s \<Longrightarrow> unat a mod 4096 = 0 \<Longrightarrow> unat a div 4096 + unat n \<le> unat (pmm_highest_page s) \<Longrightarrow>
      free_set (pmm_free_pages a n s) = free_set s \<union> frames (a, n)" for a n s
    by (simp add: pmm_free_pages_free_set frames_def)
qed (rule pmm_first_fit)

lemma pmm_init_accepts:
  "fst (pmm_init m bi_addr bi s) = 0 \<longleftrightarrow>
     bi_addr \<noteq> 0 \<and> magic bi = GW_BOOT_MAGIC \<and> memory_map bi \<noteq> 0"
  by (simp add: pmm_init_def Let_def)

lemma pmm_init_result:
  assumes "fst (pmm_init m bi_addr bi s) = 0"
  shows "pmm_inv (snd (pmm_init m bi_addr bi s))"
    and "boot_ranges_fit bi_addr bi \<Longrightarrow> free_set (snd (pmm_init m bi_addr bi s)) =
      \<Union> (descriptor_pages ` boot_descriptors m bi) - pmm_protected bi_addr bi"
  using pmm_init_ok[of m bi_addr bi s "snd (pmm_init m bi_addr bi s)"] assms
  by (metis prod.collapse)+

lemma first_MiB_protected: "p < 256 \<Longrightarrow> p \<in> pmm_protected a bi"
  by (auto simp: pmm_protected_def range_pages_def intro!: image_eqI[of _ _ "p * 4096"])

lemma pmm_used_count:
  assumes "pmm_inv s"
  shows "unat (pmm_get_free_pages s) = card (free_set s)"
    "unat (pmm_get_used_pages s) = unat (pmm_get_total_pages s) - card (free_set s)"
proof -
  have b: "unat (pmm_used s) + card (free_set s) = unat (pmm_highest_page s)"
    using assms by (simp add: pmm_inv_def)
  then have "pmm_used s \<le> pmm_highest_page s" by (simp add: word_le_nat_alt)
  then show "unat (pmm_get_free_pages s) = card (free_set s)"
    using b by (simp add: pmm_get_free_pages_def unat_sub flip: not_le)
  show "unat (pmm_get_used_pages s) = unat (pmm_get_total_pages s) - card (free_set s)"
    using b by (simp add: pmm_get_used_pages_def pmm_get_total_pages_def)
qed

section \<open>Properties\<close>

text \<open>
  C2. When \<open>pmm_init\<close> accepts the boot information, the invariant holds
  afterwards (no page at or above the managed limit is free, the used counter plus the
  number of free pages is the number of managed pages), and the free pages are exactly the pages of
  the usable descriptors of the firmware's memory map, minus the first MiB, the kernel
  image, the page of the boot information and the memory map itself.
\<close>

theorem pmm_init_builds_free_map:
  assumes "fst (pmm_init m bi_addr bi s) = 0" "boot_ranges_fit bi_addr bi"
  shows "pmm_inv (snd (pmm_init m bi_addr bi s)) \<and>
    free_set (snd (pmm_init m bi_addr bi s)) =
      \<Union> (descriptor_pages ` boot_descriptors m bi) - pmm_protected bi_addr bi"
  by (intro conjI pmm_init_result assms)

definition sample_boot_info :: GW_BOOT_INFO where
  "sample_boot_info = \<lparr>magic = GW_BOOT_MAGIC, kernel_physical_base = 0x100000, kernel_entry = 0x100000,
     memory_map = 0x300000, memory_map_size = 80, memory_map_desc_size = 40,
     memory_map_desc_version = 1, framebuffer_base = 0, framebuffer_size = 0,
     framebuffer_width = 0, framebuffer_height = 0, framebuffer_pitch = 0,
     framebuffer_bpp = 0, rsdp = 0\<rparr>"

text \<open>A map with one descriptor: conventional memory, 4096 pages from address 0.\<close>

definition sample_memory :: mem where
  "sample_memory = wr64 (wr64 (wr32 (\<lambda>_. 0) 0x300000 7) 0x300008 0) 0x300018 4096"

definition sample_pmm :: pmm where
  "sample_pmm = \<lparr>pmm_bitmap = (\<lambda>_. 0), pmm_total = 0, pmm_used = 0, pmm_highest_page = 0, pmm_ready = False\<rparr>"

theorem pmm_init_builds_free_map_witness:
  "pmm_inv (snd (pmm_init sample_memory 0x200000 sample_boot_info sample_pmm)) \<and>
    free_set (snd (pmm_init sample_memory 0x200000 sample_boot_info sample_pmm)) =
      \<Union> (descriptor_pages ` boot_descriptors sample_memory sample_boot_info) - pmm_protected 0x200000 sample_boot_info"
  by (rule pmm_init_builds_free_map) (simp_all add: pmm_init_accepts sample_boot_info_def boot_ranges_fit_def)

text \<open>
  C1. After \<open>pmm_init\<close>, whatever sequence of allocations and releases of held ranges
  a client performs: the invariant holds, the ranges it holds are pairwise disjoint,
  never contain a free page or a page of the first MiB, and the free pages and the held pages together
  are the pages that were free at the start (nothing is handed out twice and nothing leaks).
\<close>

theorem pmm_session_disjoint:
  assumes "fst (pmm_init m bi_addr bi s) = 0" "boot_ranges_fit bi_addr bi"
    "fold (serve pmm_alloc_pages pmm_free_pages) reqs (snd (pmm_init m bi_addr bi s), []) = (s', live)"
  shows "pmm_inv s' \<and> sorted_wrt (\<lambda>r r'. frames r \<inter> frames r' = {}) live \<and>
    free_set s' \<inter> \<Union> (frames ` set live) = {} \<and>
    free_set s' \<union> \<Union> (frames ` set live) = free_set (snd (pmm_init m bi_addr bi s)) \<and>
    (\<forall>r \<in> set live. \<forall>p \<in> frames r. 256 \<le> p)"
proof -
  let ?s0 = "snd (pmm_init m bi_addr bi s)"
  have low: "\<forall>p \<in> free_set ?s0. 256 \<le> p"
    using first_MiB_protected by (auto simp: pmm_init_result(2)[OF assms(1,2)] not_le[symmetric])
  then have "0 \<notin> free_set ?s0" by force
  from pmm.session_inv_run[OF pmm_init_result(1)[OF assms(1)] this, of reqs]
  have "pmm.session_inv ?s0 (s', live)" by (simp add: assms(3))
  then show ?thesis using low unfolding pmm.session_inv_def by auto
qed

theorem pmm_session_disjoint_witness:
  "\<exists>s' live. fold (serve pmm_alloc_pages pmm_free_pages) [Alloc 2, Alloc 3, Release 1]
      (snd (pmm_init sample_memory 0x200000 sample_boot_info sample_pmm), []) = (s', live) \<and> pmm_inv s'"
proof -
  obtain s' live where r: "fold (serve pmm_alloc_pages pmm_free_pages) [Alloc 2, Alloc 3, Release 1]
      (snd (pmm_init sample_memory 0x200000 sample_boot_info sample_pmm), []) = (s', live)"
    by force
  have "pmm_inv s'"
    using pmm_session_disjoint[OF _ _ r] by (simp add: pmm_init_accepts sample_boot_info_def boot_ranges_fit_def)
  then show ?thesis using r by blast
qed


text \<open>A managed range of eight pages of which pages 2 and 3 are free.\<close>

definition tiny_pmm :: pmm where
  "tiny_pmm = \<lparr>pmm_bitmap = (\<lambda>i. if i = 0 then 0xF3 else 0xFF), pmm_total = 2, pmm_used = 6,
     pmm_highest_page = 8, pmm_ready = True\<rparr>"

lemma tiny_pmm_free: "free_set tiny_pmm = {2, 3}"
proof -
  have "bitmap_test tiny_pmm p" if "8 \<le> p" for p
    using that bit_FF[of "p mod 8"] by (auto simp: bitmap_test_bit tiny_pmm_def)
  moreover have "bitmap_test tiny_pmm p \<longleftrightarrow> p \<noteq> 2 \<and> p \<noteq> 3" if "p < 8" for p
  proof -
    have "p \<in> {0, 1, 2, 3, 4, 5, 6, 7}" using that by auto
    then show ?thesis by (auto simp: bitmap_test_bit tiny_pmm_def)
  qed
  ultimately have "\<not> bitmap_test tiny_pmm p \<longleftrightarrow> p = 2 \<or> p = 3" for p
    by (cases "p < 8") auto
  then show ?thesis by (auto simp: free_set_def)
qed

lemma tiny_pmm_inv: "pmm_inv tiny_pmm"
  by (simp add: pmm_inv_def tiny_pmm_free) (simp add: tiny_pmm_def)

text \<open>
  C21. \<open>pmm_alloc_pages\<close> is first fit: it returns the address of the lowest run of
  \<open>count\<close> free pages and removes exactly this run from the free set, and it returns 0 and
  leaves the state alone only when no such run exists. The invariant is kept.
\<close>

theorem pmm_alloc_pages_first_fit:
  assumes "pmm_inv s" "count \<noteq> 0" "pmm_alloc_pages s count = (s', a)"
  shows "pmm_inv s' \<and>
    ((\<exists>t. a = of_nat t * PAGE_SIZE \<and> {t..<t + unat count} \<subseteq> free_set s \<and>
        (\<forall>t' < t. \<not> {t'..<t' + unat count} \<subseteq> free_set s) \<and>
        free_set s' = free_set s - {t..<t + unat count}) \<or>
     (\<forall>t. \<not> {t..<t + unat count} \<subseteq> free_set s) \<and> s' = s \<and> a = 0)"
  using pmm_first_fit[OF assms(1,2)] pmm_alloc_pages_inv[OF assms(1), of count]
  by (simp add: assms(3))

lemma tiny_pmm_alloc:
  "pmm_alloc_pages tiny_pmm 2 = (claim_page 3 (claim_page 2 tiny_pmm), 8192)"
proof -
  have f: "bitmap_test tiny_pmm p \<longleftrightarrow> p \<notin> {2, 3}" for p
    using tiny_pmm_free unfolding free_set_def by blast
  note step = alloc_pages_loop.simps(2)[of _ _ _ "pred_numeral k" for k, folded numeral_eq_Suc]
  have "alloc_pages_loop tiny_pmm 2 0 8 0 0 = (claim_page 3 (claim_page 2 tiny_pmm), 8192)"
    by (simp add: f step upt_rec flip: numeral_2_eq_2 numeral_3_eq_3)
  then show ?thesis by (simp add: pmm_alloc_pages_def tiny_pmm_def)
qed

theorem pmm_alloc_pages_first_fit_witness:
  "pmm_alloc_pages tiny_pmm 2 = (claim_page 3 (claim_page 2 tiny_pmm), 8192) \<and>
   pmm_inv (claim_page 3 (claim_page 2 tiny_pmm))"
  using pmm_alloc_pages_first_fit[OF tiny_pmm_inv _ tiny_pmm_alloc] tiny_pmm_alloc by simp

text \<open>
  C22. Releasing a run right after it was allocated restores the free pages and the
  used counter, and the statistics functions report the size of the free set.
\<close>

theorem pmm_alloc_free_roundtrip:
  assumes "pmm_inv s" "pmm_alloc_pages s count = (s', a)" "a \<noteq> 0"
  shows "pmm_inv (pmm_free_pages a count s') \<and> free_set (pmm_free_pages a count s') = free_set s \<and>
    pmm_get_used_pages (pmm_free_pages a count s') = pmm_get_used_pages s \<and>
    unat (pmm_get_free_pages s') = card (free_set s) - unat count"
proof -
  let ?s = "pmm_free_pages a count s'"
  note ok = pmm.alloc_success[OF assms]
  have inv: "pmm_inv ?s" using ok(1) by (rule pmm.free_inv)
  have free: "free_set ?s = free_set s" by (rule pmm.alloc_free_avail[OF assms])
  have "unat (pmm_highest_page ?s) = unat (pmm_highest_page s)"
    using pmm.free_limit[OF ok(1)] ok(2) by simp
  then have "unat (pmm_used ?s) = unat (pmm_used s)"
    using inv assms(1) free by (simp add: pmm_inv_def)
  moreover have "card (free_set s') = card (free_set s) - unat count"
    using ok(5,6) by (simp add: card_Diff_subset frames_def)
  ultimately show ?thesis
    using inv free pmm_used_count(1)[OF ok(1)] by (simp add: pmm_get_used_pages_def word_unat_eq_iff)
qed

theorem pmm_alloc_free_roundtrip_witness:
  "free_set (pmm_free_pages 8192 2 (claim_page 3 (claim_page 2 tiny_pmm))) = free_set tiny_pmm"
  using pmm_alloc_free_roundtrip[OF tiny_pmm_inv tiny_pmm_alloc] by simp

end
