(* ===== verification/Heap.thy ===== *)
theory Heap
  imports Pmm "HOL-Library.Monad_Syntax"
begin

text \<open>
  The kernel heap, \<open>kernel/mm/heap.c\<close>: a free list, sorted by address, of blocks that carry
  a 24-byte header inside the byte memory, on top of the page allocator. Pointers are 64-bit
  words and every header field is read from and written to memory. The
  walks over the list and the retry loop of \<open>kmalloc_aligned\<close> may run forever on a
  damaged list: they are \<open>partial_function\<close>s whose value is \<open>None\<close> in this case.
\<close>

section \<open>State and operations\<close>

abbreviation HEAP_ALIGN :: u64 where "HEAP_ALIGN \<equiv> 16"
abbreviation HEAP_MAGIC_ALLOC :: u32 where "HEAP_MAGIC_ALLOC \<equiv> 0xA110C000"
abbreviation HEAP_MAGIC_FREE :: u32 where "HEAP_MAGIC_FREE \<equiv> 0xF4EE0000"
abbreviation HEAP_POISON_ALLOC :: u8 where "HEAP_POISON_ALLOC \<equiv> 0xCD"
abbreviation HEAP_POISON_FREE :: u8 where "HEAP_POISON_FREE \<equiv> 0xDC"
abbreviation HEAP_MIN_BLOCK :: u64 where "HEAP_MIN_BLOCK \<equiv> 32"
abbreviation HEAP_EXPAND_PAGES :: u64 where "HEAP_EXPAND_PAGES \<equiv> 16"

text \<open>
  \<open>heap_block_t\<close>: \<open>magic\<close> at offset 0, \<open>size\<close> at 4, \<open>next\<close> at 8, \<open>canary\<close> at 16, 24 bytes.
\<close>

abbreviation HDR :: "'a::numeral" where "HDR \<equiv> 24"

definition blk_magic :: "mem \<Rightarrow> u64 \<Rightarrow> u32" where "blk_magic m b = rd32 m (unat b)"
definition blk_size :: "mem \<Rightarrow> u64 \<Rightarrow> u32" where "blk_size m b = rd32 m (unat b + 4)"
definition blk_next :: "mem \<Rightarrow> u64 \<Rightarrow> u64" where "blk_next m b = rd64 m (unat b + 8)"
definition blk_canary :: "mem \<Rightarrow> u64 \<Rightarrow> u32" where "blk_canary m b = rd32 m (unat b + 16)"

definition set_magic :: "u64 \<Rightarrow> u32 \<Rightarrow> mem \<Rightarrow> mem" where "set_magic b v m = wr32 m (unat b) v"
definition set_size :: "u64 \<Rightarrow> u32 \<Rightarrow> mem \<Rightarrow> mem" where "set_size b v m = wr32 m (unat b + 4) v"
definition set_next :: "u64 \<Rightarrow> u64 \<Rightarrow> mem \<Rightarrow> mem" where "set_next b v m = wr64 m (unat b + 8) v"
definition set_canary :: "u64 \<Rightarrow> u32 \<Rightarrow> mem \<Rightarrow> mem" where "set_canary b v m = wr32 m (unat b + 16) v"

record heap =
  hmem :: mem
  hpmm :: pmm
  free_list :: u64
  heap_total :: u64
  heap_used :: u64
  heap_ready :: bool

abbreviation on_mem :: "(mem \<Rightarrow> mem) \<Rightarrow> heap \<Rightarrow> heap" where
  "on_mem f s \<equiv> s\<lparr>hmem := f (hmem s)\<rparr>"

text \<open>A \<open>heap_block_t **\<close> of the walks: the address of \<open>free_list\<close> or of a block's \<open>next\<close>.\<close>

datatype link = Head | NextOf u64

fun read_link :: "heap \<Rightarrow> link \<Rightarrow> u64" where
  "read_link s Head = free_list s"
| "read_link s (NextOf b) = blk_next (hmem s) b"

fun set_link :: "link \<Rightarrow> u64 \<Rightarrow> heap \<Rightarrow> heap" where
  "set_link Head v s = s\<lparr>free_list := v\<rparr>"
| "set_link (NextOf b) v s = on_mem (set_next b v) s"

definition align_up :: "u64 \<Rightarrow> u64 \<Rightarrow> u64" where
  "align_up v a = (v + a - 1) AND NOT (a - 1)"

definition is_power_of_two :: "u64 \<Rightarrow> bool" where
  "is_power_of_two v \<longleftrightarrow> v \<noteq> 0 \<and> v AND (v - 1) = 0"

text \<open>\<open>while (*pp && *pp < block) pp = &(*pp)->next\<close>\<close>

partial_function (option) find_pp :: "heap \<Rightarrow> u64 \<Rightarrow> link \<Rightarrow> link option" where
  "find_pp s block pp =
     (if read_link s pp \<noteq> 0 \<and> read_link s pp < block
      then find_pp s block (NextOf (read_link s pp)) else Some pp)"

text \<open>\<open>while (prev && prev->next != block) prev = prev->next\<close>\<close>

partial_function (option) find_prev :: "heap \<Rightarrow> u64 \<Rightarrow> u64 \<Rightarrow> u64 option" where
  "find_prev s block prev =
     (if prev \<noteq> 0 \<and> blk_next (hmem s) prev \<noteq> block
      then find_prev s block (blk_next (hmem s) prev) else Some prev)"

definition block_end :: "mem \<Rightarrow> u64 \<Rightarrow> u64" where
  "block_end m b = b + HDR + ucast (blk_size m b)"

text \<open>The header and poison writes at the start of \<open>insert_free\<close>.\<close>

definition make_free :: "u64 \<Rightarrow> mem \<Rightarrow> mem" where
  "make_free block m =
     (let m1 = set_next block 0 (set_canary block (NOT HEAP_MAGIC_FREE) (set_magic block HEAP_MAGIC_FREE m))
      in mem_set m1 (unat block + HDR) HEAP_POISON_FREE (unat (blk_size m1 block)))"

definition merge_size :: "mem \<Rightarrow> u64 \<Rightarrow> u64 \<Rightarrow> u32" where
  "merge_size m a b = ucast (ucast (blk_size m a) + (HDR + ucast (blk_size m b) :: u64))"

definition coalesce_prev :: "u64 \<Rightarrow> u64 \<Rightarrow> mem \<Rightarrow> mem" where
  "coalesce_prev block prev m =
     (if prev \<noteq> 0 \<and> block_end m prev = block
      then set_next prev (blk_next m block) (set_size prev (merge_size m prev block) m)
      else m)"

text \<open>Linking a free block in at \<open>pp\<close>, joined with the next or else with the previous block.\<close>

definition link_free :: "u64 \<Rightarrow> link \<Rightarrow> heap \<Rightarrow> heap option" where
  "link_free block pp s =
     (let q = read_link s pp
      in if q \<noteq> 0 \<and> block_end (hmem s) block = q
         then Some (set_link pp block
                (on_mem (\<lambda>m. set_next block (blk_next m q) (set_size block (merge_size m block q) m)) s))
         else let s2 = set_link pp block (on_mem (set_next block q) s)
              in if free_list s2 \<noteq> block
                 then do {
                   prev \<leftarrow> find_prev s2 block (free_list s2);
                   Some (on_mem (coalesce_prev block prev) s2)
                 }
                 else Some s2)"

definition insert_free :: "u64 \<Rightarrow> heap \<Rightarrow> heap option" where
  "insert_free block s =
     (let s1 = on_mem (make_free block) s
      in do {
        pp \<leftarrow> find_pp s1 block Head;
        link_free block pp s1
      })"

definition expand_heap :: "u64 \<Rightarrow> heap \<Rightarrow> (int \<times> heap) option" where
  "expand_heap need_payload s =
     (let need = HDR + need_payload + HEAP_MIN_BLOCK;
          pages0 = (need + PAGE_SIZE - 1) div PAGE_SIZE;
          pages = (if pages0 < HEAP_EXPAND_PAGES then HEAP_EXPAND_PAGES else pages0);
          (p', phys) = pmm_alloc_pages (hpmm s) pages
      in if phys = 0 then Some (-1, s\<lparr>hpmm := p'\<rparr>)
         else do {
           s' \<leftarrow> insert_free phys
             (s\<lparr>hpmm := p', hmem := set_size phys (ucast (pages * PAGE_SIZE - HDR)) (hmem s),
                heap_total := heap_total s + pages * PAGE_SIZE\<rparr>);
           Some (0, s')
         })"

definition heap_init :: "heap \<Rightarrow> (int \<times> heap) option" where
  "heap_init s =
     do {
       (r, s') \<leftarrow> expand_heap PAGE_SIZE (s\<lparr>free_list := 0, heap_total := 0, heap_used := 0\<rparr>);
       Some (if r \<noteq> 0 then (-1, s') else (0, s'\<lparr>heap_ready := True\<rparr>))
     }"

text \<open>
  The inner loop of \<open>kmalloc_aligned\<close>: the link to the first block that is large enough,
  the end of the list, or a block whose header is not that of a free block.
\<close>

datatype fit = Corrupt | Exhausted | Fit link

partial_function (option) find_fit :: "heap \<Rightarrow> u64 \<Rightarrow> link \<Rightarrow> fit option" where
  "find_fit s need pp =
     (let b = read_link s pp; m = hmem s
      in if b = 0 then Some Exhausted
         else if blk_magic m b \<noteq> HEAP_MAGIC_FREE \<or> blk_canary m b \<noteq> NOT HEAP_MAGIC_FREE then Some Corrupt
         else if ucast (blk_size m b) \<ge> need then Some (Fit pp)
         else find_fit s need (NextOf b))"

text \<open>The body under \<open>if (b->size >= need)\<close>: unlink, split, mark, place, poison, account.\<close>

definition split_block :: "u64 \<Rightarrow> u64 \<Rightarrow> heap \<Rightarrow> heap option" where
  "split_block b need s =
     (let remain = ucast (blk_size (hmem s) b) - need
      in if remain \<ge> HDR + HEAP_MIN_BLOCK
         then let rest = b + HDR + need in do {
           s' \<leftarrow> insert_free rest (on_mem (set_size rest (ucast (remain - HDR))) s);
           Some (on_mem (set_size b (ucast need)) s')
         }
         else Some s)"

definition place_user :: "u64 \<Rightarrow> u64 \<Rightarrow> bool \<Rightarrow> u64" where
  "place_user b align over_aligned =
     (if over_aligned then (b + HDR + 8 + align - 1) AND NOT (align - 1) else b + HDR)"

definition mark_alloc :: "u64 \<Rightarrow> u64 \<Rightarrow> u64 \<Rightarrow> bool \<Rightarrow> mem \<Rightarrow> mem" where
  "mark_alloc b sz align over_aligned m =
     (let m1 = set_next b 0 (set_canary b (NOT HEAP_MAGIC_ALLOC) (set_magic b HEAP_MAGIC_ALLOC m));
          ptr = place_user b align over_aligned;
          m2 = (if over_aligned then wr64 m1 (unat ptr - 8) b else m1)
      in mem_set m2 (unat ptr) HEAP_POISON_ALLOC (unat sz))"

definition take_block :: "link \<Rightarrow> u64 \<Rightarrow> u64 \<Rightarrow> u64 \<Rightarrow> bool \<Rightarrow> heap \<Rightarrow> (u64 \<times> heap) option" where
  "take_block pp need sz align over_aligned s =
     (let b = read_link s pp
      in do {
        s1 \<leftarrow> split_block b need (set_link pp (blk_next (hmem s) b) s);
        let s2 = on_mem (mark_alloc b sz align over_aligned) s1;
        Some (place_user b align over_aligned,
              s2\<lparr>heap_used := heap_used s2 + (ucast (blk_size (hmem s2) b) + HDR)\<rparr>)
      })"

partial_function (option) kmalloc_loop ::
    "u64 \<Rightarrow> u64 \<Rightarrow> u64 \<Rightarrow> bool \<Rightarrow> heap \<Rightarrow> (u64 \<times> heap) option" where
  "kmalloc_loop need sz align over_aligned s =
     do {
       f \<leftarrow> find_fit s need Head;
       (case f of
          Corrupt \<Rightarrow> Some (0, s)
        | Fit pp \<Rightarrow> take_block pp need sz align over_aligned s
        | Exhausted \<Rightarrow> do {
            (r, s') \<leftarrow> expand_heap need s;
            if r \<noteq> 0 then Some (0, s') else kmalloc_loop need sz align over_aligned s'
          })
     }"

definition kmalloc_aligned :: "u64 \<Rightarrow> u64 \<Rightarrow> heap \<Rightarrow> (u64 \<times> heap) option" where
  "kmalloc_aligned sz align0 s =
     (if \<not> heap_ready s \<or> sz = 0 then Some (0, s)
      else let align = (if \<not> is_power_of_two align0 \<or> align0 < HEAP_ALIGN then HEAP_ALIGN else align0);
               over_aligned = (align > HEAP_ALIGN);
               need0 = (if over_aligned then sz + align + 8 else align_up sz HEAP_ALIGN);
               need = (if need0 < 16 then 16 else need0)
           in kmalloc_loop need sz align over_aligned s)"

definition kmalloc :: "u64 \<Rightarrow> heap \<Rightarrow> (u64 \<times> heap) option" where
  "kmalloc sz s = kmalloc_aligned sz HEAP_ALIGN s"

definition is_alloc :: "mem \<Rightarrow> u64 \<Rightarrow> bool" where
  "is_alloc m b \<longleftrightarrow> blk_magic m b = HEAP_MAGIC_ALLOC \<and> blk_canary m b = NOT HEAP_MAGIC_ALLOC"

text \<open>The block \<open>kfree\<close> decides to release, if any.\<close>

definition kfree_target :: "mem \<Rightarrow> u64 \<Rightarrow> u64 option" where
  "kfree_target m ptr =
     (let b = ptr - HDR
      in if \<not> is_alloc m b
         then let candidate = rd64 m (unat ptr - 8)
              in if candidate \<noteq> 0 \<and> is_alloc m candidate then Some candidate else None
         else Some b)"

definition kfree :: "u64 \<Rightarrow> heap \<Rightarrow> heap option" where
  "kfree ptr s =
     (if ptr = 0 \<or> \<not> heap_ready s then Some s
      else case kfree_target (hmem s) ptr of
        None \<Rightarrow> Some s
      | Some b \<Rightarrow>
          if blk_magic (hmem s) b = HEAP_MAGIC_FREE then Some s
          else let total = ucast (blk_size (hmem s) b) + HDR
               in insert_free b
                    (s\<lparr>heap_used := (if heap_used s \<ge> total then heap_used s - total else 0)\<rparr>))"

definition heap_used_bytes :: "heap \<Rightarrow> u64" where "heap_used_bytes s = heap_used s"
definition heap_total_bytes :: "heap \<Rightarrow> u64" where "heap_total_bytes s = heap_total s"

partial_function (option) sum_free :: "heap \<Rightarrow> u64 \<Rightarrow> u64 \<Rightarrow> u64 option" where
  "sum_free s b acc =
     (if b = 0 then Some acc
      else sum_free s (blk_next (hmem s) b) (acc + (ucast (blk_size (hmem s) b) + HDR)))"

definition heap_free_bytes :: "heap \<Rightarrow> u64 option" where
  "heap_free_bytes s = sum_free s (free_list s) 0"

section \<open>Blocks and the free list\<close>

text \<open>
  A block is a pair of address and payload size. \<open>hdr m a g n\<close>: memory holds a header with
  magic \<open>g\<close> and size \<open>n\<close> at \<open>a\<close>. \<open>seg m p xs q\<close>: following \<open>next\<close> from pointer \<open>p\<close> one meets the free blocks
  \<open>xs\<close> and then pointer \<open>q\<close>.
\<close>

type_synonym block = "nat \<times> nat"

definition region :: "block \<Rightarrow> nat set" where
  "region x = {fst x..<fst x + 24 + snd x}"

definition block_ok :: "block \<Rightarrow> bool" where
  "block_ok x \<longleftrightarrow> 2 ^ 20 \<le> fst x \<and> fst x mod 8 = 0 \<and> snd x mod 8 = 0 \<and> fst x + 24 + snd x \<le> 2 ^ 32"

definition hdr :: "mem \<Rightarrow> nat \<Rightarrow> u32 \<Rightarrow> nat \<Rightarrow> bool" where
  "hdr m a g n \<longleftrightarrow> rd32 m a = g \<and> unat (rd32 m (a + 4)) = n \<and> rd32 m (a + 16) = NOT g"

fun seg :: "mem \<Rightarrow> u64 \<Rightarrow> block list \<Rightarrow> u64 \<Rightarrow> bool" where
  "seg m p [] q \<longleftrightarrow> p = q"
| "seg m p (x # xs) q \<longleftrightarrow> p = of_nat (fst x) \<and> hdr m (fst x) HEAP_MAGIC_FREE (snd x) \<and>
     seg m (rd64 m (fst x + 8)) xs q"

definition before :: "block \<Rightarrow> block \<Rightarrow> bool" where
  "before x y \<longleftrightarrow> fst x + 24 + snd x \<le> fst y"

definition wfl :: "block list \<Rightarrow> bool" where
  "wfl xs \<longleftrightarrow> (\<forall>x \<in> set xs. block_ok x) \<and> sorted_wrt before xs"

definition agree :: "nat set \<Rightarrow> mem \<Rightarrow> mem \<Rightarrow> bool" where
  "agree A m m' \<longleftrightarrow> (\<forall>x \<in> A. m x = m' x)"

text \<open>The operations on the list touch memory and \<open>free_list\<close> only.\<close>

definition same_rest :: "heap \<Rightarrow> heap \<Rightarrow> bool" where
  [simp]: "same_rest s s' \<longleftrightarrow> hpmm s' = hpmm s \<and> heap_total s' = heap_total s \<and>
     heap_used s' = heap_used s \<and> heap_ready s' = heap_ready s"

definition bytes :: "block list \<Rightarrow> nat" where
  "bytes xs = (\<Sum>x \<leftarrow> xs. 24 + snd x)"

lemma bytes_simps [simp]:
  "bytes [] = 0" "bytes (x # xs) = 24 + snd x + bytes xs" "bytes (xs @ ys) = bytes xs + bytes ys"
  by (simp_all add: bytes_def)

lemma agree_refl [simp]: "agree A m m"
  by (simp add: agree_def)

lemma agree_trans: "agree A m m' \<Longrightarrow> agree A m' m'' \<Longrightarrow> agree A m m''"
  by (simp add: agree_def)

lemma agree_subset: "agree A m m' \<Longrightarrow> B \<subseteq> A \<Longrightarrow> agree B m m'"
  by (auto simp: agree_def)

lemma block_ok_word:
  assumes "block_ok x"
  shows "unat (of_nat (fst x) :: u64) = fst x" "(of_nat (fst x) :: u64) \<noteq> 0"
proof -
  have b: "fst x < 2 ^ 64" "0 < fst x" using assms by (auto simp: block_ok_def)
  show u: "unat (of_nat (fst x) :: u64) = fst x" using b by (simp add: unat_of_nat_u64)
  show "(of_nat (fst x) :: u64) \<noteq> 0"
  proof
    assume "(of_nat (fst x) :: u64) = 0"
    then have "unat (of_nat (fst x) :: u64) = 0" by simp
    then show False using u b by simp
  qed
qed

lemma hdr_cong:
  assumes "agree {a..<a + 24} m m'"
  shows "hdr m a g n = hdr m' a g n" "rd64 m (a + 8) = rd64 m' (a + 8)"
proof -
  have e: "m (a + i) = m' (a + i)" if "i < 24" for i
    using assms that by (auto simp: agree_def)
  have "rd32 m a = rd32 m' a" "rd32 m (a + 4) = rd32 m' (a + 4)" "rd32 m (a + 16) = rd32 m' (a + 16)"
    by (intro rd32_cong; use e in \<open>simp add: add.assoc\<close>)+
  then show "hdr m a g n = hdr m' a g n" by (simp add: hdr_def)
  show "rd64 m (a + 8) = rd64 m' (a + 8)"
    by (intro rd64_cong) (use e in \<open>simp add: add.assoc\<close>)
qed

lemma header_in_region: "{fst x..<fst x + 24} \<subseteq> region x"
  by (auto simp: region_def)

lemma seg_cong:
  "agree (\<Union> (region ` set xs)) m m' \<Longrightarrow> seg m p xs q = seg m' p xs q"
proof (induction xs arbitrary: p)
  case (Cons x xs)
  have "agree {fst x..<fst x + 24} m m'"
    using Cons.prems header_in_region[of x] by (auto intro: agree_subset)
  note h = hdr_cong[OF this]
  have "agree (\<Union> (region ` set xs)) m m'"
    using Cons.prems by (rule agree_subset) auto
  then show ?case using Cons.IH h by simp
qed simp

lemma seg_append: "seg m p (xs @ ys) q \<longleftrightarrow> (\<exists>r. seg m p xs r \<and> seg m r ys q)"
  by (induction xs arbitrary: p) auto

lemma seg_end_unique: "seg m p xs q \<Longrightarrow> seg m p xs q' \<Longrightarrow> q = q'"
  by (induction xs arbitrary: p) auto

lemma wfl_simps [simp]:
  "wfl []" "wfl (x # xs) \<longleftrightarrow> block_ok x \<and> (\<forall>y \<in> set xs. before x y) \<and> wfl xs"
  by (auto simp: wfl_def)

lemma wfl_append: "wfl (xs @ ys) \<longleftrightarrow> wfl xs \<and> wfl ys \<and> (\<forall>x \<in> set xs. \<forall>y \<in> set ys. before x y)"
  by (auto simp: wfl_def sorted_wrt_append)

lemma before_disjoint: "before x y \<Longrightarrow> region x \<inter> region y = {}"
  by (auto simp: before_def region_def)

lemma wfl_regions:
  assumes "wfl (xs @ ys)"
  shows "\<Union> (region ` set xs) \<inter> \<Union> (region ` set ys) = {}"
proof -
  have "region x \<inter> region y = {}" if "x \<in> set xs" "y \<in> set ys" for x y
    using assms that by (intro before_disjoint) (simp add: wfl_append)
  then show ?thesis by blast
qed

lemma before_fst: "before x y \<Longrightarrow> fst x < fst y"
  by (simp add: before_def)

text \<open>The link at which a walk over \<open>xs\<close> that starts at \<open>pp\<close> arrives.\<close>

definition link_after :: "link \<Rightarrow> block list \<Rightarrow> link" where
  "link_after pp xs = (if xs = [] then pp else NextOf (of_nat (fst (last xs))))"

lemma link_after_simps [simp]:
  "link_after pp [] = pp" "link_after pp (x # xs) = link_after (NextOf (of_nat (fst x))) xs"
  "link_after pp (xs @ [x]) = NextOf (of_nat (fst x))"
  by (auto simp: link_after_def)

lemma read_next: "block_ok x \<Longrightarrow> read_link s (NextOf (of_nat (fst x))) = rd64 (hmem s) (fst x + 8)"
  by (simp add: blk_next_def block_ok_word)

lemma read_link_after:
  "seg (hmem s) (read_link s pp) xs q \<Longrightarrow> \<forall>x \<in> set xs. block_ok x \<Longrightarrow> read_link s (link_after pp xs) = q"
  by (induction xs arbitrary: pp) (auto simp: read_next simp del: read_link.simps)

lemma find_pp_seg:
  assumes "seg (hmem s) (read_link s pp) xs q" "\<forall>x \<in> set xs. block_ok x \<and> fst x < unat block"
    "q = 0 \<or> block \<le> q"
  shows "find_pp s block pp = Some (link_after pp xs)"
  using assms
proof (induction xs arbitrary: pp)
  case Nil
  then show ?case by (subst find_pp.simps) (auto simp: not_less)
next
  case (Cons x xs)
  have "of_nat (fst x) < block"
    using Cons.prems by (simp add: word_less_nat_alt block_ok_word)
  then show ?case
    using Cons.prems Cons.IH[of "NextOf (of_nat (fst x))"]
    by (subst find_pp.simps) (simp add: block_ok_word read_next del: read_link.simps)
qed

lemma find_fit_seg:
  assumes "seg (hmem s) (read_link s pp) xs q" "\<forall>x \<in> set xs. block_ok x \<and> snd x < unat need"
  shows "find_fit s need pp = find_fit s need (link_after pp xs)"
  using assms
proof (induction xs arbitrary: pp)
  case (Cons x xs)
  have h: "hdr (hmem s) (fst x) HEAP_MAGIC_FREE (snd x)" "read_link s pp = of_nat (fst x)"
    "block_ok x" using Cons.prems by auto
  have small: "\<not> need \<le> ucast (blk_size (hmem s) (of_nat (fst x)))"
    using Cons.prems h
    by (simp add: word_le_nat_alt blk_size_def block_ok_word hdr_def)
  have "find_fit s need pp = find_fit s need (NextOf (of_nat (fst x)))"
    using h small
    by (subst find_fit.simps)
      (simp add: Let_def block_ok_word blk_magic_def blk_canary_def hdr_def del: read_link.simps)
  then show ?case
    using Cons.prems Cons.IH[of "NextOf (of_nat (fst x))"] h(3) by (simp add: read_next del: read_link.simps)
qed simp


section \<open>Field access\<close>

lemma blk_set [simp]:
  "blk_magic (set_magic b v m) b = v" "blk_size (set_magic b v m) b = blk_size m b"
  "blk_next (set_magic b v m) b = blk_next m b" "blk_canary (set_magic b v m) b = blk_canary m b"
  "blk_magic (set_size b v m) b = blk_magic m b" "blk_size (set_size b v m) b = v"
  "blk_next (set_size b v m) b = blk_next m b" "blk_canary (set_size b v m) b = blk_canary m b"
  "blk_magic (set_next b u m) b = blk_magic m b" "blk_size (set_next b u m) b = blk_size m b"
  "blk_next (set_next b u m) b = u" "blk_canary (set_next b u m) b = blk_canary m b"
  "blk_magic (set_canary b v m) b = blk_magic m b" "blk_size (set_canary b v m) b = blk_size m b"
  "blk_next (set_canary b v m) b = blk_next m b" "blk_canary (set_canary b v m) b = v"
  by (simp_all add: blk_magic_def blk_size_def blk_next_def blk_canary_def
      set_magic_def set_size_def set_next_def set_canary_def gw_frame)

lemma set_agree [gw_frame]:
  assumes "A \<inter> {unat b..<unat b + 24} = {}"
  shows "agree A m (set_magic b v m)" "agree A m (set_size b v m)"
    "agree A m (set_next b u m)" "agree A m (set_canary b v m)"
proof -
  have o: "x < unat b \<or> unat b + 24 \<le> x" if "x \<in> A" for x
    using assms that by fastforce
  have "x < unat b + k \<or> unat b + k + l \<le> x" if "x \<in> A" "k + l \<le> 24" for x k l
    using o[OF that(1)] that(2) by auto
  then show "agree A m (set_magic b v m)" "agree A m (set_size b v m)"
    "agree A m (set_next b u m)" "agree A m (set_canary b v m)"
    using o by (auto simp: agree_def set_magic_def set_size_def set_next_def set_canary_def
        intro!: wr32_other[symmetric] wr64_other[symmetric]) fastforce+
qed

lemma hdr_blk:
  "hdr m (unat b) g n \<longleftrightarrow> blk_magic m b = g \<and> unat (blk_size m b) = n \<and> blk_canary m b = NOT g"
  by (simp add: hdr_def blk_magic_def blk_size_def blk_canary_def)

lemma blk_agree:
  assumes "agree {unat b..<unat b + 24} m m'"
  shows "blk_magic m b = blk_magic m' b" "blk_size m b = blk_size m' b"
    "blk_next m b = blk_next m' b" "blk_canary m b = blk_canary m' b"
proof -
  have e: "m (unat b + i) = m' (unat b + i)" if "i < 24" for i
    using assms that by (auto simp: agree_def)
  show "blk_magic m b = blk_magic m' b" "blk_size m b = blk_size m' b"
    "blk_next m b = blk_next m' b" "blk_canary m b = blk_canary m' b"
    unfolding blk_magic_def blk_size_def blk_next_def blk_canary_def
    by (intro rd32_cong rd64_cong; use e in \<open>simp add: add.assoc\<close>)+
qed

lemma mem_set_agree [gw_frame]: "A \<inter> {a..<a + n} = {} \<Longrightarrow> agree A m (mem_set m a c n)"
  by (auto simp: agree_def mem_set_def)

lemma make_free_spec:
  assumes "unat (blk_size m b) = n"
  shows "hdr (make_free b m) (unat b) HEAP_MAGIC_FREE n" "blk_next (make_free b m) b = 0"
    "agree (- region (unat b, n)) m (make_free b m)"
proof -
  define m1 where "m1 = set_next b 0 (set_canary b (NOT HEAP_MAGIC_FREE) (set_magic b HEAP_MAGIC_FREE m))"
  have m': "make_free b m = mem_set m1 (unat b + HDR) HEAP_POISON_FREE n"
    using assms by (simp add: make_free_def m1_def Let_def)
  have "agree {unat b..<unat b + 24} (make_free b m) m1"
    by (auto simp: agree_def m' mem_set_def)
  note e = blk_agree[OF this]
  show "hdr (make_free b m) (unat b) HEAP_MAGIC_FREE n" "blk_next (make_free b m) b = 0"
    using assms by (simp_all add: hdr_blk e m1_def)
  have "agree (- region (unat b, n)) m m1"
    unfolding m1_def
    by (rule agree_trans[OF set_agree(1) agree_trans[OF set_agree(4) set_agree(3)]]) (auto simp: region_def)
  moreover have "agree (- region (unat b, n)) m1 (make_free b m)"
    unfolding m' by (rule mem_set_agree) (auto simp: region_def)
  ultimately show "agree (- region (unat b, n)) m (make_free b m)" by (rule agree_trans)
qed

lemma set_link_seg:
  assumes "seg (hmem s) (free_list s) pre q" "wfl pre" "s' = set_link (link_after Head pre) v s"
  shows "seg (hmem s') (free_list s') pre v" "agree (- \<Union> (region ` set pre)) (hmem s) (hmem s')"
    "same_rest s s'"
proof -
  have "seg (hmem s') (free_list s') pre v \<and> agree (- \<Union> (region ` set pre)) (hmem s) (hmem s') \<and>
    same_rest s s'"
  proof (cases pre rule: rev_cases)
    case (snoc ys x)
    define p where "p = (of_nat (fst x) :: u64)"
    have ok: "block_ok x" "wfl ys" "\<forall>y \<in> set ys. before y x"
      using assms(2) snoc by (auto simp: wfl_append)
    have p: "unat p = fst x" using ok by (simp add: p_def block_ok_word)
    have s': "hmem s' = set_next p v (hmem s)" "free_list s' = free_list s"
      using assms(3) snoc by (simp_all add: p_def)
    obtain r where r: "seg (hmem s) (free_list s) ys r" "r = p" "hdr (hmem s) (unat p) HEAP_MAGIC_FREE (snd x)"
      using assms(1) snoc p by (auto simp: seg_append p_def)
    have ag: "agree (- region x) (hmem s) (hmem s')"
      unfolding s' by (rule set_agree) (auto simp: region_def p)
    have "agree (\<Union> (region ` set ys)) (hmem s) (hmem s')"
      using ag by (rule agree_subset) (use ok(3) before_disjoint in blast)
    then have "seg (hmem s') (free_list s') ys p"
      using r seg_cong s' by auto
    moreover have "hdr (hmem s') (fst x) HEAP_MAGIC_FREE (snd x)" "rd64 (hmem s') (fst x + 8) = v"
      using r(3) blk_set(11)[of p v "hmem s"] by (simp_all add: s' hdr_blk p[symmetric] blk_next_def)
    moreover have "agree (- \<Union> (region ` set pre)) (hmem s) (hmem s')"
      using ag by (rule agree_subset) (auto simp: snoc)
    ultimately show ?thesis
      using assms(3) by (auto simp: snoc seg_append p_def)
  qed (use assms in simp)
  then show "seg (hmem s') (free_list s') pre v" "agree (- \<Union> (region ` set pre)) (hmem s) (hmem s')"
    "same_rest s s'" by auto
qed

lemma wfl_split_at:
  assumes "wfl fl" "block_ok x" "\<forall>y \<in> set fl. region y \<inter> region x = {}"
  obtains pre post where "fl = pre @ post" "\<forall>y \<in> set pre. before y x" "\<forall>y \<in> set post. before x y"
proof -
  have "\<exists>pre post. fl = pre @ post \<and> (\<forall>y \<in> set pre. before y x) \<and> (\<forall>y \<in> set post. before x y)"
    using assms
  proof (induction fl)
    case (Cons y fl)
    have d: "region y \<inter> region x = {}" using Cons.prems by simp
    have "fst y \<notin> region x \<or> fst x \<notin> region y" "fst y \<noteq> fst x" using d by (auto simp: region_def)
    have or: "before y x \<or> before x y"
    proof (rule ccontr)
      assume "\<not> ?thesis"
      then have "max (fst x) (fst y) \<in> region y \<inter> region x" by (auto simp: before_def region_def)
      then show False using d by simp
    qed
    show ?case
    proof (cases "before y x")
      case True
      from Cons obtain pre post where "fl = pre @ post" "\<forall>z \<in> set pre. before z x" "\<forall>z \<in> set post. before x z"
        by auto
      then show ?thesis using True by (intro exI[of _ "y # pre"] exI[of _ post]) simp
    next
      case False
      then have "before x y" using or by simp
      moreover have "before x z" if "z \<in> set fl" for z
        using Cons.prems(1) that \<open>before x y\<close> by (auto simp: before_def)
      ultimately show ?thesis by (intro exI[of _ "[]"] exI[of _ "y # fl"]) simp
    qed
  qed simp
  then show thesis using that by blast
qed


section \<open>Insertion into the free list\<close>

lemma merge_hdr:
  assumes "hdr m (unat c) HEAP_MAGIC_FREE n1" "hdr m (unat d) g n2" "unat c + 24 + n1 + 24 + n2 \<le> 2 ^ 32"
    "m' = set_next c v (set_size c (merge_size m c d) m)"
  shows "hdr m' (unat c) HEAP_MAGIC_FREE (n1 + 24 + n2)" "blk_next m' c = v"
    "agree (- {unat c..<unat c + 24}) m m'"
proof -
  have n: "unat (blk_size m c) = n1" "unat (blk_size m d) = n2" using assms by (auto simp: hdr_blk)
  have "unat (ucast (blk_size m c) + (24 + ucast (blk_size m d)) :: u64) = n1 + 24 + n2"
    using assms(3) n by (simp add: unat_word_ariths)
  then have "unat (merge_size m c d) = n1 + 24 + n2"
    using assms(3) by (simp add: merge_size_def unsigned_ucast_eq take_bit_nat_eq_self)
  then show "hdr m' (unat c) HEAP_MAGIC_FREE (n1 + 24 + n2)" "blk_next m' c = v"
    using assms(1,4) by (auto simp: hdr_blk)
  show "agree (- {unat c..<unat c + 24}) m m'"
    unfolding assms(4) by (rule agree_trans[OF set_agree(2) set_agree(3)]) auto
qed

lemma block_end_eq:
  assumes "hdr m (unat b) g n" "unat b + 24 + n \<le> 2 ^ 32"
  shows "unat (block_end m b) = unat b + 24 + n"
  using assms by (simp add: block_end_def hdr_blk unat_word_ariths)

lemma find_prev_seg:
  assumes "seg (hmem s) p (ys @ [x]) block"
    "\<forall>z \<in> set (ys @ [x]). block_ok z \<and> of_nat (fst z) \<noteq> block"
  shows "find_prev s block p = Some (of_nat (fst x))"
  using assms
proof (induction ys arbitrary: p)
  case Nil
  then have "blk_next (hmem s) p = block" by (auto simp: blk_next_def block_ok_word)
  then show ?case using Nil by (subst find_prev.simps) auto
next
  case (Cons y ys)
  have p: "p = of_nat (fst y)" "p \<noteq> 0" "blk_next (hmem s) p = rd64 (hmem s) (fst y + 8)"
    using Cons.prems by (auto simp: blk_next_def block_ok_word)
  have r: "seg (hmem s) (rd64 (hmem s) (fst y + 8)) (ys @ [x]) block" using Cons.prems by simp
  then have "rd64 (hmem s) (fst y + 8) \<noteq> block"
    using Cons.prems(2) by (cases ys) auto
  then show ?case
    using Cons.IH[OF r] Cons.prems(2) p by (subst find_prev.simps) auto
qed

text \<open>
  A run of free blocks of which one ends where the next starts, with the first header
  rewritten to cover both, is again a list of free blocks.
\<close>

lemma merge_seg:
  assumes "seg m p (pre @ (a, n) # (a + 24 + n, n') # post) q" "wfl (pre @ (a, n) # (a + 24 + n, n') # post)"
    "c = of_nat a" "d = of_nat (a + 24 + n)"
    "m' = set_next c (blk_next m d) (set_size c (merge_size m c d) m)"
  shows "seg m' p (pre @ (a, n + 24 + n') # post) q"
    "agree (- {a..<a + 24}) m m'"
proof -
  have ok: "block_ok (a, n)" "block_ok (a + 24 + n, n')" using assms(2) by (auto simp: wfl_append)
  have u: "unat c = a" "unat d = a + 24 + n"
    using block_ok_word[OF ok(1)] block_ok_word[OF ok(2)] assms(3,4) by simp_all
  obtain r where r: "seg m p pre r" "r = c" "hdr m a HEAP_MAGIC_FREE n" "rd64 m (a + 8) = d"
      "hdr m (a + 24 + n) HEAP_MAGIC_FREE n'" "seg m (rd64 m (a + 24 + n + 8)) post q"
    using assms by (auto simp: seg_append)
  have le: "unat c + 24 + n + 24 + n' \<le> 2 ^ 32" using ok u by (simp add: block_ok_def)
  have h: "hdr m (unat c) HEAP_MAGIC_FREE n" "hdr m (unat d) HEAP_MAGIC_FREE n'" using r u by simp_all
  note mh = merge_hdr[OF h le assms(5)]
  show ag: "agree (- {a..<a + 24}) m m'" using mh(3) u by simp
  have "\<Union> (region ` set pre) \<inter> region (a, n) = {}" "\<Union> (region ` set post) \<inter> region (a, n) = {}"
    using assms(2) before_disjoint by (auto simp: wfl_append) blast+
  moreover have "{a..<a + 24} \<subseteq> region (a, n)" using header_in_region[of "(a, n)"] by simp
  ultimately have "\<Union> (region ` set pre) \<subseteq> - {a..<a + 24}" "\<Union> (region ` set post) \<subseteq> - {a..<a + 24}"
    by blast+
  then have "agree (\<Union> (region ` set pre)) m m'" "agree (\<Union> (region ` set post)) m m'"
    using agree_subset[OF ag] by blast+
  then have s: "seg m' p pre c" "seg m' (rd64 m (a + 24 + n + 8)) post q"
    using r seg_cong by auto
  have "rd64 m' (a + 8) = rd64 m (a + 24 + n + 8)"
    using mh(2) u by (simp add: blk_next_def)
  then show "seg m' p (pre @ (a, n + 24 + n') # post) q"
    using s mh(1) u assms(3) by (auto simp: seg_append)
qed


text \<open>
  What \<open>insert_free\<close> does to the list of free blocks: \<open>adds x fl fl'\<close> says that \<open>fl'\<close> is a
  well-formed list that covers exactly the bytes of \<open>fl\<close> and of \<open>x\<close>, and has a block at least
  as large as \<open>x\<close>.
\<close>

definition adds :: "block \<Rightarrow> block list \<Rightarrow> block list \<Rightarrow> bool" where
  "adds x fl fl' \<longleftrightarrow> wfl fl' \<and> \<Union> (region ` set fl') = \<Union> (region ` set fl) \<union> region x \<and>
     bytes fl' = bytes fl + 24 + snd x \<and> (\<exists>y \<in> set fl'. snd x \<le> snd y)"

lemma region_merge: "region (a, n + 24 + n') = region (a, n) \<union> region (a + 24 + n, n')"
  by (auto simp: region_def)

lemma wfl_merge:
  "wfl (pre @ (a, n) # (a + 24 + n, n') # post) \<Longrightarrow> wfl (pre @ (a, n + 24 + n') # post)"
  by (auto simp: wfl_append block_ok_def before_def)

lemma wfl_insert:
  assumes "wfl (pre @ post)" "block_ok x" "\<forall>y \<in> set pre. before y x" "\<forall>y \<in> set post. before x y"
  shows "wfl (pre @ x # post)"
  using assms by (auto simp: wfl_append)

lemma link_block:
  assumes seg: "seg (hmem s) (free_list s) pre r" and wf: "wfl (pre @ x # rest)"
    and h: "hdr (hmem s) (fst x) HEAP_MAGIC_FREE (snd x)" and tl: "seg (hmem s) (rd64 (hmem s) (fst x + 8)) rest 0"
    and s': "s' = set_link (link_after Head pre) (of_nat (fst x)) s"
  shows "seg (hmem s') (free_list s') (pre @ x # rest) 0"
    "agree (- \<Union> (region ` set pre)) (hmem s) (hmem s')"
    "same_rest s s'"
proof -
  have pre: "wfl pre" using wf by (simp add: wfl_append)
  note L = set_link_seg[OF seg pre s']
  show ag: "agree (- \<Union> (region ` set pre)) (hmem s) (hmem s')" by (rule L)
  show "same_rest s s'" by (rule L)
  have "\<Union> (region ` set (x # rest)) \<subseteq> - \<Union> (region ` set pre)"
    using wfl_regions[OF wf] by blast
  then have "agree (\<Union> (region ` set (x # rest))) (hmem s) (hmem s')"
    using agree_subset[OF ag] by blast
  then have "seg (hmem s) (of_nat (fst x)) (x # rest) 0 = seg (hmem s') (of_nat (fst x)) (x # rest) 0"
    by (rule seg_cong)
  then have "seg (hmem s') (of_nat (fst x)) (x # rest) 0" using h tl by simp
  then show "seg (hmem s') (free_list s') (pre @ x # rest) 0"
    using L(1) by (auto simp: seg_append)
qed

lemma insert_free_next:
  assumes seg: "seg (hmem s) (free_list s) (pre @ (a + 24 + n, n') # post) 0"
    and wf: "wfl (pre @ (a, n) # (a + 24 + n, n') # post)"
    and h: "hdr (hmem s) a HEAP_MAGIC_FREE n" and b: "b = of_nat a" and q: "q = of_nat (a + 24 + n)"
    and s': "s' = set_link (link_after Head pre) b
       (on_mem (\<lambda>m. set_next b (blk_next m q) (set_size b (merge_size m b q) m)) s)"
  shows "seg (hmem s') (free_list s') (pre @ (a, n + 24 + n') # post) 0"
    "agree (- (\<Union> (region ` set pre) \<union> region (a, n))) (hmem s) (hmem s')"
    "same_rest s s'"
proof -
  have ok: "block_ok (a, n)" "block_ok (a + 24 + n, n')" using wf by (auto simp: wfl_append)
  have u: "unat b = a" "unat q = a + 24 + n"
    using block_ok_word[OF ok(1)] block_ok_word[OF ok(2)] b q by simp_all
  define m where "m = hmem s"
  define m2 where "m2 = set_next b (blk_next m q) (set_size b (merge_size m b q) m)"
  define s2 where "s2 = s\<lparr>hmem := m2\<rparr>"
  have tl: "seg m (blk_next m q) post 0" and hq: "hdr m (unat q) HEAP_MAGIC_FREE n'"
    using seg u by (auto simp: seg_append blk_next_def m_def)
  have le: "unat b + 24 + n + 24 + n' \<le> 2 ^ 32" using ok u by (simp add: block_ok_def)
  have hb: "hdr m (unat b) HEAP_MAGIC_FREE n" using h u by (simp add: m_def)
  note mh = merge_hdr[OF hb hq le m2_def]
  have ag: "agree (- region (a, n)) m m2"
    using mh(3) by (rule agree_subset) (auto simp: u region_def)
  have "region (a, n) \<inter> \<Union> (region ` set (pre @ (a + 24 + n, n') # post)) = {}"
    using wf before_disjoint by (auto simp: wfl_append) blast+
  then have sub: "\<Union> (region ` set (pre @ (a + 24 + n, n') # post)) \<subseteq> - region (a, n)" by blast
  have "seg m2 (free_list s) (pre @ (a + 24 + n, n') # post) 0"
    using seg seg_cong[OF agree_subset[OF ag sub]] by (simp add: m_def)
  then obtain r where r: "seg m2 (free_list s) pre r" by (auto simp: seg_append)
  have "seg m2 (blk_next m q) post 0"
    using tl seg_cong[of post m m2] agree_subset[OF ag, of "\<Union> (region ` set post)"] sub by auto
  then have tl2: "seg m2 (rd64 m2 (a + 8)) post 0" using mh(2) u by (simp add: blk_next_def)
  have h2: "hdr m2 a HEAP_MAGIC_FREE (n + 24 + n')" using mh(1) u by simp
  have "s' = set_link (link_after Head pre) (of_nat a) s2"
    using s' b by (simp add: s2_def m2_def m_def)
  then have L: "seg (hmem s') (free_list s') (pre @ (a, n + 24 + n') # post) 0"
      "agree (- \<Union> (region ` set pre)) m2 (hmem s')"
      "same_rest s2 s'"
    using link_block[of s2 pre r "(a, n + 24 + n')" post s'] wfl_merge[OF wf] r tl2 h2
    by (auto simp: s2_def)
  show "seg (hmem s') (free_list s') (pre @ (a, n + 24 + n') # post) 0" by (rule L)
  show "agree (- (\<Union> (region ` set pre) \<union> region (a, n))) (hmem s) (hmem s')"
    using agree_trans[of _ m m2 "hmem s'"] agree_subset[OF ag] agree_subset[OF L(2)] by (simp add: m_def)
  show "same_rest s s'"
    using L(3) by (simp add: s2_def)
qed


lemma insert_free_here:
  assumes seg: "seg (hmem s) (free_list s) (pre @ post) 0" and wf: "wfl (pre @ x # post)"
    and h: "hdr (hmem s) (fst x) HEAP_MAGIC_FREE (snd x)" and b: "b = of_nat (fst x)"
    and s': "s' = set_link (link_after Head pre) b
        (on_mem (set_next b (read_link s (link_after Head pre))) s)"
  shows "seg (hmem s') (free_list s') (pre @ x # post) 0"
    "agree (- (\<Union> (region ` set pre) \<union> region x)) (hmem s) (hmem s')"
    "same_rest s s'"
proof -
  have ok: "block_ok x" "wfl pre" using wf by (auto simp: wfl_append)
  have u: "unat b = fst x" using block_ok_word[OF ok(1)] b by simp
  obtain q where q: "seg (hmem s) (free_list s) pre q" "seg (hmem s) q post 0"
    using seg by (auto simp: seg_append)
  have rl: "read_link s (link_after Head pre) = q"
    using read_link_after[of s Head pre q] q(1) ok(2) by (simp add: wfl_def)
  define m2 where "m2 = set_next b q (hmem s)"
  define s2 where "s2 = s\<lparr>hmem := m2\<rparr>"
  have ag: "agree (- region x) (hmem s) m2"
    unfolding m2_def by (rule set_agree) (auto simp: region_def u)
  have dis: "\<Union> (region ` set pre) \<subseteq> - region x" "\<Union> (region ` set post) \<subseteq> - region x"
    using wfl_regions[of pre "x # post"] wfl_regions[of "pre @ [x]" post] wf by auto
  have pre2: "seg m2 (free_list s) pre q" "seg m2 q post 0"
    using q seg_cong[OF agree_subset[OF ag dis(1)]] seg_cong[OF agree_subset[OF ag dis(2)]] by auto
  have h2: "hdr m2 (fst x) HEAP_MAGIC_FREE (snd x)" "rd64 m2 (fst x + 8) = q"
    using h by (simp_all add: m2_def hdr_blk blk_next_def[symmetric] flip: u)
  have "s' = set_link (link_after Head pre) (of_nat (fst x)) s2"
    using s' rl b by (simp add: s2_def m2_def)
  then have L: "seg (hmem s') (free_list s') (pre @ x # post) 0"
      "agree (- \<Union> (region ` set pre)) m2 (hmem s')"
      "same_rest s2 s'"
    using link_block[of s2 pre q x post s'] wf pre2 h2 by (auto simp: s2_def)
  show "seg (hmem s') (free_list s') (pre @ x # post) 0" by (rule L)
  show "agree (- (\<Union> (region ` set pre) \<union> region x)) (hmem s) (hmem s')"
    using agree_trans[of _ "hmem s" m2 "hmem s'"] agree_subset[OF ag] agree_subset[OF L(2)] by simp
  show "same_rest s s'"
    using L(3) by (simp add: s2_def)
qed

text \<open>The step that joins a block with its predecessor, when they touch.\<close>

lemma coalesce_prev_seg:
  assumes seg: "seg m p (ys @ z # x # post) 0" and wf: "wfl (ys @ z # x # post)"
    and m': "m' = coalesce_prev (of_nat (fst x)) (of_nat (fst z)) m"
  obtains fl' where "seg m' p fl' 0" "adds x (ys @ z # post) fl'"
    "agree (- region z) m m'"
proof -
  obtain a n where z: "z = (a, n)" by force
  have ok: "block_ok z" "block_ok x" using wf by (auto simp: wfl_append)
  note uz = block_ok_word[OF ok(1)] and ux = block_ok_word[OF ok(2)]
  have hz: "hdr m (fst z) HEAP_MAGIC_FREE (snd z)" using seg by (auto simp: seg_append)
  have e: "unat (block_end m (of_nat (fst z))) = a + 24 + n"
    using block_end_eq[of m "of_nat (fst z)" HEAP_MAGIC_FREE n] uz hz ok(1) z by (simp add: block_ok_def)
  show thesis
  proof (cases "fst x = a + 24 + n")
    case True
    then have "block_end m (of_nat (fst z)) = of_nat (fst x)"
      using e ux by (simp add: word_unat_eq_iff)
    then have m'': "m' = set_next (of_nat a) (blk_next m (of_nat (fst x)))
        (set_size (of_nat a) (merge_size m (of_nat a) (of_nat (fst x))) m)"
      using m' uz z by (simp add: coalesce_prev_def)
    have x: "x = (a + 24 + n, snd x)" using True by (metis prod.collapse)
    have s: "seg m p (ys @ (a, n) # (a + 24 + n, snd x) # post) 0"
      and w: "wfl (ys @ (a, n) # (a + 24 + n, snd x) # post)"
      using seg wf x z by auto
    note M = merge_seg[OF s w refl refl m''[unfolded True]]
    have "agree (- region z) m m'" using M(2) by (rule agree_subset) (auto simp: region_def z)
    moreover have "adds x (ys @ z # post) (ys @ (a, n + 24 + snd x) # post)"
      using wfl_merge[OF w] region_merge[of a n "snd x"] x
      by (auto simp: adds_def z)
    ultimately show thesis using M(1) that by blast
  next
    case False
    then have "block_end m (of_nat (fst z)) \<noteq> of_nat (fst x)"
      using e ux by (metis)
    then have "m' = m" using m' by (simp add: coalesce_prev_def)
    moreover have "adds x (ys @ z # post) (ys @ z # x # post)"
      using wf by (auto simp: adds_def)
    ultimately show thesis using seg that by auto
  qed
qed


lemma link_free_next:
  assumes seg: "seg (hmem s) (free_list s) (pre @ y # ys) 0" and wf: "wfl (pre @ x # y # ys)"
    and h: "hdr (hmem s) (fst x) HEAP_MAGIC_FREE (snd x)" and b: "b = of_nat (fst x)"
    and adj: "fst y = fst x + 24 + snd x"
  obtains s' fl' where "link_free b (link_after Head pre) s = Some s'"
    "seg (hmem s') (free_list s') fl' 0" "adds x (pre @ y # ys) fl'"
    "agree (- (\<Union> (region ` set (pre @ y # ys)) \<union> region x)) (hmem s) (hmem s')"
    "same_rest s s'"
proof -
  have ok: "block_ok x" "block_ok y" "\<forall>y \<in> set pre. block_ok y" using wf by (auto simp: wfl_append wfl_def)
  define q where "q = (of_nat (fst y) :: u64)"
  have y: "y = (fst x + 24 + snd x, snd y)" using adj by (metis prod.collapse)
  have rl: "read_link s (link_after Head pre) = q"
    using read_link_after[of s Head pre q] seg ok(3) by (auto simp: seg_append q_def)
  have "unat (block_end (hmem s) b) = fst y"
    using block_end_eq[of "hmem s" b] h b block_ok_word[OF ok(1)] ok(1) adj by (simp add: block_ok_def)
  then have be: "block_end (hmem s) b = q"
    using block_ok_word[OF ok(2)] by (simp add: q_def word_unat_eq_iff)
  define s' where "s' = set_link (link_after Head pre) b
      (on_mem (\<lambda>m. set_next b (blk_next m q) (set_size b (merge_size m b q) m)) s)"
  have c: "seg (hmem s) (free_list s) (pre @ (fst x + 24 + snd x, snd y) # ys) 0"
    "wfl (pre @ (fst x, snd x) # (fst x + 24 + snd x, snd y) # ys)"
    using seg wf y by (metis, metis prod.collapse)
  have qq: "q = of_nat (fst x + 24 + snd x)" using adj by (simp add: q_def)
  note L = insert_free_next[OF c h b qq s'_def]
  have r: "region y = region (fst x + 24 + snd x, snd y)" using y by simp
  have "adds x (pre @ y # ys) (pre @ (fst x, snd x + 24 + snd y) # ys)"
    using wfl_merge[OF c(2)] region_merge[of "fst x" "snd x" "snd y"] r
    by (auto simp: adds_def)
  moreover have "link_free b (link_after Head pre) s = Some s'"
    using rl be block_ok_word[OF ok(2)] by (simp add: link_free_def s'_def Let_def q_def)
  moreover have "agree (- (\<Union> (region ` set (pre @ y # ys)) \<union> region x)) (hmem s) (hmem s')"
    using L(2) by (rule agree_subset) auto
  ultimately show thesis using L(1,3) that by blast
qed

lemma link_free_here:
  assumes seg: "seg (hmem s) (free_list s) (pre @ post) 0" and wf: "wfl (pre @ x # post)"
    and h: "hdr (hmem s) (fst x) HEAP_MAGIC_FREE (snd x)" and b: "b = of_nat (fst x)"
    and nadj: "\<forall>y ys. post = y # ys \<longrightarrow> fst y \<noteq> fst x + 24 + snd x"
  obtains s' fl' where "link_free b (link_after Head pre) s = Some s'"
    "seg (hmem s') (free_list s') fl' 0" "adds x (pre @ post) fl'"
    "agree (- (\<Union> (region ` set (pre @ post)) \<union> region x)) (hmem s) (hmem s')"
    "same_rest s s'"
proof -
  have ok: "block_ok x" "\<forall>y \<in> set pre. block_ok y" using wf by (auto simp: wfl_append wfl_def)
  obtain q where q: "seg (hmem s) (free_list s) pre q" "seg (hmem s) q post 0"
    using seg by (auto simp: seg_append)
  have rl: "read_link s (link_after Head pre) = q"
    using read_link_after[of s Head pre q] q(1) ok(2) by simp
  have be: "unat (block_end (hmem s) b) = fst x + 24 + snd x"
    using block_end_eq[of "hmem s" b] h b block_ok_word[OF ok(1)] ok(1) by (simp add: block_ok_def)
  have ne: "\<not> (q \<noteq> 0 \<and> block_end (hmem s) b = q)"
  proof (cases post)
    case (Cons y ys)
    then have "q = of_nat (fst y)" "block_ok y" using q(2) wf by (auto simp: wfl_append)
    then show ?thesis using be nadj Cons block_ok_word by metis
  qed (use q in simp)
  define s2 where "s2 = set_link (link_after Head pre) b (on_mem (set_next b q) s)"
  note L = insert_free_here[OF seg wf h b, of s2, unfolded rl, OF s2_def]
  have lf: "link_free b (link_after Head pre) s = (if free_list s2 \<noteq> b
      then find_prev s2 b (free_list s2) \<bind> (\<lambda>prev. Some (on_mem (coalesce_prev b prev) s2)) else Some s2)"
    by (simp only: link_free_def Let_def rl if_not_P[OF ne] s2_def)
  show thesis
  proof (cases pre rule: rev_cases)
    case Nil
    then have "free_list s2 = b" by (simp add: s2_def)
    moreover have "adds x (pre @ post) (pre @ x # post)" using wf by (auto simp: adds_def)
    moreover have "agree (- (\<Union> (region ` set (pre @ post)) \<union> region x)) (hmem s) (hmem s2)"
      using L(2) by (rule agree_subset) auto
    ultimately show thesis using lf L(1,3) that by auto
  next
    case (snoc ys z)
    have pre: "\<forall>y \<in> set (ys @ [z]). block_ok y \<and> of_nat (fst y) \<noteq> b"
    proof
      fix y assume y: "y \<in> set (ys @ [z])"
      then have "before y x" using wf snoc by (auto simp: wfl_append)
      moreover have "block_ok y" using y ok(2) snoc by auto
      ultimately show "block_ok y \<and> of_nat (fst y) \<noteq> b"
        using before_fst[of y x] block_ok_word[of y] block_ok_word[OF ok(1)] b
        by (simp add: word_unat_eq_iff)
    qed
    have sg: "seg (hmem s2) (free_list s2) (ys @ z # x # post) 0" "wfl (ys @ z # x # post)"
      using L(1) wf snoc by auto
    then have "seg (hmem s2) (free_list s2) (ys @ [z]) b" by (auto simp: seg_append b)
    note fp = find_prev_seg[OF this pre]
    have "free_list s2 = of_nat (fst (hd (ys @ [z])))" using sg(1) by (cases ys) auto
    then have "free_list s2 \<noteq> b" using pre by (cases ys) auto
    then have lf': "link_free b (link_after Head pre) s =
        Some (on_mem (coalesce_prev b (of_nat (fst z))) s2)" using lf fp by simp
    obtain fl' where fl': "seg (coalesce_prev b (of_nat (fst z)) (hmem s2)) (free_list s2) fl' 0"
        "adds x (ys @ z # post) fl'" "agree (- region z) (hmem s2) (coalesce_prev b (of_nat (fst z)) (hmem s2))"
      using coalesce_prev_seg[OF sg refl] unfolding b by blast
    have a1: "agree (- (\<Union> (region ` set (pre @ post)) \<union> region x)) (hmem s) (hmem s2)"
      using L(2) by (rule agree_subset) auto
    have a2: "agree (- (\<Union> (region ` set (pre @ post)) \<union> region x)) (hmem s2) (coalesce_prev b (of_nat (fst z)) (hmem s2))"
      using fl'(3) by (rule agree_subset) (auto simp: snoc)
    show thesis
      by (rule that[OF lf', of fl']) (use fl' agree_trans[OF a1 a2] L(3) snoc in auto)
  qed
qed


theorem insert_free_spec:
  assumes seg: "seg (hmem s) (free_list s) fl 0" and wf: "wfl fl" and ok: "block_ok x"
    and b: "b = of_nat (fst x)" and sz: "unat (blk_size (hmem s) b) = snd x"
    and dis: "\<forall>y \<in> set fl. region y \<inter> region x = {}"
  obtains s' fl' where "insert_free b s = Some s'" "seg (hmem s') (free_list s') fl' 0" "adds x fl fl'"
    "agree (- (\<Union> (region ` set fl) \<union> region x)) (hmem s) (hmem s')"
    "same_rest s s'"
proof -
  obtain pre post where fl: "fl = pre @ post" "\<forall>y \<in> set pre. before y x" "\<forall>y \<in> set post. before x y"
    using wfl_split_at[OF wf ok dis] .
  have wfx: "wfl (pre @ x # post)" using wfl_insert[of pre post x] fl wf ok by simp
  note u = block_ok_word[OF ok, folded b]
  define s1 where "s1 = on_mem (make_free b) s"
  have mf: "hdr (hmem s1) (fst x) HEAP_MAGIC_FREE (snd x)" "agree (- region x) (hmem s) (hmem s1)"
    using make_free_spec[OF sz] u by (simp_all add: s1_def)
  have sub: "\<Union> (region ` set fl) \<subseteq> - region x" using dis by blast
  have "seg (hmem s1) (free_list s) fl 0" using seg seg_cong[OF agree_subset[OF mf(2) sub]] by simp
  then have seg1: "seg (hmem s1) (free_list s1) (pre @ post) 0" by (simp add: s1_def fl)
  then obtain q where q: "seg (hmem s1) (free_list s1) pre q" "seg (hmem s1) q post 0" by (auto simp: seg_append)
  have okpre: "\<forall>y \<in> set pre. block_ok y \<and> fst y < unat b" "wfl post"
    using wfx fl(2) before_fst u by (auto simp: wfl_def sorted_wrt_append)
  have qb: "q = 0 \<or> b \<le> q"
  proof (cases post)
    case (Cons y ys)
    then have "q = of_nat (fst y)" "block_ok y" "before x y" using q(2) okpre fl by auto
    then show ?thesis using u block_ok_word[of y] before_fst[of x y] by (simp add: word_le_nat_alt)
  qed (use q in simp)
  have pp: "find_pp s1 b Head = Some (link_after Head pre)"
    using find_pp_seg[of s1 Head pre q b] q okpre qb by simp
  then have ins: "insert_free b s = link_free b (link_after Head pre) s1"
    by (simp add: insert_free_def s1_def Let_def)
  obtain s' fl' where L: "link_free b (link_after Head pre) s1 = Some s'"
    "seg (hmem s') (free_list s') fl' 0" "adds x (pre @ post) fl'"
    "agree (- (\<Union> (region ` set (pre @ post)) \<union> region x)) (hmem s1) (hmem s')"
    "same_rest s1 s'"
  proof (cases "\<exists>y ys. post = y # ys \<and> fst y = fst x + 24 + snd x")
    case True
    then obtain y ys where y: "post = y # ys" "fst y = fst x + 24 + snd x" by blast
    show thesis
      using link_free_next[OF seg1[unfolded y(1)] wfx[unfolded y(1)] mf(1) b y(2)] that unfolding y(1) by blast
  next
    case False
    then show thesis using link_free_here[OF seg1 wfx mf(1) b] that by blast
  qed
  have "agree (- (\<Union> (region ` set fl) \<union> region x)) (hmem s) (hmem s')"
    by (rule agree_trans[OF agree_subset[OF mf(2)] L(4)[folded fl(1)]]) auto
  then show thesis
    using that[of s' fl'] ins L fl(1) by (auto simp: s1_def)
qed

end
