(* ===== verification/Heap_Inv.thy ===== *)
theory Heap_Inv
  imports Heap
begin

text \<open>
  The invariant of the kernel heap and what each operation does to it: growing, first-fit search,
  splitting, placing the user pointer, releasing, initialisation and the statistics.
\<close>

section \<open>The heap invariant\<close>

definition page_set :: "nat set \<Rightarrow> nat set" where
  "page_set A = (\<lambda>a. a div 4096) ` A"

definition disj :: "block list \<Rightarrow> bool" where
  "disj xs \<longleftrightarrow> sorted_wrt (\<lambda>x y. region x \<inter> region y = {}) xs"

definition cover :: "block list \<Rightarrow> nat set" where
  "cover xs = \<Union> (region ` set xs)"

text \<open>
  \<open>fl\<close> are the free blocks in list order, \<open>bl\<close> the allocated ones. All blocks are disjoint,
  lie in pages that the page allocator has given out, and their sizes add up to the counters.
\<close>

definition heap_ok :: "heap \<Rightarrow> block list \<Rightarrow> block list \<Rightarrow> bool" where
  "heap_ok s fl bl \<longleftrightarrow> pmm_inv (hpmm s) \<and> (\<forall>p \<in> free_set (hpmm s). 256 \<le> p) \<and>
     seg (hmem s) (free_list s) fl 0 \<and> wfl fl \<and> (\<forall>x \<in> set bl. block_ok x) \<and> disj (fl @ bl) \<and>
     page_set (cover (fl @ bl)) \<inter> free_set (hpmm s) = {} \<and>
     (\<forall>x \<in> set bl. hdr (hmem s) (fst x) HEAP_MAGIC_ALLOC (snd x)) \<and>
     unat (heap_used s) = bytes bl \<and> unat (heap_total s) = bytes fl + bytes bl"

text \<open>The bytes the heap promises to leave alone: those in no free block and no free page.\<close>

definition foreign :: "heap \<Rightarrow> block list \<Rightarrow> nat set" where
  "foreign s fl = {a. a \<notin> cover fl \<and> a div 4096 \<notin> free_set (hpmm s)}"

lemma cover_simps [simp]:
  "cover [] = {}" "cover (x # xs) = region x \<union> cover xs" "cover (xs @ ys) = cover xs \<union> cover ys"
  by (simp_all add: cover_def)

lemma disj_simps [simp]:
  "disj []" "disj (x # xs) \<longleftrightarrow> region x \<inter> cover xs = {} \<and> disj xs"
  by (auto simp: disj_def cover_def)

lemma disj_append: "disj (xs @ ys) \<longleftrightarrow> disj xs \<and> disj ys \<and> cover xs \<inter> cover ys = {}"
  by (induction xs) auto

lemma wfl_disj: "wfl xs \<Longrightarrow> disj xs"
  by (induction xs) (use before_disjoint in \<open>fastforce simp: cover_def\<close>)+

lemma finite_region [simp]: "finite (region x)" "card (region x) = 24 + snd x"
  by (simp_all add: region_def)

lemma finite_cover [simp]: "finite (cover xs)"
  by (induction xs) auto

lemma bytes_card: "disj xs \<Longrightarrow> bytes xs = card (cover xs)"
  by (induction xs) (auto simp: card_Un_disjoint)

lemma bytes_bound:
  assumes "disj xs" "\<forall>x \<in> set xs. block_ok x"
  shows "bytes xs \<le> 2 ^ 32"
proof -
  have "cover xs \<subseteq> {..<2 ^ 32}"
    using assms(2) by (force simp: cover_def region_def block_ok_def)
  then have "card (cover xs) \<le> 2 ^ 32" using card_mono[of "{..<2 ^ 32 :: nat}" "cover xs"] by simp
  then show ?thesis using bytes_card[OF assms(1)] by simp
qed

lemma heap_ok_bound:
  assumes "heap_ok s fl bl"
  shows "bytes fl + bytes bl \<le> 2 ^ 32"
  using bytes_bound[of "fl @ bl"] assms by (auto simp: heap_ok_def wfl_def)

lemma addsD:
  assumes "adds x fl fl'"
  shows "wfl fl'" "cover fl' = cover fl \<union> region x" "bytes fl' = bytes fl + 24 + snd x"
    "\<exists>y \<in> set fl'. snd x \<le> snd y"
  using assms by (auto simp: adds_def cover_def)

text \<open>Giving a block back: \<open>x\<close> joins the free list and everything else stays in order.\<close>

lemma insert_free_ok:
  assumes seg: "seg (hmem s) (free_list s) fl 0" and wf: "wfl fl" and ok: "block_ok x"
    and b: "b = of_nat (fst x)" and sz: "unat (blk_size (hmem s) b) = snd x"
    and dis: "cover fl \<inter> region x = {}" 
  obtains s' fl' where "insert_free b s = Some s'" "seg (hmem s') (free_list s') fl' 0"
    "wfl fl'" "cover fl' = cover fl \<union> region x" "bytes fl' = bytes fl + 24 + snd x"
    "\<exists>y \<in> set fl'. snd x \<le> snd y"
    "agree (- (cover fl \<union> region x)) (hmem s) (hmem s')" "same_rest s s'"
proof -
  have "\<forall>y \<in> set fl. region y \<inter> region x = {}" using dis by (auto simp: cover_def)
  from insert_free_spec[OF seg wf ok b sz this] obtain s' fl' where
    r: "insert_free b s = Some s'" "seg (hmem s') (free_list s') fl' 0" "adds x fl fl'"
      "agree (- (cover fl \<union> region x)) (hmem s) (hmem s')" "same_rest s s'"
    unfolding cover_def by blast
  show thesis using that[OF r(1,2) addsD[OF r(3)] r(4,5)] .
qed

lemma hdr_outside:
  assumes "\<forall>x \<in> set bl. hdr m (fst x) g (snd x)" "agree A m m'" "cover bl \<subseteq> A"
  shows "\<forall>x \<in> set bl. hdr m' (fst x) g (snd x)"
proof
  fix x assume x: "x \<in> set bl"
  then have "region x \<subseteq> A" using assms(3) by (auto simp: cover_def)
  then have "agree {fst x..<fst x + 24} m m'"
    using agree_subset[OF assms(2)] header_in_region[of x] by blast
  then show "hdr m' (fst x) g (snd x)" using hdr_cong(1) assms(1) x by blast
qed


section \<open>Growing the heap\<close>

definition expand_pages :: "u64 \<Rightarrow> u64" where
  "expand_pages need = (let pages0 = (HDR + need + HEAP_MIN_BLOCK + PAGE_SIZE - 1) div PAGE_SIZE
     in if pages0 < HEAP_EXPAND_PAGES then HEAP_EXPAND_PAGES else pages0)"

lemma expand_pages_bound:
  assumes "unat need < 2 ^ 63"
  shows "expand_pages need \<noteq> 0" "unat need + 56 \<le> unat (expand_pages need) * 4096"
proof -
  have "unat (HDR + need + HEAP_MIN_BLOCK + PAGE_SIZE - 1) = unat need + 56 + 4095"
  proof -
    have "HDR + need + HEAP_MIN_BLOCK + PAGE_SIZE - 1 = need + 4151" by simp
    then show ?thesis using assms by (simp add: unat_word_ariths)
  qed
  then have p: "unat ((HDR + need + HEAP_MIN_BLOCK + PAGE_SIZE - 1) div PAGE_SIZE) = (unat need + 4151) div 4096"
    by (simp only: unat_div) simp
  have ge: "unat need + 56 \<le> (unat need + 4151) div 4096 * 4096" by simp
  show "unat need + 56 \<le> unat (expand_pages need) * 4096"
  proof (cases "(HDR + need + HEAP_MIN_BLOCK + PAGE_SIZE - 1) div PAGE_SIZE < HEAP_EXPAND_PAGES")
    case True
    then have "(unat need + 4151) div 4096 < 16" using p by (simp only: word_less_nat_alt) simp
    moreover have "expand_pages need = 16" using True by (simp only: expand_pages_def Let_def if_True)
    ultimately show ?thesis by simp
  next
    case False
    then have "expand_pages need = (HDR + need + HEAP_MIN_BLOCK + PAGE_SIZE - 1) div PAGE_SIZE"
      by (simp only: expand_pages_def Let_def if_False)
    then show ?thesis using p ge by simp
  qed
  then have "unat (expand_pages need) \<noteq> 0" by auto
  then show "expand_pages need \<noteq> 0" by (simp add: unat_eq_0)
qed

lemma page_set_pages:
  assumes "0 < k"
  shows "page_set {t * 4096..<t * 4096 + k * 4096} = {t..<t + k}"
proof -
  have "(t * 4096 + k * 4096 + 4096 - 1) div 4096 = t + k" by (rule div_nat_eqI) auto
  then show ?thesis unfolding page_set_def using assms by (subst div_image_interval) simp_all
qed


text \<open>The block made of freshly allocated pages.\<close>

lemma arena_block:
  assumes "pmm_inv p" "\<forall>q \<in> free_set p. 256 \<le> q" "pmm_alloc_pages p n = (p', a)" "a \<noteq> 0"
  defines "x \<equiv> (unat a, unat n * 4096 - 24)"
  shows "block_ok x" "page_set (region x) = frames (a, n)" "a = of_nat (fst x)"
    "unat (ucast (n * PAGE_SIZE - HDR) :: u32) = snd x" "unat (n * PAGE_SIZE) = 24 + snd x"
    "b div 4096 \<in> page_set (region x) \<Longrightarrow> b \<in> region x"
proof -
  note S = pmm.alloc_success[OF assms(1,3,4)]
  have n0: "0 < unat n" using S(3) by (simp add: unat_gt_0)
  define t where "t = unat a div 4096"
  have a: "unat a = t * 4096" using S(4) div_mult_mod_eq[of "unat a" 4096] by (simp add: t_def)
  have "t \<in> frames (a, n)" using n0 by (simp add: frames_def t_def)
  then have t: "256 \<le> t" using S(5) assms(2) by blast
  have "t + unat n \<le> PMM_MAX_PAGES" using S(7) pmm.limit_max[OF assms(1)] by (simp add: t_def)
  then have l: "unat n \<le> 1048320" using t by simp
  have r: "region x = {t * 4096..<t * 4096 + unat n * 4096}"
    using n0 by (auto simp: region_def x_def a)
  show "block_ok x"
    using t \<open>t + unat n \<le> PMM_MAX_PAGES\<close> n0 a by (auto simp: block_ok_def x_def)
  show ps: "page_set (region x) = frames (a, n)"
    using page_set_pages[OF n0, of t] by (simp add: r frames_def t_def)
  show "b \<in> region x" if "b div 4096 \<in> page_set (region x)"
  proof -
    have "t \<le> b div 4096" "b div 4096 < t + unat n" using that page_set_pages[OF n0, of t] by (simp_all add: r)
    then show ?thesis by (simp add: r less_eq_div_iff_mult_less_eq div_less_iff_less_mult algebra_simps)
  qed
  show "a = of_nat (fst x)" by (simp add: x_def)
  have m: "unat (n * PAGE_SIZE) = unat n * 4096" using l by (simp add: unat_word_ariths)
  then show "unat (n * PAGE_SIZE) = 24 + snd x" using n0 by (simp add: x_def)
  have "unat (n * PAGE_SIZE - HDR) = unat n * 4096 - 24"
    using m n0 by (subst unat_sub) (auto simp: word_le_nat_alt)
  then show "unat (ucast (n * PAGE_SIZE - HDR) :: u32) = snd x"
    using l by (simp add: x_def unsigned_ucast_eq take_bit_nat_eq_self)
qed

lemma new_arena:
  assumes ok: "heap_ok s fl bl" and al: "pmm_alloc_pages (hpmm s) n = (p', a)" "a \<noteq> 0"
    and s1: "s1 = s\<lparr>hpmm := p', hmem := set_size a (ucast (n * PAGE_SIZE - HDR)) (hmem s),
      heap_total := heap_total s + n * PAGE_SIZE\<rparr>"
  obtains s' fl' where "insert_free a s1 = Some s'" "heap_ok s' fl' bl"
      "\<exists>y \<in> set fl'. unat n * 4096 - 24 \<le> snd y" "agree (foreign s fl) (hmem s) (hmem s')"
      "foreign s' fl' = foreign s fl" "heap_ready s' = heap_ready s"
proof -
  define x where "x = (unat a, unat n * 4096 - 24)"
  have inv: "pmm_inv (hpmm s)" "\<forall>p \<in> free_set (hpmm s). 256 \<le> p"
    and H: "seg (hmem s) (free_list s) fl 0" "wfl fl" "disj (fl @ bl)"
      "page_set (cover (fl @ bl)) \<inter> free_set (hpmm s) = {}"
      "unat (heap_used s) = bytes bl" "unat (heap_total s) = bytes fl + bytes bl"
      "\<forall>x \<in> set bl. hdr (hmem s) (fst x) HEAP_MAGIC_ALLOC (snd x)" "\<forall>x \<in> set bl. block_ok x"
    using ok by (auto simp: heap_ok_def)
  note S = pmm.alloc_success[OF inv(1) al]
  note X = arena_block[OF inv al, folded x_def]
  have new: "cover (fl @ bl) \<inter> region x = {}" "page_set (region x) \<subseteq> free_set (hpmm s)"
    using H(4) X(2) S(5) by (auto simp: page_set_def)
  have ag1: "agree (- region x) (hmem s) (hmem s1)"
    unfolding s1 by (simp, rule set_agree) (auto simp: region_def x_def)
  have seg1: "seg (hmem s1) (free_list s1) fl 0"
    using H(1) seg_cong[OF agree_subset[OF ag1], of fl] new(1) s1 by (auto simp: cover_def)
  have sz: "unat (blk_size (hmem s1) a) = snd x" using X(4) by (simp add: s1)
  have "cover fl \<inter> region x = {}" using new(1) by auto
  from insert_free_ok[OF seg1 H(2) X(1) X(3) sz this] obtain s' fl' where
    I: "insert_free a s1 = Some s'" "seg (hmem s') (free_list s') fl' 0"
    "wfl fl'" "cover fl' = cover fl \<union> region x" "bytes fl' = bytes fl + 24 + snd x"
    "\<exists>y \<in> set fl'. snd x \<le> snd y"
    "agree (- (cover fl \<union> region x)) (hmem s1) (hmem s')" "same_rest s1 s'" .
  have ag: "agree (- (cover fl \<union> region x)) (hmem s) (hmem s')"
    by (rule agree_trans[OF agree_subset[OF ag1] I(7)]) auto
  have fr: "free_set (hpmm s') = free_set (hpmm s) - page_set (region x)"
    using I(8) s1 S(6) X(2) by simp
  have bl: "cover bl \<subseteq> - (cover fl \<union> region x)" using new(1) H(3) by (auto simp: disj_append)
  have tot: "unat (heap_total s') = bytes fl' + bytes bl"
    using I(5,8) s1 X(5) H(6) heap_ok_bound[OF ok] X(1) by (simp add: unat_word_ariths block_ok_def)
  have "heap_ok s' fl' bl"
    unfolding heap_ok_def
  proof (intro conjI)
    show "disj (fl' @ bl)" using I(3,4) wfl_disj H(3) bl by (auto simp: disj_append)
    show "page_set (cover (fl' @ bl)) \<inter> free_set (hpmm s') = {}"
      using H(4) I(4) fr by (auto simp: page_set_def)
    show "\<forall>x \<in> set bl. hdr (hmem s') (fst x) HEAP_MAGIC_ALLOC (snd x)"
      by (rule hdr_outside[OF H(7) ag bl])
  qed (use I s1 S(1) inv fr H tot in auto)
  moreover have "foreign s fl \<subseteq> - (cover fl \<union> region x)"
    using new(2) by (auto simp: foreign_def page_set_def)
  then have "agree (foreign s fl) (hmem s) (hmem s')" by (rule agree_subset[OF ag])
  moreover have "b div 4096 \<in> free_set (hpmm s)" if "b \<in> region x" for b
    using new(2) that by (auto simp: page_set_def)
  then have "foreign s' fl' = foreign s fl"
    using I(4) fr X(6) by (auto simp: foreign_def)
  ultimately show thesis using that I(1,6,8) s1 by (auto simp: x_def)
qed

lemma expand_heap_cases:
  assumes ok: "heap_ok s fl bl" and need: "unat need < 2 ^ 63"
  obtains (fail) "expand_heap need s = Some (-1, s)"
      "\<forall>t. \<not> {t..<t + unat (expand_pages need)} \<subseteq> free_set (hpmm s)"
  | (grown) s' fl' where "expand_heap need s = Some (0, s')" "heap_ok s' fl' bl"
      "\<exists>y \<in> set fl'. unat need \<le> snd y" "agree (foreign s fl) (hmem s) (hmem s')"
      "foreign s' fl' = foreign s fl" "heap_ready s' = heap_ready s"
proof -
  define n where "n = expand_pages need"
  note nb = expand_pages_bound[OF need, folded n_def]
  obtain p' a where al: "pmm_alloc_pages (hpmm s) n = (p', a)" by force
  have inv: "pmm_inv (hpmm s)" "\<forall>p \<in> free_set (hpmm s). 256 \<le> p" using ok by (auto simp: heap_ok_def)
  then have z: "0 \<notin> free_set (hpmm s)" by force
  define s1 where "s1 = s\<lparr>hpmm := p', hmem := set_size a (ucast (n * PAGE_SIZE - HDR)) (hmem s),
      heap_total := heap_total s + n * PAGE_SIZE\<rparr>"
  have ex: "expand_heap need s = (if a = 0 then Some (-1, s\<lparr>hpmm := p'\<rparr>)
      else insert_free a s1 \<bind> (\<lambda>s'. Some (0, s')))"
    using al by (simp only: expand_heap_def n_def expand_pages_def Let_def s1_def split)
  show thesis
  proof (cases "a = 0")
    case True
    note none = pmm.alloc_failure[OF inv(1) al[unfolded True] nb(1) z]
    then show thesis using fail ex True by (simp add: n_def)
  next
    case False
    obtain s' fl' where r: "insert_free a s1 = Some s'" "heap_ok s' fl' bl"
      "\<exists>y \<in> set fl'. unat n * 4096 - 24 \<le> snd y" "agree (foreign s fl) (hmem s) (hmem s')"
      "foreign s' fl' = foreign s fl" "heap_ready s' = heap_ready s"
      using new_arena[OF ok al False s1_def] .
    have "\<exists>y \<in> set fl'. unat need \<le> snd y" using r(3) nb(2) by (auto elim!: bexI[rotated])
    then show thesis using grown[of s' fl'] r ex False by simp
  qed
qed


section \<open>Taking a block\<close>

lemma first_fit_split:
  "(\<forall>x \<in> set fl. snd x < need) \<or>
   (\<exists>pre x post. fl = pre @ x # post \<and> (\<forall>y \<in> set pre. snd y < need) \<and> need \<le> snd (x :: block))"
  using split_list_first_prop[of fl "\<lambda>x. need \<le> snd x"] by (metis not_le)

lemma find_fit_list:
  assumes "seg (hmem s) (free_list s) fl 0" "wfl fl"
  shows "(\<forall>x \<in> set fl. snd x < unat need) \<and> find_fit s need Head = Some Exhausted \<or>
   (\<exists>pre x post. fl = pre @ x # post \<and> unat need \<le> snd x \<and>
      find_fit s need Head = Some (Fit (link_after Head pre)))"
  using first_fit_split[of fl "unat need"]
proof (elim disjE exE conjE)
  assume small: "\<forall>x \<in> set fl. snd x < unat need"
  have "read_link s (link_after Head fl) = 0"
    using read_link_after[of s Head fl 0] assms by (simp add: wfl_def)
  then have "find_fit s need (link_after Head fl) = Some Exhausted"
    by (subst find_fit.simps) simp
  then show ?thesis
    using find_fit_seg[of s Head fl 0 need] assms small by (simp add: wfl_def)
next
  fix pre x post assume fl: "fl = pre @ x # post" "\<forall>y \<in> set pre. snd y < unat need" "unat need \<le> snd x"
  have ok: "\<forall>y \<in> set pre. block_ok y" "block_ok x" using assms(2) fl(1) by (auto simp: wfl_def)
  have s: "seg (hmem s) (free_list s) pre (of_nat (fst x))" "hdr (hmem s) (fst x) HEAP_MAGIC_FREE (snd x)"
    using assms(1) fl(1) by (auto simp: seg_append)
  have rl: "read_link s (link_after Head pre) = of_nat (fst x)"
    using read_link_after[of s Head pre] s ok by simp
  note u = block_ok_word[OF ok(2)]
  have h: "blk_magic (hmem s) (of_nat (fst x)) = HEAP_MAGIC_FREE"
    "unat (blk_size (hmem s) (of_nat (fst x))) = snd x"
    "blk_canary (hmem s) (of_nat (fst x)) = NOT HEAP_MAGIC_FREE"
    using s(2) u hdr_blk[of "hmem s" "of_nat (fst x)"] by simp_all
  have "find_fit s need (link_after Head pre) = Some (Fit (link_after Head pre))"
    using h u fl(3) by (subst find_fit.simps) (simp add: rl Let_def word_le_nat_alt)
  then have "find_fit s need Head = Some (Fit (link_after Head pre))"
    using find_fit_seg[of s Head pre _ need] s ok fl by auto
  then show ?thesis using fl by blast
qed

text \<open>A block that is in no list: its size field is set and it touches no free block.\<close>

definition detached :: "heap \<Rightarrow> block list \<Rightarrow> block \<Rightarrow> bool" where
  "detached s fl x \<longleftrightarrow> seg (hmem s) (free_list s) fl 0 \<and> wfl fl \<and> block_ok x \<and>
     cover fl \<inter> region x = {} \<and> unat (blk_size (hmem s) (of_nat (fst x))) = snd x"

lemma unlink_ok:
  assumes seg: "seg (hmem s) (free_list s) (pre @ x # post) 0" and wf: "wfl (pre @ x # post)"
    and s1: "s1 = set_link (link_after Head pre) (blk_next (hmem s) (of_nat (fst x))) s"
  shows "detached s1 (pre @ post) x" "agree (- cover pre) (hmem s) (hmem s1)" "same_rest s s1"
proof -
  have ok: "block_ok x" "wfl pre" "wfl (pre @ post)" using wf by (auto simp: wfl_append)
  note u = block_ok_word[OF ok(1)]
  obtain q where q: "seg (hmem s) (free_list s) pre q" "hdr (hmem s) (fst x) HEAP_MAGIC_FREE (snd x)"
    "seg (hmem s) (rd64 (hmem s) (fst x + 8)) post 0" using seg by (auto simp: seg_append)
  have nx: "blk_next (hmem s) (of_nat (fst x)) = rd64 (hmem s) (fst x + 8)" by (simp add: blk_next_def u)
  note L = set_link_seg[OF q(1) ok(2) s1]
  show ag: "agree (- cover pre) (hmem s) (hmem s1)" using L(2) by (simp add: cover_def)
  show "same_rest s s1" by (rule L(3))
  have dis: "cover pre \<inter> (region x \<union> cover post) = {}" "region x \<inter> cover post = {}"
    using wfl_disj[OF wf] by (auto simp: disj_append)
  then have sub: "cover post \<subseteq> - cover pre" "region x \<subseteq> - cover pre" by auto
  have "seg (hmem s1) (rd64 (hmem s) (fst x + 8)) post 0"
    using q(3) seg_cong[of post "hmem s" "hmem s1"] agree_subset[OF ag sub(1)] by (simp add: cover_def)
  then have sg: "seg (hmem s1) (free_list s1) (pre @ post) 0" using L(1) nx by (auto simp: seg_append)
  have "agree {fst x..<fst x + 24} (hmem s) (hmem s1)"
    using agree_subset[OF ag sub(2)] header_in_region[of x] by (rule agree_subset)
  then have "unat (blk_size (hmem s1) (of_nat (fst x))) = snd x"
    using hdr_cong(1) q(2) hdr_blk[of "hmem s1" "of_nat (fst x)"] u by simp
  then show "detached s1 (pre @ post) x"
    using sg ok dis by (auto simp: detached_def)
qed


lemma split_block_ok:
  assumes det: "detached s fl x" and need: "unat need \<le> snd x" "unat need mod 8 = 0" and b: "b = of_nat (fst x)"
  obtains s' fl' x' where "split_block b need s = Some s'" "detached s' fl' x'" "fst x' = fst x"
    "unat need \<le> snd x'" "cover fl' \<union> region x' = cover fl \<union> region x"
    "bytes fl' + snd x' = bytes fl + snd x"
    "agree (- (cover fl \<union> region x)) (hmem s) (hmem s')" "same_rest s s'"
proof -
  have D: "seg (hmem s) (free_list s) fl 0" "wfl fl" "block_ok x" "cover fl \<inter> region x = {}"
    "unat (blk_size (hmem s) b) = snd x" using det by (auto simp: detached_def b)
  note u = block_ok_word[OF D(3), folded b]
  have lim: "fst x + 24 + snd x \<le> 2 ^ 32" "2 ^ 20 \<le> fst x" using D(3) by (auto simp: block_ok_def)
  define remain where "remain = (ucast (blk_size (hmem s) b) - need :: u64)"
  have rem: "unat remain = snd x - unat need"
    unfolding remain_def using need(1) D(5) by (subst unat_sub) (simp_all add: word_le_nat_alt)
  show thesis
  proof (cases "remain \<ge> HDR + HEAP_MIN_BLOCK")
    case False
    then have "split_block b need s = Some s" by (simp add: split_block_def remain_def Let_def)
    then show thesis using that[of s fl x] det need(1) by simp
  next
    case True
    then have big: "56 \<le> snd x - unat need" using rem by (simp add: word_le_nat_alt)
    define r where "r = (fst x + 24 + unat need, snd x - unat need - 24)"
    define x' where "x' = (fst x, unat need)"
    define rest where "rest = b + HDR + need"
    define s1 where "s1 = on_mem (set_size rest (ucast (remain - HDR))) s"
    have x: "x = (fst x, unat need + 24 + snd r)" "region x = region x' \<union> region r" "region x' \<inter> region r = {}"
      using big by (auto simp: r_def x'_def region_def prod_eq_iff)
    have okr: "block_ok r" using D(3) big need(2) by (auto simp: block_ok_def r_def)
    have ok': "block_ok x'" using D(3) big need(2) by (auto simp: block_ok_def x'_def)
    have ur: "rest = of_nat (fst r)" "unat rest = fst r"
      using u lim big by (auto simp: rest_def r_def b word_unat_eq_iff unat_word_ariths)
    have szr: "unat (ucast (remain - HDR) :: u32) = snd r"
    proof -
      have "unat (remain - HDR) = snd x - unat need - 24"
        using rem big by (subst unat_sub) (simp_all add: word_le_nat_alt)
      then show ?thesis using lim by (simp add: r_def unsigned_ucast_eq take_bit_nat_eq_self)
    qed
    have ag1: "agree (- region r) (hmem s) (hmem s1)"
      unfolding s1_def by (simp, rule set_agree) (auto simp: region_def ur(2))
    have dr: "cover fl \<inter> region r = {}" using D(4) x(2) by auto
    then have "agree (cover fl) (hmem s) (hmem s1)" by (intro agree_subset[OF ag1]) auto
    then have seg1: "seg (hmem s1) (free_list s1) fl 0"
      using D(1) seg_cong[of fl "hmem s" "hmem s1"] by (simp add: s1_def cover_def)
    have "unat (blk_size (hmem s1) rest) = snd r" using szr by (simp add: s1_def)
    from insert_free_ok[OF seg1 D(2) okr ur(1) this dr] obtain s2 fl' where
      I: "insert_free rest s1 = Some s2" "seg (hmem s2) (free_list s2) fl' 0" "wfl fl'"
      "cover fl' = cover fl \<union> region r" "bytes fl' = bytes fl + 24 + snd r"
      "\<exists>y \<in> set fl'. snd r \<le> snd y"
      "agree (- (cover fl \<union> region r)) (hmem s1) (hmem s2)" "same_rest s1 s2" .
    define s' where "s' = on_mem (set_size b (ucast need)) s2"
    have sp: "split_block b need s = Some s'"
      using True I(1) by (simp add: split_block_def remain_def[symmetric] rest_def[symmetric] s1_def s'_def Let_def)
    have ag': "agree (- region x') (hmem s2) (hmem s')"
      unfolding s'_def by (simp, rule set_agree) (auto simp: region_def x'_def u)
    have d': "cover fl' \<inter> region x' = {}" using I(4) D(4) x(2,3) by auto
    then have "agree (cover fl') (hmem s2) (hmem s')" by (intro agree_subset[OF ag']) auto
    then have "seg (hmem s') (free_list s') fl' 0"
      using I(2) seg_cong[of fl' "hmem s2" "hmem s'"] by (simp add: s'_def cover_def)
    moreover have "unat (blk_size (hmem s') (of_nat (fst x'))) = snd x'"
      using need(1) lim by (simp add: s'_def x'_def b unsigned_ucast_eq take_bit_nat_eq_self)
    ultimately have det': "detached s' fl' x'" using I(3) ok' d' by (simp add: detached_def)
    have "agree (- (cover fl \<union> region x)) (hmem s) (hmem s')"
      by (rule agree_trans[OF agree_subset[OF ag1] agree_trans[OF agree_subset[OF I(7)] agree_subset[OF ag']]])
        (use x(2) in auto)
    then show thesis
      using that[OF sp det'] I(4,5,8) x big by (auto simp: x'_def r_def s'_def s1_def)
  qed
qed


lemma and_pred_zero_nat: "0 < (n::nat) \<Longrightarrow> n AND (n - 1) = 0 \<Longrightarrow> \<exists>k. n = 2 ^ k"
proof (induction n rule: less_induct)
  case (less n)
  show ?case
  proof (cases "even n")
    case True
    then obtain m where m: "n = 2 * m" by (rule evenE)
    have "0 < m" using less.prems m by simp
    then have "n - 1 = Suc (2 * (m - 1))" using m by simp
    moreover have "2 * m AND Suc (2 * (m - 1)) = 2 * (m AND (m - 1))" by (subst and_rec) simp
    ultimately have "n AND (n - 1) = 2 * (m AND (m - 1))" using m by simp
    then have "m AND (m - 1) = 0" using less.prems by simp
    then obtain k where "m = 2 ^ k" using less.IH[of m] \<open>0 < m\<close> m by auto
    then have "n = 2 ^ Suc k" using m by simp
    then show ?thesis by blast
  next
    case False
    then obtain m where m: "n = 2 * m + 1" by (rule oddE)
    moreover have "Suc (2 * m) AND 2 * m = 2 * (m AND m)" by (subst and_rec) simp
    ultimately have "n AND (n - 1) = 2 * m" by simp
    then have "m = 0" using less.prems by simp
    then have "n = 2 ^ 0" using m by simp
    then show ?thesis by blast
  qed
qed

lemma is_power_of_two_exp:
  assumes "is_power_of_two a"
  obtains k where "k < 64" "unat a = 2 ^ k" "a = 2 ^ k"
proof -
  have nz: "0 < unat a" "1 \<le> a" using assms by (auto simp: is_power_of_two_def unat_gt_0 word_le_nat_alt Suc_le_eq)
  have "unat (a AND (a - 1)) = 0" using assms by (simp add: is_power_of_two_def)
  then have "unat a AND (unat a - 1) = 0"
    using nz(2) by (simp add: unsigned_and_eq unat_sub)
  then obtain k where k: "unat a = 2 ^ k" using and_pred_zero_nat nz(1) by blast
  have "unat a < 2 ^ LENGTH(64)" by (rule unsigned_less)
  then have "(2 :: nat) ^ k < 2 ^ 64" using k by simp
  then have "k < 64" by (rule power_less_imp_less_exp[rotated]) simp
  moreover have "a = 2 ^ k"
  proof -
    have "of_nat (unat a) = (2 ^ k :: u64)" unfolding k by simp
    then show ?thesis by simp
  qed
  ultimately show thesis using that k by blast
qed

lemma unat_clear_low:
  assumes "k < 64"
  shows "unat (x AND NOT (2 ^ k - 1) :: u64) = unat x div 2 ^ k * 2 ^ k"
proof -
  have "x AND NOT (2 ^ k - 1) = push_bit k (drop_bit k x)"
    by (rule bit_word_eqI) (auto simp: bit_simps mask_eq_exp_minus_1[symmetric])
  also have "unat \<dots> = unat x div 2 ^ k * 2 ^ k"
  proof -
    have "unat x < 2 ^ LENGTH(64)" by (rule unsigned_less)
    then have lt: "unat x < 2 ^ 64" by simp
    then have "unat (push_bit k (drop_bit k x)) = take_bit 64 (push_bit k (drop_bit k (unat x)))"
      by (simp add: unsigned_push_bit_eq unsigned_drop_bit_eq take_bit_nat_eq_self)
    also have "\<dots> = push_bit k (drop_bit k (unat x))"
    proof -
      have "unat x div 2 ^ k * 2 ^ k < 2 ^ 64" by (rule le_less_trans[OF div_times_less_eq_dividend lt])
      then show ?thesis by (intro take_bit_nat_eq_self) (simp add: push_bit_eq_mult drop_bit_eq_div)
    qed
    finally show ?thesis by (simp add: push_bit_eq_mult drop_bit_eq_div)
  qed
  finally show ?thesis .
qed


text \<open>
  \<open>owns m p n x\<close>: the \<open>n\<close> bytes at \<open>p\<close> are user memory of the allocated block \<open>x\<close>. An
  over-aligned pointer has the address of its block stored in the eight bytes before it.
\<close>

definition owns :: "mem \<Rightarrow> nat \<Rightarrow> nat \<Rightarrow> block \<Rightarrow> bool" where
  "owns m p n x \<longleftrightarrow> p + n \<le> fst x + 24 + snd x \<and>
     (p = fst x + 24 \<or> fst x + 32 \<le> p \<and> rd64 m (p - 8) = of_nat (fst x))"

lemma place_user_over:
  assumes ok: "block_ok x" and al: "is_power_of_two align" "unat align < 2 ^ 63" and b: "b = of_nat (fst x)"
  shows "fst x + 32 \<le> unat (place_user b align True)" "unat (place_user b align True) < fst x + 32 + unat align"
    "unat (place_user b align True) mod unat align = 0"
proof -
  note u = block_ok_word[OF ok, folded b]
  have lim: "fst x \<le> 2 ^ 32" using ok by (simp add: block_ok_def)
  obtain k where k: "k < 64" "unat align = 2 ^ k" "align = 2 ^ k" using is_power_of_two_exp[OF al(1)] .
  define raw where "raw = b + HDR + 8 + align - 1"
  have pos: "0 < unat align" using k by simp
  have raw: "unat raw = fst x + 31 + unat align"
  proof -
    have "raw = b + 31 + align" by (simp add: raw_def)
    then show ?thesis using u(1) lim al(2) by (simp add: unat_word_ariths)
  qed
  have p: "unat (place_user b align True) = unat raw div 2 ^ k * 2 ^ k"
    using unat_clear_low[OF k(1), of raw] k(3) by (simp add: place_user_def raw_def)
  have d: "unat raw div 2 ^ k * 2 ^ k + unat raw mod 2 ^ k = unat raw" by (rule div_mult_mod_eq)
  have m: "unat raw mod 2 ^ k < 2 ^ k" by simp
  show "fst x + 32 \<le> unat (place_user b align True)" using d m raw p k(2) by linarith
  show "unat (place_user b align True) < fst x + 32 + unat align" using d raw p pos by linarith
  show "unat (place_user b align True) mod unat align = 0" by (simp add: p k(2))
qed

lemma place_user_normal:
  "block_ok x \<Longrightarrow> unat (place_user (of_nat (fst x)) align False) = fst x + 24"
  using block_ok_word[of x] by (simp add: place_user_def block_ok_def unat_word_ariths)

lemma mem_load_set: "mem_load (mem_set m a c n) a n = replicate n c"
  by (rule nth_equalityI) (simp_all add: mem_set_def)

lemma wr64_agree: "A \<inter> {a..<a + 8} = {} \<Longrightarrow> agree A m (wr64 m a v)"
  unfolding agree_def
proof
  fix x assume "A \<inter> {a..<a + 8} = {}" "x \<in> A"
  then have "x < a \<or> a + 8 \<le> x" by fastforce
  then show "m x = wr64 m a v x" by (rule wr64_other[symmetric])
qed

lemma mark_alloc_ok:
  assumes ok: "block_ok x" and b: "b = of_nat (fst x)" and sz: "unat (blk_size m b) = snd x"
    and p: "p = unat (place_user b align over)" "p + unat n \<le> fst x + 24 + snd x"
      "if over then fst x + 32 \<le> p else p = fst x + 24"
    and m': "m' = mark_alloc b n align over m"
  shows "hdr m' (fst x) HEAP_MAGIC_ALLOC (snd x)" "agree (- region x) m m'"
    "mem_load m' p (unat n) = replicate (unat n) HEAP_POISON_ALLOC" "owns m' p (unat n) x"
proof -
  note u = block_ok_word[OF ok, folded b]
  define m1 where "m1 = set_next b 0 (set_canary b (NOT HEAP_MAGIC_ALLOC) (set_magic b HEAP_MAGIC_ALLOC m))"
  define m2 where "m2 = (if over then wr64 m1 (p - 8) b else m1)"
  have m'2: "m' = mem_set m2 p HEAP_POISON_ALLOC (unat n)"
    unfolding m' mark_alloc_def Let_def m2_def m1_def p(1) by simp
  have h1: "hdr m1 (fst x) HEAP_MAGIC_ALLOC (snd x)"
    using sz hdr_blk[of m1 b] by (simp add: m1_def u)
  have p24: "fst x + 24 \<le> p" using p(3) by (auto split: if_splits)
  have a1: "agree (- region x) m m1" unfolding m1_def
    by (rule agree_trans[OF set_agree(1) agree_trans[OF set_agree(4) set_agree(3)]]) (auto simp: region_def u)
  have w: "agree A m1 m2" if "A \<inter> {fst x + 24..<p} = {}" for A
  proof (cases over)
    case True
    then have "{p - 8..<p - 8 + 8} \<subseteq> {fst x + 24..<p}" using p(3) by auto
    then have "A \<inter> {p - 8..<p - 8 + 8} = {}" using that by blast
    then show ?thesis using True wr64_agree by (simp add: m2_def)
  qed (simp add: m2_def)
  have a3: "agree A m2 m'" if "A \<inter> {p..<p + unat n} = {}" for A
    unfolding m'2 using that by (rule mem_set_agree)
  have "agree {fst x..<fst x + 24} m1 m'"
    by (rule agree_trans[OF w a3]) (use p24 in auto)
  then show "hdr m' (fst x) HEAP_MAGIC_ALLOC (snd x)" using h1 hdr_cong(1) by blast
  show "agree (- region x) m m'"
    by (rule agree_trans[OF a1 agree_trans[OF w a3]]) (use p24 p(2) in \<open>auto simp: region_def\<close>)
  show "mem_load m' p (unat n) = replicate (unat n) HEAP_POISON_ALLOC"
    unfolding m'2 by (rule mem_load_set)
  have "rd64 m' (p - 8) = b" if over
  proof -
    have "rd64 m' (p - 8) = rd64 m2 (p - 8)"
      unfolding m'2 by (rule rd64_mem_set_other) (use that p(3) in auto)
    then show ?thesis using that by (simp add: m2_def)
  qed
  then show "owns m' p (unat n) x" using p(2,3) b by (auto simp: owns_def split: if_splits)
qed


text \<open>What an allocation gives: a new allocated block with its poisoned user memory.\<close>

definition allocated :: "heap \<Rightarrow> block list \<Rightarrow> block list \<Rightarrow> u64 \<Rightarrow> nat \<Rightarrow> heap \<Rightarrow> bool" where
  "allocated s fl bl ptr n s' \<longleftrightarrow> (\<exists>fl' x. heap_ok s' fl' (x # bl) \<and> ptr \<noteq> 0 \<and> owns (hmem s') (unat ptr) n x \<and>
     mem_load (hmem s') (unat ptr) n = replicate n HEAP_POISON_ALLOC \<and>
     agree (foreign s fl) (hmem s) (hmem s') \<and> heap_ready s' = heap_ready s \<and>
     foreign s' fl' = foreign s fl \<union> region x \<and> foreign s fl \<inter> region x = {})"

lemma cover_bl_foreign: "heap_ok s fl bl \<Longrightarrow> cover bl \<subseteq> foreign s fl"
  by (auto simp: heap_ok_def foreign_def disj_append page_set_def)

definition user_fits :: "u64 \<Rightarrow> u64 \<Rightarrow> u64 \<Rightarrow> bool \<Rightarrow> bool" where
  "user_fits n need align over \<longleftrightarrow>
     (if over then is_power_of_two align \<and> unat align < 2 ^ 63 \<and> unat n + unat align + 8 \<le> unat need
      else unat n \<le> unat need)"

lemma user_fits_place:
  assumes "user_fits n need align over" "block_ok x" "unat need \<le> snd x" "b = of_nat (fst x)"
  defines "p \<equiv> unat (place_user b align over)"
  shows "p + unat n \<le> fst x + 24 + snd x" "if over then fst x + 32 \<le> p else p = fst x + 24"
    "place_user b align over \<noteq> 0" "over \<longrightarrow> p mod unat align = 0"
proof -
  have c: "p + unat n \<le> fst x + 24 + snd x \<and> (if over then fst x + 32 \<le> p else p = fst x + 24) \<and>
      (over \<longrightarrow> p mod unat align = 0)"
  proof (cases over)
    case True
    then show ?thesis
      using assms(1,3) place_user_over[OF assms(2) _ _ assms(4), of align]
      by (auto simp: user_fits_def p_def)
  next
    case False
    then show ?thesis
      using assms(1,3) place_user_normal[OF assms(2), of align] by (auto simp: user_fits_def p_def assms(4))
  qed
  then show "p + unat n \<le> fst x + 24 + snd x" "if over then fst x + 32 \<le> p else p = fst x + 24"
    "over \<longrightarrow> p mod unat align = 0" by auto
  have "p \<noteq> 0" using c by (auto split: if_splits)
  then show "place_user b align over \<noteq> 0" by (auto simp: p_def)
qed

lemma take_block_ok:
  assumes ok: "heap_ok s (pre @ x # post) bl" and need: "unat need \<le> snd x" "unat need mod 8 = 0"
    and fit: "user_fits n need align over"
  obtains s' ptr where "take_block (link_after Head pre) need n align over s = Some (ptr, s')"
    "allocated s (pre @ x # post) bl ptr (unat n) s'" "over \<longrightarrow> unat ptr mod unat align = 0"
proof -
  let ?fl = "pre @ x # post"
  have H: "seg (hmem s) (free_list s) ?fl 0" "wfl ?fl" "disj (?fl @ bl)" "\<forall>x \<in> set bl. block_ok x"
      "page_set (cover (?fl @ bl)) \<inter> free_set (hpmm s) = {}" "unat (heap_used s) = bytes bl"
      "unat (heap_total s) = bytes ?fl + bytes bl"
      "\<forall>x \<in> set bl. hdr (hmem s) (fst x) HEAP_MAGIC_ALLOC (snd x)"
    using ok by (simp_all add: heap_ok_def)
  define b where "b = (of_nat (fst x) :: u64)"
  have rl: "read_link s (link_after Head pre) = b"
    using read_link_after[of s Head pre b] H(1,2) by (auto simp: seg_append b_def wfl_def)
  define s1 where "s1 = set_link (link_after Head pre) (blk_next (hmem s) b) s"
  note U = unlink_ok[OF H(1,2) s1_def[unfolded b_def]]
  obtain s2 fl' x' where P: "split_block b need s1 = Some s2" "detached s2 fl' x'" "fst x' = fst x"
    "unat need \<le> snd x'" "cover fl' \<union> region x' = cover (pre @ post) \<union> region x"
    "bytes fl' + snd x' = bytes (pre @ post) + snd x"
    "agree (- (cover (pre @ post) \<union> region x)) (hmem s1) (hmem s2)" "same_rest s1 s2"
    using split_block_ok[OF U(1) need b_def] .
  have D: "seg (hmem s2) (free_list s2) fl' 0" "wfl fl'" "block_ok x'" "cover fl' \<inter> region x' = {}"
    "unat (blk_size (hmem s2) b) = snd x'" using P(2,3) by (simp_all add: detached_def b_def)
  define ptr where "ptr = place_user b align over"
  define m' where "m' = mark_alloc b n align over (hmem s2)"
  have bx: "b = of_nat (fst x')" using P(3) by (simp add: b_def)
  note F = user_fits_place[OF fit D(3) P(4) bx, folded ptr_def]
  note M = mark_alloc_ok[OF D(3) bx D(5) refl F(1,2)[unfolded ptr_def] m'_def, folded ptr_def]
  define s' where "s' = s2\<lparr>hmem := m', heap_used := heap_used s2 + (ucast (blk_size m' b) + HDR)\<rparr>"
  have tk: "take_block (link_after Head pre) need n align over s = Some (ptr, s')"
    using P(1) by (simp add: take_block_def rl s1_def s'_def m'_def ptr_def)
  have cov: "cover fl' \<union> region x' = cover ?fl" using P(5) by auto
  have "agree (- cover ?fl) (hmem s) m'"
    by (rule agree_trans[OF agree_subset[OF U(2)] agree_trans[OF agree_subset[OF P(7)] agree_subset[OF M(2)]]])
      (use cov in auto)
  then have ag: "agree (- cover ?fl) (hmem s) (hmem s')" by (simp add: s'_def)
  have "agree (cover fl') (hmem s2) m'" using M(2) by (rule agree_subset) (use D(4) in auto)
  then have seg': "seg (hmem s') (free_list s') fl' 0"
    using D(1) seg_cong[of fl' "hmem s2" m'] by (simp add: s'_def cover_def)
  have "unat (blk_size m' b) = snd x'" using M(1) hdr_blk[of m' b] block_ok_word[OF D(3)] bx by simp
  then have used: "unat (heap_used s') = 24 + snd x' + bytes bl"
    using P(8) U(3) H(6) D(3) heap_ok_bound[OF ok] by (simp add: s'_def unat_word_ariths block_ok_def)
  have "heap_ok s' fl' (x' # bl)"
    unfolding heap_ok_def
  proof (intro conjI)
    show "disj (fl' @ x' # bl)"
      using wfl_disj[OF D(2)] D(4) H(3) cov by (auto simp: disj_append)
    show "page_set (cover (fl' @ x' # bl)) \<inter> free_set (hpmm s') = {}"
      using H(5) cov P(8) U(3) by (auto simp: s'_def page_set_def)
    show "\<forall>y \<in> set (x' # bl). hdr (hmem s') (fst y) HEAP_MAGIC_ALLOC (snd y)"
      using hdr_outside[OF H(8) ag] H(3) M(1) by (auto simp: s'_def disj_append)
    show "unat (heap_total s') = bytes fl' + bytes (x' # bl)"
      using H(7) P(6,8) U(3) by (simp add: s'_def)
  qed (use seg' D H ok used P(8) U(3) in \<open>simp_all add: heap_ok_def s'_def\<close>)
  moreover have "foreign s' fl' = foreign s ?fl \<union> region x'" "foreign s ?fl \<inter> region x' = {}"
    using cov D(4) H(5) P(8) U(3) by (auto simp: foreign_def s'_def page_set_def)
  moreover have "agree (foreign s ?fl) (hmem s) (hmem s')"
    using ag by (rule agree_subset) (auto simp: foreign_def)
  ultimately have "allocated s ?fl bl ptr (unat n) s'"
    unfolding allocated_def using M(3,4) F(3) P(8) U(3)
    by (intro exI[of _ fl'] exI[of _ x']) (simp add: s'_def)
  from that[OF tk this F(4)] show thesis .
qed


section \<open>Allocation\<close>

lemma kmalloc_loop_fit:
  assumes ok: "heap_ok s fl bl" and big: "\<exists>x \<in> set fl. unat need \<le> snd x"
    and need: "unat need mod 8 = 0" and fit: "user_fits n need align over"
  obtains s' ptr where "kmalloc_loop need n align over s = Some (ptr, s')"
    "allocated s fl bl ptr (unat n) s'" "over \<longrightarrow> unat ptr mod unat align = 0"
proof -
  have "seg (hmem s) (free_list s) fl 0" "wfl fl" using ok by (simp_all add: heap_ok_def)
  from find_fit_list[OF this, of need] big obtain pre x post where
    f: "fl = pre @ x # post" "unat need \<le> snd x" "find_fit s need Head = Some (Fit (link_after Head pre))"
    by fastforce
  obtain s' ptr where t: "take_block (link_after Head pre) need n align over s = Some (ptr, s')"
    "allocated s fl bl ptr (unat n) s'" "over \<longrightarrow> unat ptr mod unat align = 0"
    by (rule take_block_ok[OF ok[unfolded f(1)] f(2) need fit, folded f(1)])
  have "kmalloc_loop need n align over s = Some (ptr, s')"
    using f(3) t(1) by (subst kmalloc_loop.simps) simp
  from that[OF this t(2,3)] show thesis .
qed

text \<open>
  The retry loop ends after at most one expansion: the new block is large enough for
  the request.
\<close>

lemma kmalloc_loop_cases:
  assumes ok: "heap_ok s fl bl" and need: "unat need < 2 ^ 63" "unat need mod 8 = 0"
    and fit: "user_fits n need align over"
  obtains (fail) "kmalloc_loop need n align over s = Some (0, s)"
      "\<forall>t. \<not> {t..<t + unat (expand_pages need)} \<subseteq> free_set (hpmm s)"
  | (success) s' ptr where "kmalloc_loop need n align over s = Some (ptr, s')"
      "allocated s fl bl ptr (unat n) s'" "over \<longrightarrow> unat ptr mod unat align = 0"
proof (cases "\<exists>x \<in> set fl. unat need \<le> snd x")
  case True
  show thesis by (rule kmalloc_loop_fit[OF ok True need(2) fit]) (rule success)
next
  case False
  have "seg (hmem s) (free_list s) fl 0" "wfl fl" using ok by (simp_all add: heap_ok_def)
  from find_fit_list[OF this, of need] False have ex: "find_fit s need Head = Some Exhausted"
    by fastforce
  from ok need(1) show thesis
  proof (cases rule: expand_heap_cases)
    case fail
    then have "kmalloc_loop need n align over s = Some (0, s)"
      using ex by (subst kmalloc_loop.simps) simp
    then show thesis using fail(2) by (rule that(1))
  next
    case (grown s1 fl1)
    have step: "kmalloc_loop need n align over s = kmalloc_loop need n align over s1"
      using ex grown(1) by (subst kmalloc_loop.simps) simp
    obtain s' ptr where k: "kmalloc_loop need n align over s1 = Some (ptr, s')"
      "allocated s1 fl1 bl ptr (unat n) s'" "over \<longrightarrow> unat ptr mod unat align = 0"
      using kmalloc_loop_fit[OF grown(2,3) need(2) fit] .
    have "allocated s fl bl ptr (unat n) s'"
      using k(2) agree_trans[OF grown(4)] unfolding allocated_def grown(5,6) by blast
    from success[OF _ this k(3)] step k(1) show thesis by simp
  qed
qed


text \<open>
  Requests the heap serves correctly: no wrap-around in the size computation, and for
  over-aligned memory a size that is a multiple of 8. (Other sizes leave later blocks at odd addresses.)
\<close>

definition over_aligned :: "u64 \<Rightarrow> bool" where
  "over_aligned align \<longleftrightarrow> is_power_of_two align \<and> align > HEAP_ALIGN"

definition request_ok :: "u64 \<Rightarrow> u64 \<Rightarrow> bool" where
  "request_ok n align \<longleftrightarrow> unat n + unat align < 2 ^ 62 \<and> (over_aligned align \<longrightarrow> unat n mod 8 = 0)"

lemma power_of_two_mod_8:
  assumes "is_power_of_two a" "a > HEAP_ALIGN"
  shows "unat a mod 8 = 0"
proof -
  obtain k where k: "unat a = 2 ^ k" using is_power_of_two_exp[OF assms(1)] .
  have "(2::nat) ^ 4 < 2 ^ k" using assms(2) k by (simp add: word_less_nat_alt)
  then have "4 < k" by (rule power_less_imp_less_exp[rotated]) simp
  then have "(2::nat) ^ k = 2 ^ (3 + (k - 3))" by simp
  also have "\<dots> = 8 * 2 ^ (k - 3)" by (simp only: power_add) simp
  finally show ?thesis using k by simp
qed

lemma align_up_16:
  assumes "unat v < 2 ^ 63"
  shows "unat (align_up v HEAP_ALIGN) = (unat v + 15) div 16 * 16"
proof -
  have "align_up v HEAP_ALIGN = (v + 15) AND NOT (2 ^ 4 - 1)" by (simp add: align_up_def add.commute)
  then have "unat (align_up v HEAP_ALIGN) = unat (v + 15) div 2 ^ 4 * 2 ^ 4"
    using unat_clear_low[of 4 "v + 15"] by simp
  moreover have "unat (v + 15) = unat v + 15" using assms by (simp add: unat_word_ariths)
  ultimately show ?thesis by simp
qed

lemma kmalloc_aligned_cases:
  assumes ok: "heap_ok s fl bl" and ready: "heap_ready s" and req: "request_ok n align" "n \<noteq> 0"
  obtains (fail) need where "kmalloc_aligned n align s = Some (0, s)"
      "\<not> over_aligned align \<longrightarrow> unat need = max 16 ((unat n + 15) div 16 * 16)"
      "\<forall>t. \<not> {t..<t + unat (expand_pages need)} \<subseteq> free_set (hpmm s)"
  | (success) s' ptr where "kmalloc_aligned n align s = Some (ptr, s')"
      "allocated s fl bl ptr (unat n) s'" "over_aligned align \<longrightarrow> unat ptr mod unat align = 0"
proof -
  define align' where "align' = (if \<not> is_power_of_two align \<or> align < HEAP_ALIGN then HEAP_ALIGN else align)"
  define over where "over \<longleftrightarrow> align' > HEAP_ALIGN"
  define need0 where "need0 = (if over then n + align' + 8 else align_up n HEAP_ALIGN)"
  define need where "need = (if need0 < 16 then 16 else need0)"
  have K: "kmalloc_aligned n align s = kmalloc_loop need n align' over s"
    unfolding kmalloc_aligned_def Let_def align'_def[symmetric] over_def[symmetric]
      need0_def[symmetric] need_def[symmetric]
    using ready req(2) by simp
  have ov: "over \<longleftrightarrow> over_aligned align" "over \<Longrightarrow> align' = align"
    by (auto simp: over_def align'_def over_aligned_def)
  have r: "unat n + unat align < 2 ^ 62" "over \<Longrightarrow> unat n mod 8 = 0" using req(1) ov by (auto simp: request_ok_def)
  have n0: "unat need0 < 2 ^ 63 \<and> unat need0 mod 8 = 0 \<and> user_fits n need0 align' over"
  proof (cases over)
    case True
    then have a: "is_power_of_two align" "align > HEAP_ALIGN" "align' = align"
      using ov by (auto simp: over_aligned_def)
    have "unat need0 = unat n + unat align + 8"
      using r(1) a(3) True by (simp add: need0_def unat_word_ariths)
    then show ?thesis
      using r True a power_of_two_mod_8[OF a(1,2)] by (auto simp: user_fits_def)
  next
    case False
    then have "unat need0 = (unat n + 15) div 16 * 16" using r(1) align_up_16[of n] by (simp add: need0_def)
    then show ?thesis using r(1) False by (auto simp: user_fits_def)
  qed
  have nd: "unat need < 2 ^ 63" "unat need mod 8 = 0" "user_fits n need align' over"
    using n0 by (auto simp: need_def word_less_nat_alt user_fits_def split: if_splits)
  have "unat need = max 16 ((unat n + 15) div 16 * 16)" if "\<not> over"
    using that r(1) align_up_16[of n] by (auto simp: need_def need0_def word_less_nat_alt)
  then have size: "\<not> over_aligned align \<longrightarrow> unat need = max 16 ((unat n + 15) div 16 * 16)" using ov by simp
  from ok nd show thesis
  proof (cases rule: kmalloc_loop_cases)
    case fail
    then show thesis using that(1)[OF _ size] K by simp
  next
    case (success s' ptr)
    show thesis by (rule that(2)) (use success K ov in auto)
  qed
qed

section \<open>Release\<close>

lemma ucast_rd64: "(ucast (rd64 m a) :: u32) = rd32 m a"
  unfolding rd64_def by (rule bit_word_eqI) (auto simp: bit_simps)

lemma owns_target:
  assumes "block_ok x" "hdr m (fst x) HEAP_MAGIC_ALLOC (snd x)" "owns m (unat ptr) n x"
  shows "kfree_target m ptr = Some (of_nat (fst x))" "ptr \<noteq> 0"
proof -
  note u = block_ok_word[OF assms(1)]
  define b where "b = (of_nat (fst x) :: u64)"
  have al: "is_alloc m b"
    using assms(2) hdr_blk[of m b] u by (simp add: b_def is_alloc_def)
  have p: "fst x + 24 \<le> unat ptr" using assms(3) by (auto simp: owns_def)
  then show "ptr \<noteq> 0" by auto
  have up: "unat (ptr - HDR) = unat ptr - 24" using p by (subst unat_sub) (auto simp: word_le_nat_alt)
  show "kfree_target m ptr = Some (of_nat (fst x))"
  proof (cases "unat ptr = fst x + 24")
    case True
    then have "ptr - HDR = b" using up u by (simp add: b_def word_unat_eq_iff)
    then show ?thesis using al by (simp add: kfree_target_def b_def)
  next
    case False
    then have o: "fst x + 32 \<le> unat ptr" "rd64 m (unat ptr - 8) = b"
      using assms(3) by (auto simp: owns_def b_def)
    have "blk_canary m (ptr - HDR) = rd32 m (unat ptr - 8)"
      using o(1) by (simp add: blk_canary_def up)
    also have "\<dots> = ucast b" using o(2) ucast_rd64[of m "unat ptr - 8"] by simp
    finally have c: "blk_canary m (ptr - HDR) = ucast b" .
    have "even (unat b)" using u assms(1) by (simp add: b_def block_ok_def) presburger
    then have "\<not> bit (unat b) 0" by (simp add: bit_0)
    then have "\<not> bit (ucast b :: u32) 0" by (auto simp: bit_unsigned_iff)
    moreover have "bit (NOT HEAP_MAGIC_ALLOC) 0" by simp
    ultimately have "blk_canary m (ptr - HDR) \<noteq> NOT HEAP_MAGIC_ALLOC" using c by metis
    then have "\<not> is_alloc m (ptr - HDR)" by (simp add: is_alloc_def)
    then show ?thesis using o(2) al u by (simp add: kfree_target_def b_def)
  qed
qed


lemma kfree_ok:
  assumes ok: "heap_ok s fl (xs @ x # ys)" and ready: "heap_ready s" and own: "owns (hmem s) (unat ptr) n x"
  obtains s' fl' where "kfree ptr s = Some s'" "heap_ok s' fl' (xs @ ys)"
    "agree (foreign s fl - region x) (hmem s) (hmem s')" "heap_ready s'"
    "foreign s' fl' = foreign s fl - region x"
proof -
  have H: "seg (hmem s) (free_list s) fl 0" "wfl fl" "disj (fl @ xs @ x # ys)" "\<forall>y \<in> set (xs @ x # ys). block_ok y"
      "page_set (cover (fl @ xs @ x # ys)) \<inter> free_set (hpmm s) = {}" "unat (heap_used s) = bytes (xs @ x # ys)"
      "unat (heap_total s) = bytes fl + bytes (xs @ x # ys)"
      "\<forall>y \<in> set (xs @ x # ys). hdr (hmem s) (fst y) HEAP_MAGIC_ALLOC (snd y)"
    using ok by (simp_all add: heap_ok_def)
  have x: "block_ok x" "hdr (hmem s) (fst x) HEAP_MAGIC_ALLOC (snd x)" using H(4,8) by auto
  define b where "b = (of_nat (fst x) :: u64)"
  note u = block_ok_word[OF x(1), folded b_def] and T = owns_target[OF x own, folded b_def]
  have hb: "blk_magic (hmem s) b = HEAP_MAGIC_ALLOC" "unat (blk_size (hmem s) b) = snd x"
    using x(2) hdr_blk[of "hmem s" b] u by auto
  define total where "total = (ucast (blk_size (hmem s) b) + HDR :: u64)"
  have tot: "unat total = 24 + snd x" using hb x(1) by (simp add: total_def unat_word_ariths block_ok_def)
  then have ge: "heap_used s \<ge> total" using H(6) by (simp add: word_le_nat_alt)
  define s1 where "s1 = s\<lparr>heap_used := heap_used s - total\<rparr>"
  have K: "kfree ptr s = insert_free b s1"
    using T ready hb(1) ge by (simp add: kfree_def Let_def total_def[symmetric] s1_def)
  have d: "cover fl \<inter> region x = {}" using H(3) by (auto simp: disj_append)
  have "seg (hmem s1) (free_list s1) fl 0" "unat (blk_size (hmem s1) b) = snd x" using H(1) hb by (simp_all add: s1_def)
  from insert_free_ok[OF this(1) H(2) x(1) b_def this(2) d] obtain s' fl' where
    I: "insert_free b s1 = Some s'" "seg (hmem s') (free_list s') fl' 0" "wfl fl'"
    "cover fl' = cover fl \<union> region x" "bytes fl' = bytes fl + 24 + snd x"
    "\<exists>y \<in> set fl'. snd x \<le> snd y"
    "agree (- (cover fl \<union> region x)) (hmem s1) (hmem s')" "same_rest s1 s'" .
  have ag: "agree (- (cover fl \<union> region x)) (hmem s) (hmem s')" using I(7) by (simp add: s1_def)
  have bl: "cover (xs @ ys) \<subseteq> - (cover fl \<union> region x)" using H(3) by (auto simp: disj_append)
  have used: "unat (heap_used s') = bytes (xs @ ys)"
    using I(8) H(6) tot ge by (simp add: s1_def unat_sub)
  have "heap_ok s' fl' (xs @ ys)"
    unfolding heap_ok_def
  proof (intro conjI)
    show "disj (fl' @ xs @ ys)" using I(3,4) wfl_disj H(3) bl by (auto simp: disj_append)
    show "page_set (cover (fl' @ xs @ ys)) \<inter> free_set (hpmm s') = {}"
      using H(5) I(4,8) by (auto simp: page_set_def s1_def)
    have "\<forall>y \<in> set (xs @ ys). hdr (hmem s) (fst y) HEAP_MAGIC_ALLOC (snd y)" using H(8) by auto
    then show "\<forall>y \<in> set (xs @ ys). hdr (hmem s') (fst y) HEAP_MAGIC_ALLOC (snd y)"
      by (rule hdr_outside[OF _ ag bl])
  qed (use I H ok used in \<open>simp_all add: heap_ok_def s1_def\<close>)
  moreover have "agree (foreign s fl - region x) (hmem s) (hmem s')"
    using ag by (rule agree_subset) (auto simp: foreign_def)
  moreover have "foreign s' fl' = foreign s fl - region x"
    using I(4,8) by (auto simp: foreign_def s1_def)
  ultimately show thesis using that K I(1,8) ready by (auto simp: s1_def)
qed

section \<open>Initialisation and statistics\<close>

lemma heap_init_cases:
  assumes "pmm_inv (hpmm s)" "\<forall>p \<in> free_set (hpmm s). 256 \<le> p"
  obtains (fail) s' where "heap_init s = Some (-1, s')"
      "\<forall>t. \<not> {t..<t + 16} \<subseteq> free_set (hpmm s)"
  | (success) s' fl where "heap_init s = Some (0, s')" "heap_ok s' fl []" "heap_ready s'"
      "agree {a. a div 4096 \<notin> free_set (hpmm s)} (hmem s) (hmem s')"
      "foreign s' fl = {a. a div 4096 \<notin> free_set (hpmm s)}"
proof -
  define s0 where "s0 = s\<lparr>free_list := 0, heap_total := 0, heap_used := 0\<rparr>"
  have ok: "heap_ok s0 [] []" using assms by (simp add: heap_ok_def s0_def page_set_def)
  have init: "heap_init s = expand_heap PAGE_SIZE s0 \<bind>
      (\<lambda>(r, s'). Some (if r \<noteq> 0 then (-1, s') else (0, s'\<lparr>heap_ready := True\<rparr>)))"
    by (simp add: heap_init_def s0_def)
  have "unat (PAGE_SIZE :: u64) < 2 ^ 63" by simp
  with ok show thesis
  proof (cases rule: expand_heap_cases)
    case fail
    have "unat (expand_pages PAGE_SIZE) = 16" by (simp add: expand_pages_def)
    then show thesis using that(1) init fail by (simp add: s0_def)
  next
    case (grown s1 fl)
    have "heap_ok (s1\<lparr>heap_ready := True\<rparr>) fl []" using grown(2) by (simp add: heap_ok_def)
    moreover have f0: "foreign s0 [] = {a. a div 4096 \<notin> free_set (hpmm s)}" by (simp add: foreign_def s0_def)
    moreover have "foreign (s1\<lparr>heap_ready := True\<rparr>) fl = foreign s1 fl" by (simp add: foreign_def)
    ultimately show thesis
      using that(2)[of "s1\<lparr>heap_ready := True\<rparr>" fl] grown(1,4,5) init by (simp add: s0_def)
  qed
qed

lemma sum_free_seg:
  "seg (hmem s) p fl 0 \<Longrightarrow> \<forall>x \<in> set fl. block_ok x \<Longrightarrow> sum_free s p acc = Some (acc + of_nat (bytes fl))"
proof (induction fl arbitrary: p acc)
  case Nil
  then show ?case by (subst sum_free.simps) simp
next
  case (Cons x fl)
  have p: "p = of_nat (fst x)" "p \<noteq> 0" "blk_next (hmem s) p = rd64 (hmem s) (fst x + 8)"
    "unat (blk_size (hmem s) p) = snd x"
    using Cons.prems block_ok_word[of x] by (auto simp: blk_next_def hdr_def blk_size_def)
  then have "(ucast (blk_size (hmem s) p) :: u64) = of_nat (snd x)"
    using Cons.prems by (simp add: word_unat_eq_iff unat_of_nat_u64 block_ok_def)
  then show ?case
    using Cons.IH[of "rd64 (hmem s) (fst x + 8)"] Cons.prems p
    by (subst sum_free.simps) (simp add: ac_simps)
qed

lemma heap_statistics:
  assumes "heap_ok s fl bl"
  shows "heap_free_bytes s = Some (heap_total_bytes s - heap_used_bytes s)"
proof -
  have e: "unat (heap_used s) = bytes bl" "unat (heap_total s) = bytes fl + bytes bl"
    and f: "heap_free_bytes s = Some (of_nat (bytes fl))"
    using assms sum_free_seg[of s "free_list s" fl 0] by (auto simp: heap_ok_def heap_free_bytes_def wfl_def)
  have "of_nat (unat (heap_total s)) = of_nat (bytes fl) + (of_nat (unat (heap_used s)) :: u64)"
    using e by simp
  then show ?thesis using f by (simp add: heap_total_bytes_def heap_used_bytes_def)
qed

section \<open>A sample allocator state\<close>

text \<open>Sixteen free pages from 1 MiB on, for the witnesses.\<close>

definition demo_pmm :: pmm where
  "demo_pmm = \<lparr>pmm_bitmap = (\<lambda>i. if i = 32 \<or> i = 33 then 0 else 0xFF), pmm_total = 16, pmm_used = 256,
     pmm_highest_page = 272, pmm_ready = True\<rparr>"

lemma demo_pmm_free: "free_set demo_pmm = {256..<272}"
proof -
  have "\<not> bitmap_test demo_pmm p \<longleftrightarrow> 256 \<le> p \<and> p < 272" for p
  proof -
    have "p div 8 = 32 \<or> p div 8 = 33 \<longleftrightarrow> 256 \<le> p \<and> p < 272" by presburger
    then show ?thesis using bit_FF[of "p mod 8"] by (auto simp: bitmap_test_bit demo_pmm_def)
  qed
  then show ?thesis by (intro set_eqI) (simp add: free_set_def)
qed

lemma demo_pmm_inv: "pmm_inv demo_pmm"
  by (simp add: pmm_inv_def demo_pmm_free) (auto simp: demo_pmm_def)

end
