(* ===== verification/Vmm.thy ===== *)
theory Vmm
  imports Heap_Inv
begin

text \<open>
  The page tables of \<open>kernel/mm/vmm.c\<close>: four-level x86-64 tables with 2 MiB leaf pages, built in
  pages from the physical memory manager. A table is 512 little-endian 64-bit entries in the byte
  memory. \<open>walk\<close> is the processor's translation through these tables; the lemmas show what the code's
  writes make it compute. Loading CR3 is not part of the model.
\<close>

section \<open>State and operations\<close>

abbreviation PTE_P :: u64 where "PTE_P \<equiv> 1"
abbreviation PTE_W :: u64 where "PTE_W \<equiv> 2"
abbreviation PTE_U :: u64 where "PTE_U \<equiv> 4"
abbreviation PTE_PS :: u64 where "PTE_PS \<equiv> 0x80"
abbreviation PTE_FLAGS :: u64 where "PTE_FLAGS \<equiv> 7"

record vmm =
  vmem :: mem
  vpmm :: pmm
  pml4 :: u64

definition tab_get :: "mem \<Rightarrow> u64 \<Rightarrow> nat \<Rightarrow> u64" where
  "tab_get m t i = rd64 m (unat t + 8 * i)"

definition tab_set :: "u64 \<Rightarrow> nat \<Rightarrow> u64 \<Rightarrow> mem \<Rightarrow> mem" where
  "tab_set t i v m = wr64 m (unat t + 8 * i) v"

definition alloc_table :: "vmm \<Rightarrow> vmm \<times> u64" where
  "alloc_table s =
     (let (p', t) = pmm_alloc_page (vpmm s)
      in if t = 0 then (s\<lparr>vpmm := p'\<rparr>, 0)
         else (s\<lparr>vpmm := p', vmem := fold (\<lambda>i. tab_set t i 0) [0..<512] (vmem s)\<rparr>, t))"

text \<open>The loop over the four GiB regions, with its early return.\<close>

fun init_regions :: "u64 \<Rightarrow> nat list \<Rightarrow> vmm \<Rightarrow> int \<times> vmm" where
  "init_regions pdpt [] s = (0, s)"
| "init_regions pdpt (g # gs) s =
     (let (s1, pd) = alloc_table s
      in if pd = 0 then (-1, s1)
         else init_regions pdpt gs
           (s1\<lparr>vmem := fold (\<lambda>i. tab_set pd i ((of_nat g * 0x40000000 + of_nat i * 0x200000) OR PTE_FLAGS OR PTE_PS))
                 [0..<512] (tab_set pdpt g (pd OR PTE_FLAGS) (vmem s1))\<rparr>))"

definition vmm_init :: "vmm \<Rightarrow> int \<times> vmm" where
  "vmm_init s =
     (let (s1, t4) = alloc_table s; s2 = s1\<lparr>pml4 := t4\<rparr>
      in if t4 = 0 then (-1, s2)
         else let (s3, pdpt) = alloc_table s2
              in if pdpt = 0 then (-1, s3)
                 else init_regions pdpt [0..<4] (s3\<lparr>vmem := tab_set t4 0 (pdpt OR PTE_FLAGS) (vmem s3)\<rparr>))"

definition pml4_index :: "u64 \<Rightarrow> nat" where "pml4_index a = unat (drop_bit 39 a AND 0x1FF)"
definition pdpt_index :: "u64 \<Rightarrow> nat" where "pdpt_index a = unat (drop_bit 30 a AND 0x1FF)"
definition pd_index :: "u64 \<Rightarrow> nat" where "pd_index a = unat (drop_bit 21 a AND 0x1FF)"

text \<open>
  The first step of the mapping loop's body makes sure that the PDPT exists, the second that
  the page directory exists, the third writes the entry. The flag is false where the code returns early.
\<close>

definition ensure_pdpt :: "u64 \<Rightarrow> vmm \<Rightarrow> bool \<times> vmm" where
  "ensure_pdpt a s =
     (if pml4_index a \<noteq> 0 \<and> tab_get (vmem s) (pml4 s) (pml4_index a) AND PTE_P = 0
      then let (s1, t) = alloc_table s
           in if t = 0 then (False, s1)
              else (True, s1\<lparr>vmem := tab_set (pml4 s1) (pml4_index a) (t OR PTE_FLAGS) (vmem s1)\<rparr>)
      else (True, s))"

definition pdpt_of :: "u64 \<Rightarrow> vmm \<Rightarrow> u64" where
  "pdpt_of a s = tab_get (vmem s) (pml4 s) (pml4_index a) AND NOT 0xFFF"

definition ensure_pd :: "u64 \<Rightarrow> vmm \<Rightarrow> bool \<times> vmm" where
  "ensure_pd a s =
     (let pdpt = pdpt_of a s
      in if tab_get (vmem s) pdpt (pdpt_index a) AND PTE_P = 0
         then let (s1, t) = alloc_table s
              in if t = 0 then (False, s1)
                 else (True, s1\<lparr>vmem := tab_set pdpt (pdpt_index a) (t OR PTE_FLAGS) (vmem s1)\<rparr>)
         else (True, s))"

definition write_pd :: "u64 \<Rightarrow> vmm \<Rightarrow> vmm" where
  "write_pd a s =
     (let pd = tab_get (vmem s) (pdpt_of a s) (pdpt_index a) AND NOT 0xFFF
      in s\<lparr>vmem := tab_set pd (pd_index a) (a OR PTE_FLAGS OR PTE_PS) (vmem s)\<rparr>)"

definition map_page :: "u64 \<Rightarrow> vmm \<Rightarrow> bool \<times> vmm" where
  "map_page a s =
     (let (ok, s1) = ensure_pdpt a s
      in if \<not> ok then (False, s1)
         else let (ok, s2) = ensure_pd a s1
              in if \<not> ok then (False, s2) else (True, write_pd a s2))"

text \<open>
  \<open>for (a = start; a < end; a += 0x200000)\<close> with both bounds multiples of 2 MiB: the loop variable
  takes the values of the list.
\<close>

definition range_2m :: "u64 \<Rightarrow> u64 \<Rightarrow> u64 list" where
  "range_2m start end =
     map (\<lambda>k. start + of_nat k * 0x200000) [0..<(unat end - unat start) div 0x200000]"

fun map_pages :: "u64 list \<Rightarrow> vmm \<Rightarrow> int \<times> vmm" where
  "map_pages [] s = (0, s)"
| "map_pages (a # as) s =
     (let (ok, s1) = map_page a s in if \<not> ok then (-1, s1) else map_pages as s1)"

definition vmm_map_physical_range :: "u64 \<Rightarrow> u64 \<Rightarrow> vmm \<Rightarrow> int \<times> vmm" where
  "vmm_map_physical_range phys sz s =
     (if pml4 s = 0 \<or> sz = 0 then (-1, s)
      else map_pages (range_2m (phys AND NOT 0x1FFFFF) ((phys + sz + 0x1FFFFF) AND NOT 0x1FFFFF)) s)"

section \<open>The processor's walk\<close>

text \<open>
  Translation of a linear address through present entries down to a 2 MiB page, with the
  writable and user rights granted at every level. A page-directory entry
  without the PS bit would lead to a 4 KiB table; the code never writes one.
\<close>

definition rights :: "u64 \<Rightarrow> bool" where
  "rights e \<longleftrightarrow> bit e 1 \<and> bit e 2"

definition walk :: "mem \<Rightarrow> u64 \<Rightarrow> u64 \<Rightarrow> (u64 \<times> bool) option" where
  "walk m cr3 a =
     (let e4 = tab_get m cr3 (pml4_index a); e3 = tab_get m (e4 AND NOT 0xFFF) (pdpt_index a);
          e2 = tab_get m (e3 AND NOT 0xFFF) (pd_index a)
      in if \<not> bit e4 0 \<or> \<not> bit e3 0 \<or> \<not> bit e2 0 \<or> \<not> bit e2 7 then None
         else Some ((e2 AND NOT 0x1FFFFF) OR (a AND 0x1FFFFF), rights e4 \<and> rights e3 \<and> rights e2))"

section \<open>Entries and indices\<close>

lemma index_nat:
  "pml4_index a = unat a div 2 ^ 39 mod 512" "pdpt_index a = unat a div 2 ^ 30 mod 512"
  "pd_index a = unat a div 2 ^ 21 mod 512"
proof -
  have m: "unat (x AND 0x1FF) = unat x mod 512" for x :: u64
  proof -
    have "x AND 0x1FF = take_bit 9 x" by (simp add: take_bit_eq_mask mask_eq_exp_minus_1)
    then show ?thesis by (simp add: unsigned_take_bit_eq take_bit_eq_mod unat_mod)
  qed
  show "pml4_index a = unat a div 2 ^ 39 mod 512" "pdpt_index a = unat a div 2 ^ 30 mod 512"
    "pd_index a = unat a div 2 ^ 21 mod 512"
    unfolding pml4_index_def pdpt_index_def pd_index_def m
    by (simp_all add: drop_bit_eq_div unat_div)
qed

lemma index_less [simp]: "pml4_index a < 512" "pdpt_index a < 512" "pd_index a < 512"
  by (simp_all add: index_nat)

text \<open>Tables by page number.\<close>

abbreviation pg :: "nat \<Rightarrow> u64" where "pg T \<equiv> of_nat T * PAGE_SIZE"

definition ent :: "mem \<Rightarrow> nat \<Rightarrow> nat \<Rightarrow> u64" where
  "ent m T k = rd64 m (T * 4096 + 8 * k)"

definition set_ent :: "nat \<Rightarrow> nat \<Rightarrow> u64 \<Rightarrow> mem \<Rightarrow> mem" where
  "set_ent T k v m = wr64 m (T * 4096 + 8 * k) v"

lemma tab_ent: "T < PMM_MAX_PAGES \<Longrightarrow> tab_get m (pg T) k = ent m T k"
  "T < PMM_MAX_PAGES \<Longrightarrow> tab_set (pg T) k v = set_ent T k v"
  by (simp_all add: tab_get_def ent_def tab_set_def set_ent_def page_address fun_eq_iff)

lemma ent_set:
  assumes "k < 512" "k' < 512"
  shows "ent (set_ent T k v m) T' k' = (if T' = T \<and> k' = k then v else ent m T' k')"
proof (cases "T' = T \<and> k' = k")
  case False
  define x where "x = T * 512 + k"
  define y where "y = T' * 512 + k'"
  have "x div 512 = T" "x mod 512 = k" "y div 512 = T'" "y mod 512 = k'"
    using assms by (simp_all add: x_def y_def)
  then have "x \<noteq> y" using False by metis
  then have "8 * y + 8 \<le> 8 * x \<or> 8 * x + 8 \<le> 8 * y" by linarith
  moreover have "T * 4096 + 8 * k = 8 * x" "T' * 4096 + 8 * k' = 8 * y" by (simp_all add: x_def y_def)
  ultimately have "ent (set_ent T k v m) T' k' = ent m T' k'"
    unfolding ent_def set_ent_def by (simp only: rd64_wr64_other)
  then show ?thesis by (simp only: if_not_P[OF False])
qed (simp add: ent_def set_ent_def)

lemma ent_fold_set:
  "n \<le> 512 \<Longrightarrow> k' < 512 \<Longrightarrow>
   ent (fold (\<lambda>i. set_ent T i (f i)) [0..<n] m) T' k' = (if T' = T \<and> k' < n then f k' else ent m T' k')"
  by (induction n) (auto simp: ent_set less_Suc_eq)

lemma mask_consts:
  "(7 :: u64) = mask 3" "(0xFFF :: u64) = mask 12" "(0x1FFFFF :: u64) = mask 21"
  by (simp_all add: mask_eq_exp_minus_1)

lemma bit_PS: "bit PTE_PS n \<longleftrightarrow> n = 7"
proof -
  have "PTE_PS = 2 ^ 7" by simp
  then show ?thesis by (simp only: bit_exp_iff) auto
qed

lemma pg_push: "pg T = push_bit 12 (of_nat T)"
  by (simp add: push_bit_eq_mult)

lemma table_entry:
  "(pg T OR PTE_FLAGS) AND NOT 0xFFF = pg T" "bit (pg T OR PTE_FLAGS) 0" "rights (pg T OR PTE_FLAGS)"
  unfolding mask_consts pg_push rights_def
  by (rule bit_word_eqI, auto simp: bit_simps) 

lemma bit_multiple:
  assumes "unat (a :: u64) mod 2 ^ k = 0" "n < k"
  shows "\<not> bit a n"
proof -
  have "take_bit k (unat a) = 0" using assms(1) by (simp add: take_bit_eq_mod)
  then have "\<not> bit (take_bit k (unat a)) n" by simp
  then have "\<not> bit (unat a) n" using assms(2) by (simp add: bit_take_bit_iff)
  then show ?thesis by (auto simp: bit_unsigned_iff dest: bit_imp_le_length)
qed

lemma leaf_entry:
  assumes "unat a mod 2 ^ 21 = 0"
  shows "(a OR PTE_FLAGS OR PTE_PS) AND NOT 0x1FFFFF = a" "bit (a OR PTE_FLAGS OR PTE_PS) 0"
    "bit (a OR PTE_FLAGS OR PTE_PS) 7" "rights (a OR PTE_FLAGS OR PTE_PS)"
proof -
  note b = bit_multiple[OF assms]
  show "(a OR PTE_FLAGS OR PTE_PS) AND NOT 0x1FFFFF = a"
    unfolding mask_consts by (rule bit_word_eqI) (use b in \<open>auto simp: bit_and_iff bit_or_iff bit_not_iff bit_mask_iff bit_PS simp del: bit_numeral_word_iff\<close>)
  show "bit (a OR PTE_FLAGS OR PTE_PS) 0" "bit (a OR PTE_FLAGS OR PTE_PS) 7" "rights (a OR PTE_FLAGS OR PTE_PS)"
    unfolding mask_consts rights_def by (auto simp: bit_simps)
qed

lemma present_iff: "e AND PTE_P = 0 \<longleftrightarrow> \<not> bit (e :: u64) 0"
  by (simp add: and_one_eq bit_0 even_iff_mod_2_eq_zero)


section \<open>The table invariant\<close>

text \<open>
  \<open>P\<close> is the page of the top table, \<open>D i\<close> the page of the PDPT behind its entry \<open>i\<close> and
  \<open>E i j\<close> the page of the page directory behind entry \<open>j\<close> of that, 0 where there is none. \<open>F\<close> is
  the set of free pages. Tables are distinct pages in use.
\<close>

definition table_page :: "nat set \<Rightarrow> nat \<Rightarrow> bool" where
  "table_page F q \<longleftrightarrow> q \<noteq> 0 \<and> q < PMM_MAX_PAGES \<and> q \<notin> F"

definition layout :: "nat set \<Rightarrow> nat \<Rightarrow> (nat \<Rightarrow> nat) \<Rightarrow> (nat \<Rightarrow> nat \<Rightarrow> nat) \<Rightarrow> bool" where
  "layout F P D E \<longleftrightarrow> table_page F P \<and>
     (\<forall>i. D i \<noteq> 0 \<longrightarrow> i < 512 \<and> table_page F (D i) \<and> D i \<noteq> P \<and> (\<forall>i'. D i' = D i \<longrightarrow> i' = i)) \<and>
     (\<forall>i j. E i j \<noteq> 0 \<longrightarrow> j < 512 \<and> D i \<noteq> 0 \<and> table_page F (E i j) \<and> E i j \<noteq> P \<and>
        (\<forall>i'. D i' \<noteq> E i j) \<and> (\<forall>i' j'. E i' j' = E i j \<longrightarrow> i' = i \<and> j' = j))"

definition va :: "nat \<Rightarrow> nat \<Rightarrow> nat \<Rightarrow> u64" where
  "va i j k = of_nat (i * 2 ^ 39 + j * 2 ^ 30 + k * 2 ^ 21)"

definition points :: "u64 \<Rightarrow> nat \<Rightarrow> bool" where
  "points e q \<longleftrightarrow> (if q = 0 then \<not> bit e 0 else e = pg q OR PTE_FLAGS)"

definition entries :: "mem \<Rightarrow> nat \<Rightarrow> (nat \<Rightarrow> nat) \<Rightarrow> (nat \<Rightarrow> nat \<Rightarrow> nat) \<Rightarrow> bool" where
  "entries m P D E \<longleftrightarrow> (\<forall>i < 512. points (ent m P i) (D i)) \<and>
     (\<forall>i j. D i \<noteq> 0 \<longrightarrow> j < 512 \<longrightarrow> points (ent m (D i) j) (E i j)) \<and>
     (\<forall>i j k. E i j \<noteq> 0 \<longrightarrow> k < 512 \<longrightarrow> \<not> bit (ent m (E i j) k) 0 \<or>
        ent m (E i j) k = va i j k OR PTE_FLAGS OR PTE_PS)"

definition vm_inv :: "vmm \<Rightarrow> nat \<Rightarrow> (nat \<Rightarrow> nat) \<Rightarrow> (nat \<Rightarrow> nat \<Rightarrow> nat) \<Rightarrow> bool" where
  "vm_inv s P D E \<longleftrightarrow> pmm_inv (vpmm s) \<and> (\<forall>p \<in> free_set (vpmm s). 256 \<le> p) \<and> pml4 s = pg P \<and>
     layout (free_set (vpmm s)) P D E \<and> entries (vmem s) P D E"

text \<open>The leaf entry of the index triple is present.\<close>

definition leaf :: "mem \<Rightarrow> (nat \<Rightarrow> nat \<Rightarrow> nat) \<Rightarrow> nat \<Rightarrow> nat \<Rightarrow> nat \<Rightarrow> bool" where
  "leaf m E i j k \<longleftrightarrow> E i j \<noteq> 0 \<and> bit (ent m (E i j) k) 0"

lemma va_index:
  assumes "unat a < 2 ^ 48"
  shows "va (pml4_index a) (pdpt_index a) (pd_index a) = a AND NOT 0x1FFFFF"
proof -
  define x where "x = unat a div 2 ^ 21"
  have "x < 2 ^ 27" using assms by (simp add: x_def div_less_iff_less_mult)
  then have "x div 2 ^ 18 < 512" by (simp add: div_less_iff_less_mult)
  then have i: "pml4_index a = x div 2 ^ 18" by (simp add: index_nat x_def div_mult2_eq[symmetric])
  have j: "pdpt_index a = x div 512 mod 512" "pd_index a = x mod 512"
    by (simp_all add: index_nat x_def div_mult2_eq[symmetric])
  have "x div 2 ^ 18 = x div 512 div 512" by (simp add: div_mult2_eq[symmetric])
  then have "(x div 2 ^ 18 * 512 + x div 512 mod 512) * 512 + x mod 512 = x" by simp
  then have "pml4_index a * 2 ^ 39 + pdpt_index a * 2 ^ 30 + pd_index a * 2 ^ 21 = x * 2 ^ 21"
    unfolding i j by simp
  then have "va (pml4_index a) (pdpt_index a) (pd_index a) = of_nat (x * 2 ^ 21)" by (simp only: va_def)
  moreover have "unat (a AND NOT (2 ^ 21 - 1)) = x * 2 ^ 21"
    using unat_clear_low[of 21 a] by (simp add: x_def)
  moreover have "(of_nat (unat (a AND NOT (2 ^ 21 - 1))) :: u64) = a AND NOT (2 ^ 21 - 1)" by simp
  ultimately show ?thesis by simp
qed

lemma va_mod: 
  assumes "i < 512" "j < 512" "k < 512"
  shows "unat (va i j k) mod 2 ^ 21 = 0" "unat (va i j k) < 2 ^ 48"
    "pml4_index (va i j k) = i" "pdpt_index (va i j k) = j" "pd_index (va i j k) = k"
proof -
  define n where "n = i * 2 ^ 39 + j * 2 ^ 30 + k * 2 ^ 21"
  have n: "n < 2 ^ 48" using assms by (simp add: n_def)
  then have u: "unat (va i j k) = n" unfolding va_def n_def[symmetric] by (intro unat_of_nat_u64) simp
  have n21: "n = ((i * 512 + j) * 512 + k) * 2 ^ 21" by (simp add: n_def)
  show "unat (va i j k) mod 2 ^ 21 = 0" "unat (va i j k) < 2 ^ 48"
    using n by (simp_all add: u n21)
  have d: "n div 2 ^ 21 = (i * 512 + j) * 512 + k" by (simp add: n21)
  have "n div 2 ^ 30 = n div 2 ^ 21 div 512" "n div 2 ^ 39 = n div 2 ^ 21 div 512 div 512"
    by (simp_all add: div_mult2_eq[symmetric])
  then have "n div 2 ^ 30 = i * 512 + j" "n div 2 ^ 39 = i" unfolding d using assms by simp_all
  then show "pml4_index (va i j k) = i" "pdpt_index (va i j k) = j" "pd_index (va i j k) = k"
    using assms mod_mult_self3[of "i * 512 + j" 512 k] by (simp_all only: index_nat u d) simp_all
qed

lemma walk_inv:
  assumes inv: "vm_inv s P D E" and a: "unat a < 2 ^ 48"
  shows "walk (vmem s) (pml4 s) a =
    (if leaf (vmem s) E (pml4_index a) (pdpt_index a) (pd_index a) then Some (a, True) else None)"
proof -
  let ?i = "pml4_index a" and ?j = "pdpt_index a" and ?k = "pd_index a" and ?m = "vmem s"
  have L: "layout (free_set (vpmm s)) P D E" "entries ?m P D E" "pml4 s = pg P" using inv by (auto simp: vm_inv_def)
  have P: "tab_get ?m (pml4 s) ?i = ent ?m P ?i" using L by (simp add: layout_def table_page_def tab_ent)
  have e4: "points (ent ?m P ?i) (D ?i)" using L(2) by (simp add: entries_def)
  show ?thesis
  proof (cases "D ?i = 0 \<or> E ?i ?j = 0")
    case True
    have "walk ?m (pml4 s) a = None"
    proof (cases "D ?i = 0")
      case True
      then show ?thesis using e4 P by (simp add: walk_def points_def Let_def)
    next
      case False
      then have e: "\<not> bit (ent ?m (D ?i) ?j) 0" "ent ?m P ?i = pg (D ?i) OR PTE_FLAGS" "D ?i < PMM_MAX_PAGES"
        using L e4 True by (auto simp: entries_def points_def layout_def table_page_def)
      show ?thesis
        unfolding walk_def Let_def P e(2) table_entry(1) tab_ent(1)[OF e(3)] using e(1) by simp
    qed
    moreover have "D ?i = 0 \<Longrightarrow> E ?i ?j = 0" using L(1) unfolding layout_def by metis
    with True have "E ?i ?j = 0" by blast
    ultimately show ?thesis by (simp add: leaf_def)
  next
    case False
    then have e: "ent ?m P ?i = pg (D ?i) OR PTE_FLAGS" "ent ?m (D ?i) ?j = pg (E ?i ?j) OR PTE_FLAGS"
      "D ?i < PMM_MAX_PAGES" "E ?i ?j < PMM_MAX_PAGES"
      using L e4 by (auto simp: entries_def points_def layout_def table_page_def)
    have w: "walk ?m (pml4 s) a = (let e2 = ent ?m (E ?i ?j) ?k in
        if \<not> bit e2 0 \<or> \<not> bit e2 7 then None
        else Some ((e2 AND NOT 0x1FFFFF) OR (a AND 0x1FFFFF), rights e2))"
      unfolding walk_def Let_def P e(1) table_entry(1) tab_ent(1)[OF e(3)] e(2) tab_ent(1)[OF e(4)]
      by (simp add: table_entry)
    show ?thesis
    proof (cases "bit (ent ?m (E ?i ?j) ?k) 0")
      case True
      then have eq: "ent ?m (E ?i ?j) ?k = va ?i ?j ?k OR PTE_FLAGS OR PTE_PS"
        using L(2) False by (auto simp: entries_def)
      have md: "unat (va ?i ?j ?k) mod 2 ^ 21 = 0" by (rule va_mod(1)) simp_all
      note lf = leaf_entry[OF md, folded eq]
      have id: "(va ?i ?j ?k) OR (a AND 0x1FFFFF) = a"
        unfolding va_index[OF a] mask_consts(3)
        by (rule bit_word_eqI) (auto simp: bit_and_iff bit_or_iff bit_not_iff)
      show ?thesis
        unfolding w Let_def lf(1) id using lf(2,3,4) False by (simp add: leaf_def)
    qed (simp add: w leaf_def)
  qed
qed


section \<open>Building tables\<close>

lemma alloc_table_cases:
  assumes inv: "pmm_inv (vpmm s)" "\<forall>p \<in> free_set (vpmm s). 256 \<le> p"
  obtains (none) "alloc_table s = (s, 0)" "free_set (vpmm s) = {}"
  | (new) s' T where "alloc_table s = (s', pg T)" "pg T \<noteq> 0" "T \<in> free_set (vpmm s)" "T < PMM_MAX_PAGES"
      "pmm_inv (vpmm s')" "free_set (vpmm s') = free_set (vpmm s) - {T}" "pml4 s' = pml4 s"
      "\<And>T' k. k < 512 \<Longrightarrow> ent (vmem s') T' k = (if T' = T then 0 else ent (vmem s) T' k)"
proof -
  obtain p' a where al: "pmm_alloc_page (vpmm s) = (p', a)" by force
  then have al1: "pmm_alloc_pages (vpmm s) 1 = (p', a)"
    using inv(1) by (simp add: pmm_alloc_pages_def pmm_inv_def)
  have z: "0 \<notin> free_set (vpmm s)" using inv(2) by force
  show thesis
  proof (cases "a = 0")
    case True
    note F = pmm.alloc_failure[OF inv(1) al1[unfolded True] _ z]
    have "\<forall>t. t \<notin> free_set (vpmm s)" using F(2) by simp
    then show thesis using none F(1) al True by (simp add: alloc_table_def)
  next
    case False
    note S = pmm.alloc_success[OF inv(1) al1 False]
    define T where "T = unat a div 4096"
    have "unat a = T * 4096" using S(4) div_mult_mod_eq[of "unat a" 4096] by (simp add: T_def)
    then have "of_nat (unat a) = pg T" by simp
    then have a: "a = pg T" by simp
    have f: "frames (a, 1) = {T}" by (auto simp: frames_def T_def)
    then have T: "T \<in> free_set (vpmm s)" "T < PMM_MAX_PAGES" using S(5) free_set_bound by auto
    define s' where "s' = s\<lparr>vpmm := p', vmem := fold (\<lambda>i. set_ent T i 0) [0..<512] (vmem s)\<rparr>"
    have r: "alloc_table s = (s', pg T)"
      using al False a T by (simp add: alloc_table_def s'_def tab_ent)
    show thesis
      by (rule new[OF r]) (use False a T S f in \<open>auto simp: s'_def ent_fold_set\<close>)
  qed
qed

lemma layout_mono: "layout F P D E \<Longrightarrow> F' \<subseteq> F \<Longrightarrow> layout F' P D E"
  unfolding layout_def table_page_def by blast

text \<open>A page that was free is none of the tables.\<close>

lemma fresh_table:
  assumes "layout F P D E" "T \<in> F" "T \<noteq> 0"
  shows "T \<noteq> P" "D i \<noteq> T" "E i j \<noteq> T"
proof -
  show "T \<noteq> P" using assms by (auto simp: layout_def table_page_def)
  have "D i \<noteq> 0 \<Longrightarrow> D i \<notin> F" "E i j \<noteq> 0 \<Longrightarrow> E i j \<notin> F" using assms(1) unfolding layout_def table_page_def by blast+
  then show "D i \<noteq> T" "E i j \<noteq> T" using assms(2,3) by (metis, metis)
qed

lemma layout_new_pdpt:
  assumes "layout F P D E" "T \<in> F" "T \<noteq> 0" "T < PMM_MAX_PAGES" "D i = 0" "i < 512"
  shows "layout (F - {T}) P (D(i := T)) E"
proof -
  note fr = fresh_table[OF assms(1-3)]
  have E0: "E i j = 0" for j using assms(1,5) unfolding layout_def by metis
  show ?thesis
    using layout_mono[OF assms(1), of "F - {T}"] assms(3-6) fr E0
    unfolding layout_def by (auto simp: table_page_def)
qed

lemma layout_new_pd:
  assumes "layout F P D E" "T \<in> F" "T \<noteq> 0" "T < PMM_MAX_PAGES" "D i \<noteq> 0" "E i j = 0" "j < 512"
  shows "layout (F - {T}) P D (E(i := (E i)(j := T)))"
proof -
  note fr = fresh_table[OF assms(1-3)]
  show ?thesis
    using layout_mono[OF assms(1), of "F - {T}"] assms(3-7) fr fr(1)[symmetric]
    unfolding layout_def by (auto simp: table_page_def) metis
qed


lemma entries_new_pdpt:
  assumes L: "layout F P D E" "T \<in> F" "T \<noteq> 0" "D i = 0" "i < 512" and en: "entries m P D E"
    and m1: "\<And>T' k. k < 512 \<Longrightarrow> ent m1 T' k = (if T' = T then 0 else ent m T' k)"
  shows "entries (set_ent P i (pg T OR PTE_FLAGS) m1) P (D(i := T)) E"
    "k < 512 \<Longrightarrow> leaf (set_ent P i (pg T OR PTE_FLAGS) m1) E i' j' k = leaf m E i' j' k"
proof -
  note fr = fresh_table[OF L(1-3)]
  have E0: "E i j = 0" for j using L(1,4) unfolding layout_def by metis
  have DP: "D i' \<noteq> P" "E i' j' \<noteq> 0 \<Longrightarrow> E i' j' \<noteq> P" for i' j'
    using L(1) unfolding layout_def table_page_def by metis+
  show "entries (set_ent P i (pg T OR PTE_FLAGS) m1) P (D(i := T)) E"
    using en L(3,5) fr DP E0 unfolding entries_def by (auto simp: ent_set m1 points_def)
  show "leaf (set_ent P i (pg T OR PTE_FLAGS) m1) E i' j' k = leaf m E i' j' k" if "k < 512"
    using that L(5) fr(3) DP(2)[of i' j'] by (auto simp: leaf_def ent_set m1)
qed

lemma entries_new_pd:
  assumes L: "layout F P D E" "T \<in> F" "T \<noteq> 0" "D i \<noteq> 0" "E i j = 0" "j < 512" and en: "entries m P D E"
    and m1: "\<And>T' k. k < 512 \<Longrightarrow> ent m1 T' k = (if T' = T then 0 else ent m T' k)"
  shows "entries (set_ent (D i) j (pg T OR PTE_FLAGS) m1) P D (E(i := (E i)(j := T)))"
    "k < 512 \<Longrightarrow> leaf (set_ent (D i) j (pg T OR PTE_FLAGS) m1) (E(i := (E i)(j := T))) i' j' k = leaf m E i' j' k"
proof -
  note fr = fresh_table[OF L(1-3)]
  have D: "D i \<noteq> P" "D i \<noteq> T" "D i' = D i \<Longrightarrow> i' = i" "E i' j' \<noteq> D i" for i' j'
    using L(1,4) fr unfolding layout_def by metis+
  show "entries (set_ent (D i) j (pg T OR PTE_FLAGS) m1) P D (E(i := (E i)(j := T)))"
    unfolding entries_def
  proof (intro conjI allI impI)
    show "points (ent (set_ent (D i) j (pg T OR PTE_FLAGS) m1) P i') (D i')" if "i' < 512" for i'
      using en that L(6) D(1) fr(1) by (auto simp: entries_def ent_set m1)
    show "points (ent (set_ent (D i) j (pg T OR PTE_FLAGS) m1) (D i') j') ((E(i := (E i)(j := T))) i' j')"
      if "D i' \<noteq> 0" "j' < 512" for i' j'
      using en that L(3,6) D fr(2)[of i'] by (auto simp: entries_def ent_set m1 points_def)
    show "\<not> bit (ent (set_ent (D i) j (pg T OR PTE_FLAGS) m1) ((E(i := (E i)(j := T))) i' j') k) 0 \<or>
        ent (set_ent (D i) j (pg T OR PTE_FLAGS) m1) ((E(i := (E i)(j := T))) i' j') k =
          va i' j' k OR PTE_FLAGS OR PTE_PS"
      if "(E(i := (E i)(j := T))) i' j' \<noteq> 0" "k < 512" for i' j' k
    proof (cases "i' = i \<and> j' = j")
      case True
      then show ?thesis using that(2) D(2) L(6) by (simp add: ent_set m1)
    next
      case False
      then have "(E(i := (E i)(j := T))) i' j' = E i' j'" by auto
      then show ?thesis using en that D(4)[of i' j'] fr(3)[of i' j'] L(6) by (auto simp: entries_def ent_set m1)
    qed
  qed
  show "leaf (set_ent (D i) j (pg T OR PTE_FLAGS) m1) (E(i := (E i)(j := T))) i' j' k = leaf m E i' j' k"
    if k: "k < 512"
  proof (cases "i' = i \<and> j' = j")
    case True
    then show ?thesis using k D(2) L(5,6) by (simp add: leaf_def ent_set m1)
  next
    case False
    then have "(E(i := (E i)(j := T))) i' j' = E i' j'" by auto
    then show ?thesis using k D(4)[of i' j'] fr(3)[of i' j'] L(6) by (simp add: leaf_def ent_set m1)
  qed
qed

lemma entries_set_leaf:
  assumes L: "layout F P D E" "E i j \<noteq> 0" "k < 512" and en: "entries m P D E"
    and ij: "i < 512" "j < 512"
  shows "entries (set_ent (E i j) k (va i j k OR PTE_FLAGS OR PTE_PS) m) P D E"
    "k' < 512 \<Longrightarrow> leaf (set_ent (E i j) k (va i j k OR PTE_FLAGS OR PTE_PS) m) E i' j' k' \<longleftrightarrow>
       leaf m E i' j' k' \<or> i' = i \<and> j' = j \<and> k' = k"
proof -
  have D: "E i j \<noteq> P" "D i' \<noteq> E i j" "E i' j' = E i j \<Longrightarrow> i' = i \<and> j' = j" for i' j'
    using L(1,2) unfolding layout_def by metis+
  show "entries (set_ent (E i j) k (va i j k OR PTE_FLAGS OR PTE_PS) m) P D E"
    using en L(3) D(1) D(1)[symmetric] D(2,3) unfolding entries_def by (simp add: ent_set) metis
  have b: "bit (va i j k OR PTE_FLAGS OR PTE_PS) 0" by (rule leaf_entry(2)[OF va_mod(1)]) (use L(3) ij in auto)
  show "leaf (set_ent (E i j) k (va i j k OR PTE_FLAGS OR PTE_PS) m) E i' j' k' \<longleftrightarrow>
       leaf m E i' j' k' \<or> i' = i \<and> j' = j \<and> k' = k" if "k' < 512"
    using that L(2,3) D(3)[of i' j'] b by (auto simp: leaf_def ent_set)
qed


lemma points_present: "points e q \<Longrightarrow> e AND PTE_P = 0 \<longleftrightarrow> q = 0"
  using table_entry(2)[of q] by (auto simp: points_def present_iff split: if_splits)

definition same_leaves :: "vmm \<Rightarrow> (nat \<Rightarrow> nat \<Rightarrow> nat) \<Rightarrow> vmm \<Rightarrow> (nat \<Rightarrow> nat \<Rightarrow> nat) \<Rightarrow> bool" where
  "same_leaves s E s' E' \<longleftrightarrow> (\<forall>i j k. k < 512 \<longrightarrow> leaf (vmem s') E' i j k = leaf (vmem s) E i j k)"

lemma vm_inv_pmm: "vm_inv s P D E \<Longrightarrow> pmm_inv (vpmm s)" "vm_inv s P D E \<Longrightarrow> \<forall>p \<in> free_set (vpmm s). 256 \<le> p"
  by (simp_all add: vm_inv_def)

lemma add_pdpt:
  assumes inv: "vm_inv s P D E" and new: "D i = 0" "i < 512" and al: "alloc_table s = (s1, t)"
  shows "t = 0 \<and> s1 = s \<and> free_set (vpmm s) = {} \<or>
    (\<exists>T. t = pg T \<and> t \<noteq> 0 \<and> T \<noteq> 0 \<and>
      vm_inv (s1\<lparr>vmem := tab_set (pml4 s1) i (t OR PTE_FLAGS) (vmem s1)\<rparr>) P (D(i := T)) E \<and>
      same_leaves s E (s1\<lparr>vmem := tab_set (pml4 s1) i (t OR PTE_FLAGS) (vmem s1)\<rparr>) E)"
  using vm_inv_pmm[OF inv]
proof (cases rule: alloc_table_cases)
  case none
  then show ?thesis using al by simp
next
  case (new s' T)
  have L: "layout (free_set (vpmm s)) P D E" "entries (vmem s) P D E" "pml4 s = pg P"
    using inv by (auto simp: vm_inv_def)
  have T0: "T \<noteq> 0" using new(2) by (cases T) auto
  have P: "P < PMM_MAX_PAGES" using L(1) by (simp add: layout_def table_page_def)
  have s1: "s1 = s'" "t = pg T" using al new(1) by simp_all
  note lay = layout_new_pdpt[OF L(1) new(3) T0 new(4) assms(2,3)]
  note en = entries_new_pdpt[OF L(1) new(3) T0 assms(2,3) L(2) new(8)]
  have m: "tab_set (pml4 s1) i (t OR PTE_FLAGS) (vmem s1) = set_ent P i (pg T OR PTE_FLAGS) (vmem s')"
    using s1 new(7) L(3) P by (simp add: tab_ent)
  have "vm_inv (s1\<lparr>vmem := tab_set (pml4 s1) i (t OR PTE_FLAGS) (vmem s1)\<rparr>) P (D(i := T)) E"
    using lay en(1) new(5,6,7) L(3) vm_inv_pmm(2)[OF inv] unfolding m by (simp add: vm_inv_def s1)
  moreover have "same_leaves s E (s1\<lparr>vmem := tab_set (pml4 s1) i (t OR PTE_FLAGS) (vmem s1)\<rparr>) E"
    unfolding same_leaves_def m using en(2) by simp
  ultimately show ?thesis using s1(2) T0 new(2) by blast
qed

lemma add_pd:
  assumes inv: "vm_inv s P D E" and new: "D i \<noteq> 0" "E i j = 0" "j < 512" and al: "alloc_table s = (s1, t)"
  shows "t = 0 \<and> s1 = s \<and> free_set (vpmm s) = {} \<or>
    (\<exists>T. t = pg T \<and> t \<noteq> 0 \<and> T \<noteq> 0 \<and> T < PMM_MAX_PAGES \<and>
      vm_inv (s1\<lparr>vmem := tab_set (pg (D i)) j (t OR PTE_FLAGS) (vmem s1)\<rparr>) P D (E(i := (E i)(j := T))) \<and>
      same_leaves s E (s1\<lparr>vmem := tab_set (pg (D i)) j (t OR PTE_FLAGS) (vmem s1)\<rparr>) (E(i := (E i)(j := T))))"
  using vm_inv_pmm[OF inv]
proof (cases rule: alloc_table_cases)
  case none
  then show ?thesis using al by simp
next
  case (new s' T)
  have L: "layout (free_set (vpmm s)) P D E" "entries (vmem s) P D E" "pml4 s = pg P"
    using inv by (auto simp: vm_inv_def)
  have T0: "T \<noteq> 0" using new(2) by (cases T) auto
  have Di: "D i < PMM_MAX_PAGES" using L(1) assms(2) by (simp add: layout_def table_page_def)
  have s1: "s1 = s'" "t = pg T" using al new(1) by simp_all
  note lay = layout_new_pd[OF L(1) new(3) T0 new(4) assms(2-4)]
  note en = entries_new_pd[OF L(1) new(3) T0 assms(2-4) L(2) new(8)]
  have m: "tab_set (pg (D i)) j (t OR PTE_FLAGS) (vmem s1) = set_ent (D i) j (pg T OR PTE_FLAGS) (vmem s')"
    using s1 Di by (simp add: tab_ent)
  have "vm_inv (s1\<lparr>vmem := tab_set (pg (D i)) j (t OR PTE_FLAGS) (vmem s1)\<rparr>) P D (E(i := (E i)(j := T)))"
    using lay en(1) new(5,6,7) L(3) vm_inv_pmm(2)[OF inv] unfolding m by (simp add: vm_inv_def s1)
  moreover have "same_leaves s E (s1\<lparr>vmem := tab_set (pg (D i)) j (t OR PTE_FLAGS) (vmem s1)\<rparr>) (E(i := (E i)(j := T)))"
    unfolding same_leaves_def m using en(2) by simp
  ultimately show ?thesis using s1(2) T0 new(2,4) by blast
qed

lemma pdpt_of_inv:
  assumes "vm_inv s P D E" "D (pml4_index a) \<noteq> 0"
  shows "pdpt_of a s = pg (D (pml4_index a))" "D (pml4_index a) < PMM_MAX_PAGES"
proof -
  have L: "layout (free_set (vpmm s)) P D E" "entries (vmem s) P D E" "pml4 s = pg P"
    using assms(1) by (auto simp: vm_inv_def)
  show "D (pml4_index a) < PMM_MAX_PAGES" using L(1) assms(2) by (simp add: layout_def table_page_def)
  have "P < PMM_MAX_PAGES" using L(1) by (simp add: layout_def table_page_def)
  then have "tab_get (vmem s) (pml4 s) (pml4_index a) = pg (D (pml4_index a)) OR PTE_FLAGS"
    using L assms(2) by (simp add: tab_ent entries_def points_def)
  then show "pdpt_of a s = pg (D (pml4_index a))" by (simp only: pdpt_of_def table_entry)
qed

lemma ensure_pdpt_ok:
  assumes inv: "vm_inv s P D E" and D0: "D 0 \<noteq> 0" and r: "ensure_pdpt a s = (ok, s')"
  obtains D' where "vm_inv s' P D' E" "D' 0 \<noteq> 0" "same_leaves s E s' E"
    "ok \<Longrightarrow> D' (pml4_index a) \<noteq> 0" "\<not> ok \<Longrightarrow> free_set (vpmm s') = {}"
proof -
  let ?i = "pml4_index a"
  have L: "layout (free_set (vpmm s)) P D E" "entries (vmem s) P D E" "pml4 s = pg P"
    using inv by (auto simp: vm_inv_def)
  have "P < PMM_MAX_PAGES" using L(1) by (simp add: layout_def table_page_def)
  then have pres: "tab_get (vmem s) (pml4 s) ?i AND PTE_P = 0 \<longleftrightarrow> D ?i = 0"
    using L by (intro points_present) (simp add: tab_ent entries_def)
  show thesis
  proof (cases "D ?i = 0")
    case False
    then have "ok" "s' = s" using r pres by (simp_all add: ensure_pdpt_def)
    then show thesis using that[of D] inv D0 False by (simp add: same_leaves_def)
  next
    case True
    then have i0: "?i \<noteq> 0" using D0 by metis
    obtain s1 t where al: "alloc_table s = (s1, t)" by force
    from add_pdpt[OF inv True index_less(1) al] show thesis
    proof (elim disjE exE conjE)
      assume "t = 0" "s1 = s" "free_set (vpmm s) = {}"
      then have "\<not> ok" "s' = s" using r True pres i0 al by (simp_all add: ensure_pdpt_def)
      then show thesis using that[of D] inv D0 \<open>free_set (vpmm s) = {}\<close> by (simp add: same_leaves_def)
    next
      fix T assume T: "t = pg T" "t \<noteq> 0" "T \<noteq> 0"
        "vm_inv (s1\<lparr>vmem := tab_set (pml4 s1) ?i (t OR PTE_FLAGS) (vmem s1)\<rparr>) P (D(?i := T)) E"
        "same_leaves s E (s1\<lparr>vmem := tab_set (pml4 s1) ?i (t OR PTE_FLAGS) (vmem s1)\<rparr>) E"
      have "ok" "s' = s1\<lparr>vmem := tab_set (pml4 s1) ?i (t OR PTE_FLAGS) (vmem s1)\<rparr>"
        using r True pres i0 al T(2) by (simp_all add: ensure_pdpt_def)
      then show thesis using that[of "D(?i := T)"] T D0 by auto
    qed
  qed
qed

lemma ensure_pd_ok:
  assumes inv: "vm_inv s P D E" and Di: "D (pml4_index a) \<noteq> 0" and r: "ensure_pd a s = (ok, s')"
  obtains E' where "vm_inv s' P D E'" "same_leaves s E s' E'"
    "ok \<Longrightarrow> E' (pml4_index a) (pdpt_index a) \<noteq> 0" "\<not> ok \<Longrightarrow> free_set (vpmm s') = {}"
proof -
  let ?i = "pml4_index a" and ?j = "pdpt_index a"
  note pd = pdpt_of_inv[OF inv Di]
  have L: "layout (free_set (vpmm s)) P D E" "entries (vmem s) P D E" using inv by (auto simp: vm_inv_def)
  have pres: "tab_get (vmem s) (pdpt_of a s) ?j AND PTE_P = 0 \<longleftrightarrow> E ?i ?j = 0"
    using L Di pd by (intro points_present) (simp add: tab_ent entries_def)
  show thesis
  proof (cases "E ?i ?j = 0")
    case False
    then have "ok" "s' = s" using r pres by (simp_all add: ensure_pd_def Let_def)
    then show thesis using that[of E] inv False by (simp add: same_leaves_def)
  next
    case True
    obtain s1 t where al: "alloc_table s = (s1, t)" by force
    from add_pd[OF inv Di True index_less(2) al] show thesis
    proof (elim disjE exE conjE)
      assume "t = 0" "s1 = s" "free_set (vpmm s) = {}"
      then have "\<not> ok" "s' = s" using r True pres al by (simp_all add: ensure_pd_def Let_def)
      then show thesis using that[of E] inv \<open>free_set (vpmm s) = {}\<close> by (simp add: same_leaves_def)
    next
      fix T assume T: "t \<noteq> 0" "T \<noteq> 0"
        "vm_inv (s1\<lparr>vmem := tab_set (pg (D ?i)) ?j (t OR PTE_FLAGS) (vmem s1)\<rparr>) P D (E(?i := (E ?i)(?j := T)))"
        "same_leaves s E (s1\<lparr>vmem := tab_set (pg (D ?i)) ?j (t OR PTE_FLAGS) (vmem s1)\<rparr>) (E(?i := (E ?i)(?j := T)))"
      have "ok" "s' = s1\<lparr>vmem := tab_set (pg (D ?i)) ?j (t OR PTE_FLAGS) (vmem s1)\<rparr>"
        using r True pres al T(1) pd(1) by (simp_all add: ensure_pd_def Let_def)
      then show thesis using that[of "E(?i := (E ?i)(?j := T))"] T by simp
    qed
  qed
qed

lemma write_pd_ok:
  assumes inv: "vm_inv s P D E" and E: "E (pml4_index a) (pdpt_index a) \<noteq> 0"
    and a: "unat a mod 2 ^ 21 = 0" "unat a < 2 ^ 48"
  shows "vm_inv (write_pd a s) P D E"
    "k < 512 \<Longrightarrow> leaf (vmem (write_pd a s)) E i j k \<longleftrightarrow>
       leaf (vmem s) E i j k \<or> i = pml4_index a \<and> j = pdpt_index a \<and> k = pd_index a"
proof -
  let ?i = "pml4_index a" and ?j = "pdpt_index a" and ?k = "pd_index a"
  have L: "layout (free_set (vpmm s)) P D E" "entries (vmem s) P D E" using inv by (auto simp: vm_inv_def)
  have D: "D ?i \<noteq> 0" "E ?i ?j < PMM_MAX_PAGES" using L(1) E by (auto simp: layout_def table_page_def)
  note pd = pdpt_of_inv[OF inv D(1)]
  have "tab_get (vmem s) (pdpt_of a s) ?j = pg (E ?i ?j) OR PTE_FLAGS"
    using L D pd E by (simp add: tab_ent entries_def points_def)
  then have base: "tab_get (vmem s) (pdpt_of a s) ?j AND NOT 0xFFF = pg (E ?i ?j)" by (simp only: table_entry)
  have "a AND NOT (2 ^ 21 - 1) = a"
  proof -
    have "unat (a AND NOT (2 ^ 21 - 1)) = unat a"
      using unat_clear_low[of 21 a] a(1) div_mult_mod_eq[of "unat a" "2 ^ 21"] by simp
    then show ?thesis by (simp only: word_unat_eq_iff)
  qed
  then have va: "va ?i ?j ?k = a" using va_index[OF a(2)] by simp
  have m: "vmem (write_pd a s) = set_ent (E ?i ?j) ?k (va ?i ?j ?k OR PTE_FLAGS OR PTE_PS) (vmem s)"
    unfolding write_pd_def Let_def base va using D(2) by (simp add: tab_ent)
  note S = entries_set_leaf[OF L(1) E index_less(3)[of a] L(2) index_less(1,2)[of a], folded m]
  show "vm_inv (write_pd a s) P D E"
    using inv S(1) by (simp add: vm_inv_def write_pd_def Let_def)
  show "leaf (vmem (write_pd a s)) E i j k \<longleftrightarrow> leaf (vmem s) E i j k \<or> i = ?i \<and> j = ?j \<and> k = ?k" if "k < 512"
    using S(2)[OF that] .
qed


text \<open>Index triple of an address.\<close>

definition triple :: "u64 \<Rightarrow> nat \<times> nat \<times> nat" where
  "triple a = (pml4_index a, pdpt_index a, pd_index a)"

definition leaf_set :: "vmm \<Rightarrow> (nat \<Rightarrow> nat \<Rightarrow> nat) \<Rightarrow> (nat \<times> nat \<times> nat) set" where
  "leaf_set s E = {(i, j, k). k < 512 \<and> leaf (vmem s) E i j k}"

lemma same_leaves_set: "same_leaves s E s' E' \<Longrightarrow> leaf_set s' E' = leaf_set s E"
  by (auto simp: same_leaves_def leaf_set_def)

lemma map_page_ok:
  assumes inv: "vm_inv s P D E" and D0: "D 0 \<noteq> 0" and a: "unat a mod 2 ^ 21 = 0" "unat a < 2 ^ 48"
    and r: "map_page a s = (ok, s')"
  obtains D' E' where "vm_inv s' P D' E'" "D' 0 \<noteq> 0"
    "leaf_set s' E' = (if ok then insert (triple a) (leaf_set s E) else leaf_set s E)"
    "\<not> ok \<Longrightarrow> free_set (vpmm s') = {}"
proof -
  obtain ok1 s1 where r1: "ensure_pdpt a s = (ok1, s1)" by force
  obtain D' where P: "vm_inv s1 P D' E" "D' 0 \<noteq> 0" "same_leaves s E s1 E"
    "ok1 \<Longrightarrow> D' (pml4_index a) \<noteq> 0" "\<not> ok1 \<Longrightarrow> free_set (vpmm s1) = {}"
    using ensure_pdpt_ok[OF inv D0 r1] by blast
  show thesis
  proof (cases ok1)
    case False
    then have "ok = False" "s' = s1" using r r1 by (simp_all add: map_page_def)
    then show thesis using that[of D' E] P False same_leaves_set[OF P(3)] by simp
  next
    case True
    obtain ok2 s2 where r2: "ensure_pd a s1 = (ok2, s2)" by force
    obtain E' where Q: "vm_inv s2 P D' E'" "same_leaves s1 E s2 E'"
      "ok2 \<Longrightarrow> E' (pml4_index a) (pdpt_index a) \<noteq> 0" "\<not> ok2 \<Longrightarrow> free_set (vpmm s2) = {}"
      using ensure_pd_ok[OF P(1) P(4)[OF True] r2] by blast
    have ls: "leaf_set s2 E' = leaf_set s E" using same_leaves_set[OF P(3)] same_leaves_set[OF Q(2)] by simp
    show thesis
    proof (cases ok2)
      case False
      then have "ok = False" "s' = s2" using r r1 r2 True by (simp_all add: map_page_def)
      then show thesis using that[of D' E'] P Q False ls by simp
    next
      case True
      note W = write_pd_ok[OF Q(1) Q(3)[OF True] a]
      have "ok" "s' = write_pd a s2" using r r1 r2 True \<open>ok1\<close> by (simp_all add: map_page_def)
      moreover have "leaf_set (write_pd a s2) E' = insert (triple a) (leaf_set s2 E')"
        using W(2) by (auto simp: leaf_set_def triple_def)
      ultimately show thesis using that[of D' E'] W(1) P(2) ls by simp
    qed
  qed
qed

lemma map_pages_ok:
  assumes "vm_inv s P D E" "D 0 \<noteq> 0" "\<forall>a \<in> set as. unat a mod 2 ^ 21 = 0 \<and> unat a < 2 ^ 48"
    "map_pages as s = (r, s')"
  shows "\<exists>D' E'. vm_inv s' P D' E' \<and> D' 0 \<noteq> 0 \<and> leaf_set s E \<subseteq> leaf_set s' E' \<and>
    (r = 0 \<longrightarrow> leaf_set s' E' = triple ` set as \<union> leaf_set s E) \<and>
    (r \<noteq> 0 \<longrightarrow> r = -1 \<and> free_set (vpmm s') = {})"
  using assms
proof (induction as arbitrary: s D E)
  case Nil
  then show ?case by auto
next
  case (Cons a as)
  obtain ok s1 where r1: "map_page a s = (ok, s1)" by force
  obtain D1 E1 where M: "vm_inv s1 P D1 E1" "D1 0 \<noteq> 0"
    "leaf_set s1 E1 = (if ok then insert (triple a) (leaf_set s E) else leaf_set s E)"
    "\<not> ok \<Longrightarrow> free_set (vpmm s1) = {}"
    using map_page_ok[OF Cons.prems(1,2) _ _ r1] Cons.prems(3) by auto
  show ?case
  proof (cases ok)
    case False
    then show ?thesis using M Cons.prems(4) r1 by auto
  next
    case True
    then have "map_pages as s1 = (r, s')" using Cons.prems(4) r1 by simp
    from Cons.IH[OF M(1,2) _ this] Cons.prems(3) obtain D' E' where
      "vm_inv s' P D' E'" "D' 0 \<noteq> 0" "leaf_set s1 E1 \<subseteq> leaf_set s' E'"
      "r = 0 \<longrightarrow> leaf_set s' E' = triple ` set as \<union> leaf_set s1 E1"
      "r \<noteq> 0 \<longrightarrow> r = -1 \<and> free_set (vpmm s') = {}" by auto
    then show ?thesis using M(3) True by (intro exI[of _ D'] exI[of _ E']) auto
  qed
qed

lemma walk_leaf_set:
  assumes "vm_inv s P D E" "unat a < 2 ^ 48"
  shows "walk (vmem s) (pml4 s) a = (if triple a \<in> leaf_set s E then Some (a, True) else None)"
  using walk_inv[OF assms] by (simp add: leaf_set_def triple_def)


lemma fold_leaves:
  assumes "vm_inv s P D E" "E 0 g \<noteq> 0" "g < 512" "n \<le> 512"
  shows "vm_inv (s\<lparr>vmem := fold (\<lambda>i. set_ent (E 0 g) i (va 0 g i OR PTE_FLAGS OR PTE_PS)) [0..<n] (vmem s)\<rparr>) P D E \<and>
    leaf_set (s\<lparr>vmem := fold (\<lambda>i. set_ent (E 0 g) i (va 0 g i OR PTE_FLAGS OR PTE_PS)) [0..<n] (vmem s)\<rparr>) E =
      leaf_set s E \<union> {(0, g, k) | k. k < n}"
  using assms(4)
proof (induction n)
  case (Suc n)
  let ?f = "\<lambda>i. set_ent (E 0 g) i (va 0 g i OR PTE_FLAGS OR PTE_PS)"
  let ?m = "fold ?f [0..<n] (vmem s)"
  have IH: "vm_inv (s\<lparr>vmem := ?m\<rparr>) P D E" "leaf_set (s\<lparr>vmem := ?m\<rparr>) E = leaf_set s E \<union> {(0, g, k) | k. k < n}"
    using Suc by auto
  then have L: "layout (free_set (vpmm s)) P D E" "entries ?m P D E" by (simp_all add: vm_inv_def)
  have n: "n < 512" using Suc.prems by simp
  note S = entries_set_leaf[OF L(1) assms(2) n L(2) _ assms(3)]
  have step: "fold ?f [0..<Suc n] (vmem s) = ?f n ?m" by simp
  have "vm_inv (s\<lparr>vmem := ?f n ?m\<rparr>) P D E" using IH(1) S(1) by (simp add: vm_inv_def)
  moreover have "leaf_set (s\<lparr>vmem := ?f n ?m\<rparr>) E = insert (0, g, n) (leaf_set (s\<lparr>vmem := ?m\<rparr>) E)"
    using S(2) n by (auto simp: leaf_set_def)
  ultimately show ?case unfolding step using IH(2) by (auto simp: less_Suc_eq)
qed (use assms in simp)

lemma init_regions_ok:
  assumes "vm_inv s P D E" "D 0 \<noteq> 0" "\<forall>g \<in> set gs. g < 512 \<and> E 0 g = 0" "distinct gs"
    "init_regions (pg (D 0)) gs s = (r, s')"
  shows "\<exists>E'. vm_inv s' P D E' \<and>
    (r = 0 \<longrightarrow> leaf_set s' E' = leaf_set s E \<union> {(0, g, k) | g k. g \<in> set gs \<and> k < 512}) \<and>
    (r \<noteq> 0 \<longrightarrow> r = -1 \<and> free_set (vpmm s') = {})"
  using assms
proof (induction gs arbitrary: s E)
  case Nil
  then show ?case by auto
next
  case (Cons g gs)
  obtain s1 t where al: "alloc_table s = (s1, t)" by force
  have g: "g < 512" "E 0 g = 0" using Cons.prems(3) by auto
  from add_pd[OF Cons.prems(1,2) g(2,1) al] show ?case
  proof (elim disjE exE conjE)
    assume "t = 0" "s1 = s" "free_set (vpmm s) = {}"
    then show ?case using Cons.prems al by auto
  next
    fix T assume T: "t = pg T" "t \<noteq> 0" "T \<noteq> 0" "T < PMM_MAX_PAGES"
      "vm_inv (s1\<lparr>vmem := tab_set (pg (D 0)) g (t OR PTE_FLAGS) (vmem s1)\<rparr>) P D (E(0 := (E 0)(g := T)))"
      "same_leaves s E (s1\<lparr>vmem := tab_set (pg (D 0)) g (t OR PTE_FLAGS) (vmem s1)\<rparr>) (E(0 := (E 0)(g := T)))"
    define s2 where "s2 = s1\<lparr>vmem := tab_set (pg (D 0)) g (t OR PTE_FLAGS) (vmem s1)\<rparr>"
    define E1 where "E1 = E(0 := (E 0)(g := T))"
    define s3 where "s3 = s2\<lparr>vmem := fold (\<lambda>i. set_ent (E1 0 g) i (va 0 g i OR PTE_FLAGS OR PTE_PS)) [0..<512] (vmem s2)\<rparr>"
    have inv2: "vm_inv s2 P D E1" "leaf_set s2 E1 = leaf_set s E"
      using T(5,6) same_leaves_set by (simp_all add: s2_def E1_def)
    have E1: "E1 0 g = T" "\<forall>g' \<in> set gs. g' < 512 \<and> E1 0 g' = 0"
      using Cons.prems(3,4) by (auto simp: E1_def)
    have inv3: "vm_inv s3 P D E1" "leaf_set s3 E1 = leaf_set s E \<union> {(0, g, k) | k. k < 512}"
      using fold_leaves[OF inv2(1) _ g(1), of 512] E1(1) T(3) inv2(2) by (simp_all add: s3_def)
    have "(of_nat g * 0x40000000 + of_nat i * 0x200000 :: u64) = va 0 g i" for i by (simp add: va_def)
    then have "init_regions (pg (D 0)) (g # gs) s = init_regions (pg (D 0)) gs s3"
      using al T(1,2,4) by (simp add: s3_def s2_def E1(1) tab_ent)
    then have "init_regions (pg (D 0)) gs s3 = (r, s')" using Cons.prems(5) by simp
    from Cons.IH[OF inv3(1) Cons.prems(2) E1(2) _ this] Cons.prems(4) obtain E' where
      "vm_inv s' P D E'" "r = 0 \<longrightarrow> leaf_set s' E' = leaf_set s3 E1 \<union> {(0, g, k) | g k. g \<in> set gs \<and> k < 512}"
      "r \<noteq> 0 \<longrightarrow> r = -1 \<and> free_set (vpmm s') = {}" by auto
    then show ?case using inv3(2) by (intro exI[of _ E']) auto
  qed
qed

lemma vmm_init_ok:
  assumes inv: "pmm_inv (vpmm s)" "\<forall>p \<in> free_set (vpmm s). 256 \<le> p" and r: "vmm_init s = (r, s')"
  shows "(\<exists>P D E. vm_inv s' P D E \<and> D 0 \<noteq> 0 \<and> pml4 s' \<noteq> 0 \<and> r = 0 \<and>
      leaf_set s' E = {(0, g, k) | g k. g < 4 \<and> k < 512}) \<or> r = -1 \<and> free_set (vpmm s') = {}"
  using inv
proof (cases rule: alloc_table_cases)
  case none
  then show ?thesis using r by (auto simp: vmm_init_def)
next
  case (new s1 P)
  define s2 where "s2 = s1\<lparr>pml4 := pg P\<rparr>"
  have P0: "P \<noteq> 0" using new(2) by (cases P) auto
  have e2: "ent (vmem s2) P k = 0" if "k < 512" for k using that new(8) by (simp add: s2_def)
  have inv2: "vm_inv s2 P (\<lambda>_. 0) (\<lambda>_ _. 0)"
    using new inv(2) P0 e2 by (simp add: vm_inv_def s2_def layout_def table_page_def entries_def points_def)
  have l2: "leaf_set s2 (\<lambda>_ _. 0) = {}" by (simp add: leaf_set_def leaf_def)
  obtain s3 t where al: "alloc_table s2 = (s3, t)" by force
  from add_pdpt[OF inv2 _ _ al, of 0, simplified] show ?thesis
  proof (elim disjE exE conjE)
    assume "t = 0" "s3 = s2" "free_set (vpmm s2) = {}"
    then show ?thesis using r new(1,2) al by (auto simp: vmm_init_def s2_def[symmetric])
  next
    fix T assume T: "t = pg T" "t \<noteq> 0" "0 < T"
      "vm_inv (s3\<lparr>vmem := tab_set (pml4 s3) 0 (t OR PTE_FLAGS) (vmem s3)\<rparr>) P ((\<lambda>_. 0)(0 := T)) (\<lambda>_ _. 0)"
      "same_leaves s2 (\<lambda>_ _. 0) (s3\<lparr>vmem := tab_set (pml4 s3) 0 (t OR PTE_FLAGS) (vmem s3)\<rparr>) (\<lambda>_ _. 0)"
    define s4 where "s4 = s3\<lparr>vmem := tab_set (pml4 s3) 0 (t OR PTE_FLAGS) (vmem s3)\<rparr>"
    define D :: "nat \<Rightarrow> nat" where "D = (\<lambda>_. 0)(0 := T)"
    have D0: "D 0 = T" "D 0 \<noteq> 0" using T(3) by (simp_all add: D_def)
    have inv4: "vm_inv s4 P D (\<lambda>_ _. 0)" using T(4) by (simp only: s4_def D_def)
    have l4: "leaf_set s4 (\<lambda>_ _. 0) = {}" using same_leaves_set[OF T(5)] l2 by (simp add: s4_def)
    have p3: "pml4 s3 = pg P" using T(4) by (simp add: vm_inv_def)
    have "init_regions (pg (D 0)) [0..<4] s4 = (r, s')"
      using r new(1,2) al T(1,2) p3 D0(1) by (simp add: vmm_init_def s2_def[symmetric] s4_def)
    from init_regions_ok[OF inv4 D0(2) _ _ this] l4 obtain E where E: "vm_inv s' P D E"
      "r = 0 \<longrightarrow> leaf_set s' E = {(0, g, k) | g k. g < 4 \<and> k < 512}"
      "r \<noteq> 0 \<longrightarrow> r = -1 \<and> free_set (vpmm s') = {}" by auto
    then have "pml4 s' \<noteq> 0" using new(2) by (simp add: vm_inv_def)
    then show ?thesis using E D0(2) by (cases "r = 0") auto
  qed
qed


section \<open>The mapped range\<close>

lemma multiple_step: "x mod n = 0 \<Longrightarrow> y mod n = 0 \<Longrightarrow> x < y \<Longrightarrow> x + n \<le> (y :: nat)"
  using dvd_imp_le[of n "y - x"] by (auto simp: mod_eq_0_iff_dvd intro: dvd_diff_nat)

lemma multiple_below: "x mod n = 0 \<Longrightarrow> x \<le> a \<Longrightarrow> x \<le> a div n * (n :: nat)"
  using div_le_mono[of x a n] div_mult_mod_eq[of x n] mult_le_mono1[of "x div n" "a div n" n] by simp

lemma range_2m_set:
  assumes "unat start mod 2 ^ 21 = 0" "unat end mod 2 ^ 21 = 0"
  shows "set (range_2m start end) = {a. unat a mod 2 ^ 21 = 0 \<and> start \<le> a \<and> a < end}"
proof (intro equalityI subsetI)
  fix a assume "a \<in> set (range_2m start end)"
  then obtain k where k: "a = start + of_nat k * 0x200000" "k < (unat end - unat start) div 0x200000"
    by (auto simp: range_2m_def)
  have "(k + 1) * 0x200000 \<le> (unat end - unat start) div 0x200000 * 0x200000" using k(2) by (intro mult_le_mono1) simp
  also have "\<dots> \<le> unat end - unat start" by simp
  finally have le: "unat start + k * 0x200000 < unat end" by simp
  have "unat end < 2 ^ LENGTH(64)" by (rule unsigned_less)
  then have "unat start + k * 0x200000 < 2 ^ 64" using le by simp
  moreover have "a = of_nat (unat start + k * 0x200000)" using k(1) by simp
  ultimately have u: "unat a = unat start + k * 0x200000" using unat_of_nat_u64 by blast
  then show "a \<in> {a. unat a mod 2 ^ 21 = 0 \<and> start \<le> a \<and> a < end}"
    using le assms(1) by (auto simp: word_le_nat_alt word_less_nat_alt)
next
  fix a assume "a \<in> {a. unat a mod 2 ^ 21 = 0 \<and> start \<le> a \<and> a < end}"
  then have a: "unat a mod 2 ^ 21 = 0" "unat start \<le> unat a" "unat a < unat end"
    by (auto simp: word_le_nat_alt word_less_nat_alt)
  have dv: "(2 ^ 21 :: nat) dvd unat start" "(2 ^ 21 :: nat) dvd unat a" "(2 ^ 21 :: nat) dvd unat end"
    using a(1) assms by (simp_all only: mod_eq_0_iff_dvd)
  then have "(2 ^ 21 :: nat) dvd unat a - unat start" by (intro dvd_diff_nat)
  then obtain k where "unat a - unat start = 2 ^ 21 * k" by (rule dvdE)
  then have k: "unat a = unat start + k * 0x200000" using a(2) by simp
  then have "(of_nat (unat a) :: u64) = start + of_nat k * 0x200000" by simp
  then have ka: "a = start + of_nat k * 0x200000" by simp
  have "(2 ^ 21 :: nat) dvd unat end - unat start" using dv by (intro dvd_diff_nat)
  then obtain n where n: "unat end - unat start = 2 ^ 21 * n" by (rule dvdE)
  then have "k < n" using a(3) k by simp
  then show "a \<in> set (range_2m start end)" using ka n by (auto simp: range_2m_def)
qed

lemma page_of:
  "unat (a AND NOT 0x1FFFFF :: u64) = unat a div 2 ^ 21 * 2 ^ 21"
  using unat_clear_low[of 21 a] by simp

lemma triple_page: "triple (a AND NOT 0x1FFFFF) = triple a"
proof -
  have "unat a div 2 ^ 21 * 2 ^ 21 div 2 ^ 21 = unat a div 2 ^ 21" by simp
  moreover have "x div 2 ^ 30 = x div 2 ^ 21 div 2 ^ 9" "x div 2 ^ 39 = x div 2 ^ 21 div 2 ^ 18" for x :: nat
    by (simp_all add: div_mult2_eq[symmetric])
  ultimately show ?thesis by (simp only: triple_def index_nat page_of)
qed

text \<open>Within the lower half of the address space an address is determined by its triple and offset.\<close>

lemma triple_eq:
  assumes "triple a = triple b" "unat a < 2 ^ 48" "unat b < 2 ^ 48"
  shows "a AND NOT 0x1FFFFF = b AND NOT 0x1FFFFF"
  using assms va_index[OF assms(2)] va_index[OF assms(3)] by (simp add: triple_def)

lemma triple_image:
  assumes "end \<le> 2 ^ 48" "unat start mod 2 ^ 21 = 0" "unat end mod 2 ^ 21 = 0" "unat a < 2 ^ 48"
  shows "triple a \<in> triple ` set (range_2m start end) \<longleftrightarrow> start \<le> a \<and> a < end"
proof
  assume "triple a \<in> triple ` set (range_2m start end)"
  then obtain b where b: "triple a = triple b" "unat b mod 2 ^ 21 = 0" "start \<le> b" "b < end"
    using range_2m_set[OF assms(2,3)] by auto
  have "unat b < 2 ^ 48" using b(4) assms(1) by (simp add: word_less_nat_alt word_le_nat_alt)
  from triple_eq[OF b(1) assms(4) this] have "unat a div 2 ^ 21 * 2 ^ 21 = unat b div 2 ^ 21 * 2 ^ 21"
    using page_of[of a] page_of[of b] by simp
  moreover have "unat b div 2 ^ 21 * 2 ^ 21 = unat b"
    using div_mult_mod_eq[of "unat b" "2 ^ 21"] by (simp only: b(2) add_0_right)
  ultimately have "unat b + unat a mod 2 ^ 21 = unat a"
    using div_mult_mod_eq[of "unat a" "2 ^ 21"] by (simp only:)
  moreover have "unat a mod 2 ^ 21 < 2 ^ 21" by simp
  ultimately have "unat b \<le> unat a" "unat a < unat b + 2 ^ 21" by linarith+
  moreover have "unat b + 2 ^ 21 \<le> unat end"
    using b(4) by (intro multiple_step[OF b(2) assms(3)]) (simp only: word_less_nat_alt)
  ultimately show "start \<le> a \<and> a < end" using b(3) by (auto simp: word_le_nat_alt word_less_nat_alt)
next
  assume a: "start \<le> a \<and> a < end"
  have "unat start \<le> unat (a AND NOT 0x1FFFFF)" "unat (a AND NOT 0x1FFFFF) < unat end"
    using a multiple_below[OF assms(2), of "unat a"] div_times_less_eq_dividend[of "unat a" "2 ^ 21"]
    unfolding page_of word_le_nat_alt word_less_nat_alt by linarith+
  then have "a AND NOT 0x1FFFFF \<in> set (range_2m start end)"
    using range_2m_set[OF assms(2,3)] page_of[of a] by (auto simp: word_le_nat_alt word_less_nat_alt)
  then show "triple a \<in> triple ` set (range_2m start end)" using triple_page[of a] by (metis image_eqI)
qed


subsection \<open>Enough pages\<close>

lemma alloc_table_card:
  assumes "pmm_inv (vpmm s)" "\<forall>p \<in> free_set (vpmm s). 256 \<le> p" "n < card (free_set (vpmm s))"
  obtains s' t where "alloc_table s = (s', t)" "t \<noteq> 0" "pmm_inv (vpmm s')"
    "\<forall>p \<in> free_set (vpmm s'). 256 \<le> p" "n \<le> card (free_set (vpmm s'))"
  using assms(1,2)
proof (cases rule: alloc_table_cases)
  case none
  then show ?thesis using assms(3) by simp
next
  case (new s' T)
  then show ?thesis using that[of s' "pg T"] assms(2,3) by simp
qed

lemma init_regions_succeeds:
  assumes "pmm_inv (vpmm s)" "\<forall>p \<in> free_set (vpmm s). 256 \<le> p" "length gs \<le> card (free_set (vpmm s))"
  shows "fst (init_regions pdpt gs s) = 0"
  using assms
proof (induction gs arbitrary: s)
  case (Cons g gs)
  have "length gs < card (free_set (vpmm s))" using Cons.prems(3) by simp
  with Cons.prems(1,2) obtain s' t where "alloc_table s = (s', t)" "t \<noteq> 0" "pmm_inv (vpmm s')"
    "\<forall>p \<in> free_set (vpmm s'). 256 \<le> p" "length gs \<le> card (free_set (vpmm s'))"
    by (rule alloc_table_card)
  then show ?case using Cons.IH by simp
qed simp

lemma vmm_init_succeeds:
  assumes "pmm_inv (vpmm s)" "\<forall>p \<in> free_set (vpmm s). 256 \<le> p" "6 \<le> card (free_set (vpmm s))"
  shows "fst (vmm_init s) = 0"
proof -
  from assms(3) have "5 < card (free_set (vpmm s))" by simp
  with assms(1,2) obtain s1 t1 where a1: "alloc_table s = (s1, t1)" "t1 \<noteq> 0" "pmm_inv (vpmm s1)"
    "\<forall>p \<in> free_set (vpmm s1). 256 \<le> p" "5 \<le> card (free_set (vpmm s1))" by (rule alloc_table_card)
  let ?s2 = "s1\<lparr>pml4 := t1\<rparr>"
  from a1(3-5) have "pmm_inv (vpmm ?s2)" "\<forall>p \<in> free_set (vpmm ?s2). 256 \<le> p" "4 < card (free_set (vpmm ?s2))"
    by simp_all
  then obtain s3 t3 where "alloc_table ?s2 = (s3, t3)" "t3 \<noteq> 0" "pmm_inv (vpmm s3)"
    "\<forall>p \<in> free_set (vpmm s3). 256 \<le> p" "4 \<le> card (free_set (vpmm s3))" by (rule alloc_table_card)
  then show ?thesis using a1(1,2) by (simp add: vmm_init_def init_regions_succeeds del: upt_rec_numeral)
qed

section \<open>Properties\<close>

text \<open>
  C4. After \<open>vmm_init\<close> succeeds, the processor translates every address below 4 GiB to itself,
  writable and accessible to user code, and no address from 4 GiB up to the end of the
  lower half is mapped. Six free pages are enough for it to succeed; it fails only when the
  page allocator has run out of pages.
\<close>

theorem vmm_init_identity:
  assumes "pmm_inv (vpmm s)" "\<forall>p \<in> free_set (vpmm s). 256 \<le> p" "vmm_init s = (r, s')"
  shows "(r = 0 \<and> (\<forall>a. unat a < 2 ^ 48 \<longrightarrow>
      walk (vmem s') (pml4 s') a = (if unat a < 2 ^ 32 then Some (a, True) else None)) \<or>
    r = -1 \<and> free_set (vpmm s') = {}) \<and> (6 \<le> card (free_set (vpmm s)) \<longrightarrow> r = 0)"
proof -
  have "walk (vmem s') (pml4 s') a = (if unat a < 2 ^ 32 then Some (a, True) else None)"
    if inv: "vm_inv s' P D E" and leaves: "leaf_set s' E = {(0, g, k) | g k. g < 4 \<and> k < 512}" and a: "unat a < 2 ^ 48"
    for P D E a
  proof -
    have "triple a \<in> leaf_set s' E \<longleftrightarrow> unat a div 2 ^ 39 mod 512 = 0 \<and> unat a div 2 ^ 30 mod 512 < 4"
      using index_less(3)[of a] by (simp add: leaves triple_def index_nat)
    also have "\<dots> \<longleftrightarrow> unat a < 2 ^ 32"
    proof -
      define q where "q = unat a div 2 ^ 30"
      have q: "unat a div 2 ^ 39 = q div 512" "q < 2 ^ 18" "q < 4 \<longleftrightarrow> unat a < 2 ^ 32"
        using a by (simp_all add: q_def div_mult2_eq[symmetric] div_less_iff_less_mult)
      then have "q div 512 < 512" by (simp add: div_less_iff_less_mult)
      then have "q div 512 mod 512 = 0 \<and> q mod 512 < 4 \<longleftrightarrow> q < 4" by (auto simp: div_eq_0_iff)
      then show ?thesis unfolding q(1) q(3)[symmetric] unfolding q_def[symmetric] by assumption
    qed
    finally show ?thesis using walk_leaf_set[OF inv a] by simp
  qed
  then show ?thesis using vmm_init_ok[OF assms] vmm_init_succeeds[OF assms(1,2)] assms(3) by auto
qed

definition demo_vmm :: vmm where
  "demo_vmm = \<lparr>vmem = (\<lambda>_. 0), vpmm = demo_pmm, pml4 = 0\<rparr>"

lemma demo_vmm_pmm: "pmm_inv (vpmm demo_vmm)" "\<forall>p \<in> free_set (vpmm demo_vmm). 256 \<le> p"
  "6 \<le> card (free_set (vpmm demo_vmm))"
  by (simp_all add: demo_vmm_def demo_pmm_inv demo_pmm_free)

theorem vmm_init_identity_witness:
  "\<exists>s'. vmm_init demo_vmm = (0, s') \<and> walk (vmem s') (pml4 s') 0xFEC00123 = Some (0xFEC00123, True) \<and>
     walk (vmem s') (pml4 s') 0x100000000 = None"
proof -
  obtain r s' where r: "vmm_init demo_vmm = (r, s')" by force
  note I = vmm_init_identity[OF demo_vmm_pmm(1,2) r]
  then have "r = 0" using demo_vmm_pmm(3) by blast
  moreover from this I have "walk (vmem s') (pml4 s') 0xFEC00123 = Some (0xFEC00123, True)"
    "walk (vmem s') (pml4 s') 0x100000000 = None" by simp_all
  ultimately show ?thesis using r by blast
qed



end
