(* ===== verification/Heap_Session.thy ===== *)
theory Heap_Session
  imports Heap_Inv
begin

text \<open>
  Clients of the kernel heap: sequences of allocations, releases and writes to the memory
  they were given, and the properties of the heap that all such sequences have.
\<close>

section \<open>Sessions\<close>

datatype heap_req = Kmalloc u64 u64 | Kfree nat | Poke nat nat u8

text \<open>
  \<open>live\<close> lists the pointers the client holds together with the bytes it expects there: the
  poison value after an allocation, then whatever it wrote.
\<close>

fun heap_serve :: "heap_req \<Rightarrow> heap \<times> (u64 \<times> u8 list) list \<Rightarrow> (heap \<times> (u64 \<times> u8 list) list) option" where
  "heap_serve (Kmalloc n align) (s, live) =
     do {
       (p, s') \<leftarrow> kmalloc_aligned n align s;
       Some (s', if p = 0 then live else (p, replicate (unat n) HEAP_POISON_ALLOC) # live)
     }"
| "heap_serve (Kfree i) (s, live) =
     (if i < length live
      then do { s' \<leftarrow> kfree (fst (live ! i)) s; Some (s', take i live @ drop (Suc i) live) }
      else Some (s, live))"
| "heap_serve (Poke i k v) (s, live) =
     (if i < length live \<and> k < length (snd (live ! i))
      then Some (on_mem (\<lambda>m. m(unat (fst (live ! i)) + k := v)) s,
                 live[i := (fst (live ! i), (snd (live ! i))[k := v])])
      else Some (s, live))"

fun heap_run :: "heap_req list \<Rightarrow> heap \<times> (u64 \<times> u8 list) list \<Rightarrow> (heap \<times> (u64 \<times> u8 list) list) option" where
  "heap_run [] st = Some st"
| "heap_run (q # qs) st = do { st' \<leftarrow> heap_serve q st; heap_run qs st' }"

fun heap_req_ok :: "heap_req \<Rightarrow> bool" where
  "heap_req_ok (Kmalloc n align) = request_ok n align"
| "heap_req_ok _ = True"

definition holds :: "mem \<Rightarrow> u64 \<times> u8 list \<Rightarrow> block \<Rightarrow> bool" where
  "holds m r x \<longleftrightarrow> owns m (unat (fst r)) (length (snd r)) x \<and>
     mem_load m (unat (fst r)) (length (snd r)) = snd r"

definition user_range :: "u64 \<times> u8 list \<Rightarrow> nat set" where
  "user_range r = {unat (fst r)..<unat (fst r) + length (snd r)}"

text \<open>
  \<open>F\<close> are the bytes outside the heap's reach and \<open>m0\<close> the memory when it was set up.
\<close>

definition session_ok :: "nat set \<Rightarrow> mem \<Rightarrow> heap \<times> (u64 \<times> u8 list) list \<Rightarrow> bool" where
  "session_ok F m0 st \<longleftrightarrow> (\<exists>fl bl. heap_ok (fst st) fl bl \<and> heap_ready (fst st) \<and>
     list_all2 (holds (hmem (fst st))) (snd st) bl \<and> agree F m0 (hmem (fst st)) \<and>
     foreign (fst st) fl = F \<union> cover bl \<and> F \<inter> cover bl = {})"

lemma owns_inside: "owns m p n x \<Longrightarrow> {p..<p + n} \<subseteq> {fst x + 24..<fst x + 24 + snd x}"
  by (auto simp: owns_def)

lemma holds_agree:
  assumes "agree (region x) m m'" "holds m r x"
  shows "holds m' r x"
proof -
  let ?p = "unat (fst r)" and ?n = "length (snd r)"
  have o: "owns m ?p ?n x" "mem_load m ?p ?n = snd r" using assms(2) by (auto simp: holds_def)
  have e: "m a = m' a" if "fst x \<le> a" "a < fst x + 24 + snd x" for a
    using assms(1) that by (auto simp: agree_def region_def)
  have "rd64 m (?p - 8) = rd64 m' (?p - 8)" if "fst x + 32 \<le> ?p"
    using o(1) that by (intro rd64_cong e) (auto simp: owns_def)
  then have "owns m' ?p ?n x" using o(1) by (auto simp: owns_def)
  moreover have "mem_load m' ?p ?n = mem_load m ?p ?n"
    using owns_inside[OF o(1)] by (auto simp: mem_load_def intro!: e[symmetric])
  ultimately show ?thesis using o(2) by (simp add: holds_def)
qed

lemma list_holds_agree:
  assumes "list_all2 (holds m) live bl" "agree (cover bl) m m'"
  shows "list_all2 (holds m') live bl"
  using assms
proof (induction rule: list_all2_induct)
  case (Cons r live x bl)
  have "agree (region x) m m'" "agree (cover bl) m m'"
    using agree_subset[OF Cons.prems] by auto
  then show ?case using Cons holds_agree by simp
qed simp

lemma session_kmalloc:
  assumes inv: "session_ok F m0 (s, live)" and req: "request_ok n align"
  obtains st where "heap_serve (Kmalloc n align) (s, live) = Some st" "session_ok F m0 st"
proof -
  obtain fl bl where I: "heap_ok s fl bl" "heap_ready s" "list_all2 (holds (hmem s)) live bl"
    "agree F m0 (hmem s)" "foreign s fl = F \<union> cover bl" "F \<inter> cover bl = {}"
    using inv by (auto simp: session_ok_def)
  show thesis
  proof (cases "n = 0")
    case True
    then have "heap_serve (Kmalloc n align) (s, live) = Some (s, live)"
      by (simp add: kmalloc_aligned_def)
    then show thesis using that inv by simp
  next
    case False
    from I(1,2) req False show thesis
    proof (cases rule: kmalloc_aligned_cases)
      case fail
      then show thesis using that inv by simp
    next
      case (success s' ptr)
      obtain fl' x where A: "heap_ok s' fl' (x # bl)" "ptr \<noteq> 0" "owns (hmem s') (unat ptr) (unat n) x"
        "mem_load (hmem s') (unat ptr) (unat n) = replicate (unat n) HEAP_POISON_ALLOC"
        "agree (foreign s fl) (hmem s) (hmem s')" "heap_ready s' = heap_ready s"
        "foreign s' fl' = foreign s fl \<union> region x" "foreign s fl \<inter> region x = {}"
        using success(2) unfolding allocated_def by blast
      let ?r = "(ptr, replicate (unat n) HEAP_POISON_ALLOC)"
      have "list_all2 (holds (hmem s')) live bl"
        using list_holds_agree[OF I(3) agree_subset[OF A(5)]] I(5) by simp
      moreover have "holds (hmem s') ?r x" using A(3,4) by (simp add: holds_def)
      moreover have "agree F m0 (hmem s')"
        using agree_trans[OF I(4) agree_subset[OF A(5)]] I(5) by simp
      ultimately have "session_ok F m0 (s', ?r # live)"
        unfolding session_ok_def using A I
        by (intro exI[of _ fl'] exI[of _ "x # bl"]) auto
      moreover have "heap_serve (Kmalloc n align) (s, live) = Some (s', ?r # live)"
        using success(1) A(2) by simp
      ultimately show thesis using that by blast
    qed
  qed
qed

lemma session_kfree:
  assumes inv: "session_ok F m0 (s, live)"
  obtains st where "heap_serve (Kfree i) (s, live) = Some st" "session_ok F m0 st"
proof (cases "i < length live")
  case False
  then show thesis using that inv by simp
next
  case True
  obtain fl bl where I: "heap_ok s fl bl" "heap_ready s" "list_all2 (holds (hmem s)) live bl"
    "agree F m0 (hmem s)" "foreign s fl = F \<union> cover bl" "F \<inter> cover bl = {}"
    using inv by (auto simp: session_ok_def)
  have len: "length live = length bl" using I(3) by (rule list_all2_lengthD)
  define x where "x = bl ! i"
  have bl: "bl = take i bl @ x # drop (Suc i) bl" using True len by (simp add: x_def id_take_nth_drop)
  have own: "owns (hmem s) (unat (fst (live ! i))) (length (snd (live ! i))) x"
    using I(3) True by (auto simp: holds_def x_def list_all2_conv_all_nth)
  have ok': "heap_ok s fl (take i bl @ x # drop (Suc i) bl)" by (subst bl[symmetric]) (rule I(1))
  define bl' where "bl' = take i bl @ drop (Suc i) bl"
  obtain s' fl' where K: "kfree (fst (live ! i)) s = Some s'" "heap_ok s' fl' bl'"
    "agree (foreign s fl - region x) (hmem s) (hmem s')" "heap_ready s'"
    "foreign s' fl' = foreign s fl - region x"
    using kfree_ok[OF ok' I(2) own] unfolding bl'_def by blast
  have cov: "cover bl = region x \<union> cover bl'" by (subst bl) (auto simp: bl'_def)
  have dis: "region x \<inter> cover bl' = {}"
    using ok' by (auto simp: heap_ok_def disj_append bl'_def)
  have sub: "F \<union> cover bl' \<subseteq> foreign s fl - region x" using I(5,6) cov dis by auto
  have "list_all2 (holds (hmem s)) (take i live @ drop (Suc i) live) bl'"
    unfolding bl'_def by (intro list_all2_appendI list_all2_takeI list_all2_dropI I(3))
  then have "list_all2 (holds (hmem s')) (take i live @ drop (Suc i) live) bl'"
    using sub by (elim list_holds_agree) (auto intro: agree_subset[OF K(3)])
  moreover have "agree F m0 (hmem s')"
    using agree_trans[OF I(4) agree_subset[OF K(3)]] sub by simp
  ultimately have "session_ok F m0 (s', take i live @ drop (Suc i) live)"
    unfolding session_ok_def using K(2,4,5) I(5,6) cov dis
    by (intro exI[of _ fl'] exI[of _ bl']) auto
  moreover have "heap_serve (Kfree i) (s, live) = Some (s', take i live @ drop (Suc i) live)"
    using True K(1) by simp
  ultimately show thesis using that by blast
qed

lemma disj_mem: "disj xs \<Longrightarrow> x \<in> set xs \<Longrightarrow> y \<in> set xs \<Longrightarrow> x \<noteq> y \<Longrightarrow> region x \<inter> region y = {}"
  by (induction xs) (auto simp: cover_def)

lemma heap_ok_user_write:
  assumes ok: "heap_ok s fl bl" and x: "x \<in> set bl" and
    u: "agree (- {fst x + 24..<fst x + 24 + snd x}) (hmem s) m'"
  shows "heap_ok (s\<lparr>hmem := m'\<rparr>) fl bl"
proof -
  have H: "seg (hmem s) (free_list s) fl 0" "disj (fl @ bl)"
    "\<forall>y \<in> set bl. hdr (hmem s) (fst y) HEAP_MAGIC_ALLOC (snd y)" using ok by (simp_all add: heap_ok_def)
  have ux: "{fst x + 24..<fst x + 24 + snd x} \<subseteq> region x" by (auto simp: region_def)
  then have "cover fl \<inter> {fst x + 24..<fst x + 24 + snd x} = {}" using H(2) x by (auto simp: disj_append cover_def)
  then have "agree (cover fl) (hmem s) m'" using u by (auto simp: agree_def)
  then have "seg m' (free_list s) fl 0"
    using H(1) seg_cong[of fl "hmem s" m'] by (auto simp: agree_def cover_def)
  moreover have "hdr m' (fst y) HEAP_MAGIC_ALLOC (snd y)" if y: "y \<in> set bl" for y
  proof -
    have "{fst y..<fst y + 24} \<inter> {fst x + 24..<fst x + 24 + snd x} = {}"
    proof (cases "y = x")
      case False
      have "region y \<inter> region x = {}"
        using H(2) x y False disj_mem[of bl y x] by (simp add: disj_append)
      then show ?thesis using ux header_in_region[of y] by blast
    qed simp
    then have "agree {fst y..<fst y + 24} (hmem s) m'" using u by (auto simp: agree_def)
    then show ?thesis using hdr_cong(1) H(3) y by blast
  qed
  ultimately show ?thesis using ok by (simp add: heap_ok_def)
qed

lemma heap_ok_poke:
  assumes "heap_ok s fl bl" "x \<in> set bl" "fst x + 24 \<le> a" "a < fst x + 24 + snd x"
  shows "heap_ok (on_mem (\<lambda>m. m(a := v)) s) fl bl"
  using heap_ok_user_write[OF assms(1,2), of "(hmem s)(a := v)"] assms(3,4) by (auto simp: agree_def)

lemma session_poke:
  assumes inv: "session_ok F m0 (s, live)"
  obtains st where "heap_serve (Poke i k v) (s, live) = Some st" "session_ok F m0 st"
proof (cases "i < length live \<and> k < length (snd (live ! i))")
  case False
  then have "heap_serve (Poke i k v) (s, live) = Some (s, live)" by auto
  then show thesis using that inv by blast
next
  case True
  obtain fl bl where I: "heap_ok s fl bl" "heap_ready s" "list_all2 (holds (hmem s)) live bl"
    "agree F m0 (hmem s)" "foreign s fl = F \<union> cover bl" "F \<inter> cover bl = {}"
    using inv by (auto simp: session_ok_def)
  have len: "length live = length bl" using I(3) by (rule list_all2_lengthD)
  obtain p cs where r: "live ! i = (p, cs)" by force
  define x where "x = bl ! i"
  define a where "a = unat p + k"
  let ?m' = "(hmem s)(a := v)"
  have x: "x \<in> set bl" "holds (hmem s) (p, cs) x"
    using I(3) True len r by (auto simp: x_def list_all2_conv_all_nth)
  have own: "owns (hmem s) (unat p) (length cs) x" "mem_load (hmem s) (unat p) (length cs) = cs"
    using x(2) by (auto simp: holds_def)
  have k: "k < length cs" using True r by simp
  have a: "fst x + 24 \<le> a" "a < fst x + 24 + snd x"
    using owns_inside[OF own(1)] k by (auto simp: a_def owns_def)
  then have ax: "a \<in> region x" by (simp add: region_def)
  have "holds ?m' (p, cs[k := v]) x"
  proof -
    have "rd64 ?m' (unat p - 8) = rd64 (hmem s) (unat p - 8)" if "fst x + 32 \<le> unat p"
      using that by (intro rd64_cong) (auto simp: a_def)
    then have "owns ?m' (unat p) (length cs) x" using own(1) by (auto simp: owns_def)
    moreover have "mem_load ?m' (unat p) (length cs) = cs[k := v]"
      using own(2) by (intro nth_equalityI) (auto simp: a_def nth_list_update mem_load_def map_equality_iff, metis nth_mem_load own(2))
    ultimately show ?thesis by (simp add: holds_def)
  qed
  moreover have "holds ?m' (live ! j) (bl ! j)" if "j < length live" "j \<noteq> i" for j
  proof -
    have "disj bl" using I(1) by (simp add: heap_ok_def disj_append)
    then have "region (bl ! j) \<inter> region (bl ! i) = {}"
      using that True len by (auto simp: disj_def sorted_wrt_iff_nth_less) (metis Int_iff empty_iff nat_neq_iff)
    then have "agree (region (bl ! j)) (hmem s) ?m'" using ax by (auto simp: agree_def x_def)
    then show ?thesis using holds_agree I(3) that by (auto simp: list_all2_conv_all_nth)
  qed
  ultimately have L: "list_all2 (holds ?m') (live[i := (p, cs[k := v])]) bl"
    using len True by (auto simp: list_all2_conv_all_nth nth_list_update x_def)
  have "a \<notin> F" using ax x(1) I(6) by (auto simp: cover_def)
  then have "agree F m0 ?m'" using I(4) by (auto simp: agree_def)
  then have "session_ok F m0 (on_mem (\<lambda>m. m(a := v)) s, live[i := (p, cs[k := v])])"
    unfolding session_ok_def using heap_ok_poke[OF I(1) x(1) a] I L
    by (intro exI[of _ fl] exI[of _ bl]) (simp add: foreign_def)
  then show thesis using that True r by (simp add: a_def)
qed

lemma session_run:
  assumes "session_ok F m0 st" "list_all heap_req_ok reqs"
  obtains st' where "heap_run reqs st = Some st'" "session_ok F m0 st'"
proof -
  have "\<exists>st'. heap_run reqs st = Some st' \<and> session_ok F m0 st'"
    using assms
  proof (induction reqs arbitrary: st)
    case (Cons q reqs)
    obtain s live where st: "st = (s, live)" by force
    have "\<exists>st1. heap_serve q (s, live) = Some st1 \<and> session_ok F m0 st1"
    proof (cases q)
      case (Kmalloc n align)
      have "request_ok n align" using Cons.prems(2) Kmalloc by simp
      from session_kmalloc[OF Cons.prems(1)[unfolded st] this] show ?thesis unfolding Kmalloc by blast
    next
      case (Kfree i)
      show ?thesis
        using session_kfree[OF Cons.prems(1)[unfolded st], of i] unfolding Kfree by blast
    next
      case (Poke i k v)
      show ?thesis
        using session_poke[OF Cons.prems(1)[unfolded st], of i k v] unfolding Poke by blast
    qed
    then show ?case using Cons st by (auto simp del: heap_serve.simps)
  qed simp
  then show thesis using that by blast
qed


lemma holds_ranges:
  assumes "heap_ok s fl bl" "list_all2 (holds (hmem s)) live bl"
  shows "sorted_wrt (\<lambda>r r'. user_range r \<inter> user_range r' = {}) live"
    "\<forall>r \<in> set live. user_range r \<subseteq> cover bl \<and> mem_load (hmem s) (unat (fst r)) (length (snd r)) = snd r"
proof -
  have in_reg: "user_range (live ! i) \<subseteq> region (bl ! i)" if "i < length live" for i
    using assms(2) that owns_inside[of "hmem s" _ _ "bl ! i"]
    by (fastforce simp: list_all2_conv_all_nth holds_def user_range_def region_def)
  have "disj bl" using assms(1) by (simp add: heap_ok_def disj_append)
  then show "sorted_wrt (\<lambda>r r'. user_range r \<inter> user_range r' = {}) live"
    unfolding disj_def sorted_wrt_iff_nth_less
  proof (intro allI impI)
    fix i j assume d: "\<forall>i j. i < j \<longrightarrow> j < length bl \<longrightarrow> region (bl ! i) \<inter> region (bl ! j) = {}" and
      ij: "i < j" "j < length live"
    then have "region (bl ! i) \<inter> region (bl ! j) = {}" using list_all2_lengthD[OF assms(2)] by simp
    then show "user_range (live ! i) \<inter> user_range (live ! j) = {}"
      using in_reg[of i] in_reg[of j] ij by auto
  qed
  show "\<forall>r \<in> set live. user_range r \<subseteq> cover bl \<and> mem_load (hmem s) (unat (fst r)) (length (snd r)) = snd r"
  proof
    fix r assume "r \<in> set live"
    then obtain i where i: "i < length live" "r = live ! i" by (auto simp: in_set_conv_nth)
    then have "bl ! i \<in> set bl" using list_all2_lengthD[OF assms(2)] by simp
    then have "region (bl ! i) \<subseteq> cover bl" by (auto simp: cover_def)
    then show "user_range r \<subseteq> cover bl \<and> mem_load (hmem s) (unat (fst r)) (length (snd r)) = snd r"
      using in_reg[OF i(1)] i assms(2) by (auto simp: list_all2_conv_all_nth holds_def)
  qed
qed

section \<open>Properties\<close>



text \<open>A machine with sixteen free pages from 1 MiB on and an empty heap.\<close>

definition demo_heap :: heap where
  "demo_heap = \<lparr>hmem = (\<lambda>_. 0), hpmm = demo_pmm, free_list = 0, heap_total = 0, heap_used = 0,
     heap_ready = False\<rparr>"

lemma demo_heap_pmm: "pmm_inv (hpmm demo_heap)" "\<forall>p \<in> free_set (hpmm demo_heap). 256 \<le> p"
  by (simp_all add: demo_heap_def demo_pmm_inv demo_pmm_free)

lemma demo_heap_init: "\<exists>s fl. heap_init demo_heap = Some (0, s) \<and> heap_ok s fl [] \<and> heap_ready s"
  using demo_heap_pmm
proof (cases rule: heap_init_cases)
  case fail
  then have "\<not> {256..<256 + 16} \<subseteq> free_set (hpmm demo_heap)" by blast
  then show ?thesis by (simp add: demo_heap_def demo_pmm_free)
qed auto



text \<open>The same machine with the heap marked ready but without any block yet.\<close>

definition empty_heap :: heap where
  "empty_heap = demo_heap\<lparr>heap_ready := True\<rparr>"

lemma empty_heap_ok: "heap_ok empty_heap [] []"
  by (simp add: heap_ok_def empty_heap_def demo_heap_def demo_pmm_inv demo_pmm_free page_set_def)





lemma take_block_ptr:
  "take_block pp need n align over s = Some (ptr, s') \<Longrightarrow> ptr = place_user (read_link s pp) align over"
  by (auto simp: take_block_def Let_def split: bind_splits)

lemma kmalloc_first_block:
  assumes ok: "heap_ok s ((a, m) # fl) bl" and ready: "heap_ready s" and n: "n \<noteq> 0" "unat n + 15 \<le> m"
  obtains s' where "kmalloc n s = Some (of_nat (a + 24), s')"
proof -
  define need where "need = (if align_up n HEAP_ALIGN < 16 then 16 else align_up n HEAP_ALIGN)"
  have seg: "seg (hmem s) (free_list s) ((a, m) # fl) 0" "wfl ((a, m) # fl)" using ok by (simp_all add: heap_ok_def)
  have lim: "a + 24 + m \<le> 2 ^ 32" using seg(2) by (simp add: block_ok_def)
  have "unat n < 2 ^ 63" "0 < unat n" using n lim by (simp_all add: unat_gt_0)
  then have need: "unat need = (unat n + 15) div 16 * 16"
    using align_up_16[of n] by (auto simp: need_def word_less_nat_alt)
  then have le: "unat need \<le> m" "unat n \<le> unat need" using n(2) by auto
  have K: "kmalloc n s = kmalloc_loop need n HEAP_ALIGN False s"
    using ready n by (simp add: kmalloc_def kmalloc_aligned_def Let_def need_def is_power_of_two_def)
  note u = block_ok_word[of "(a, m)", simplified]
  have b: "read_link s Head = of_nat a" using seg by simp
  have h: "blk_magic (hmem s) (of_nat a) = HEAP_MAGIC_FREE" "unat (blk_size (hmem s) (of_nat a)) = m"
    "blk_canary (hmem s) (of_nat a) = NOT HEAP_MAGIC_FREE"
    using seg u hdr_blk[of "hmem s" "of_nat a"] by simp_all
  have "find_fit s need Head = Some (Fit Head)"
    using h le(1) b u seg(2) by (subst find_fit.simps) (simp add: Let_def word_le_nat_alt)
  then have L: "kmalloc_loop need n HEAP_ALIGN False s = take_block Head need n HEAP_ALIGN False s"
    by (subst kmalloc_loop.simps) simp
  have f: "user_fits n need HEAP_ALIGN False" "unat need mod 8 = 0" "heap_ok s ([] @ (a, m) # fl) bl"
    "unat need \<le> snd (a, m)"
    using le need ok by (simp_all add: user_fits_def)
  obtain s' ptr where "take_block (link_after Head []) need n HEAP_ALIGN False s = Some (ptr, s')"
    using take_block_ok[OF f(3,4,2,1)] by blast
  then have t: "take_block Head need n HEAP_ALIGN False s = Some (ptr, s')" by simp
  have "ptr = of_nat (a + 24)" using take_block_ptr[OF t] b by (simp add: place_user_def add.commute)
  then show thesis using that K L t by simp
qed

text \<open>
  C40. The pointer \<open>kmalloc\<close> cuts from the first free block is the block's address plus the 24 bytes of
  the header. On a page-aligned block, which is what every expansion creates, it is therefore congruent to 8 modulo 16, although
  the heap announces 16-byte alignment.
\<close>

theorem kmalloc_offset_24:
  assumes "heap_ok s ((a, m) # fl) bl" "heap_ready s" "n \<noteq> 0" "unat n + 15 \<le> m" "a mod PAGE_SIZE = 0"
  shows "\<exists>ptr s'. kmalloc n s = Some (ptr, s') \<and> unat ptr = a + 24 \<and> unat ptr mod 16 = 8"
proof -
  obtain s' where k: "kmalloc n s = Some (of_nat (a + 24), s')" using kmalloc_first_block[OF assms(1-4)] .
  have "a + 24 < 2 ^ 64" using assms(1) by (auto simp: heap_ok_def block_ok_def)
  then have "unat (of_nat (a + 24) :: u64) = a + 24" by (rule unat_of_nat_u64)
  moreover have "a mod 16 = a mod 4096 mod 16" by (simp add: mod_mod_cancel)
  then have "(a + 24) mod 16 = 8" using assms(5) mod_add_left_eq[of a 16 24] by simp
  ultimately show ?thesis using k by metis
qed

text \<open>A heap that consists of one free block of 65512 bytes at 1 MiB.\<close>

definition one_block_heap :: heap where
  "one_block_heap = \<lparr>hmem = set_size 0x100000 65512 (set_canary 0x100000 (NOT HEAP_MAGIC_FREE)
       (set_magic 0x100000 HEAP_MAGIC_FREE (set_next 0x100000 0 (\<lambda>_. 0)))),
     hpmm = demo_pmm\<lparr>pmm_bitmap := (\<lambda>_. 0xFF), pmm_used := 272\<rparr>, free_list = 0x100000,
     heap_total = 65536, heap_used = 0, heap_ready = True\<rparr>"

lemma no_free_pages: "free_set (hpmm one_block_heap) = {}" "pmm_inv (hpmm one_block_heap)"
proof -
  have "bitmap_test (demo_pmm\<lparr>pmm_bitmap := (\<lambda>_. 0xFF), pmm_used := 272\<rparr>) p" for p
    using bit_FF[of "p mod 8"] by (simp add: bitmap_test_bit)
  then show "free_set (hpmm one_block_heap) = {}" by (simp add: free_set_def one_block_heap_def)
  then show "pmm_inv (hpmm one_block_heap)" by (simp add: pmm_inv_def one_block_heap_def demo_pmm_def)
qed

lemma one_block_heap_ok: "heap_ok one_block_heap [(0x100000, 65512)] []"
proof -
  let ?m = "hmem one_block_heap"
  have "hdr ?m (unat (0x100000 :: u64)) HEAP_MAGIC_FREE 65512" "blk_next ?m 0x100000 = 0"
    unfolding hdr_blk by (simp_all add: one_block_heap_def)
  then have s: "seg ?m (free_list one_block_heap) [(0x100000, 65512)] 0"
    by (simp add: blk_next_def one_block_heap_def)
  then show ?thesis using no_free_pages by (simp add: heap_ok_def block_ok_def) (simp add: one_block_heap_def)
qed

theorem kmalloc_offset_24_witness:
  "\<exists>ptr s'. kmalloc 64 one_block_heap = Some (ptr, s') \<and> unat ptr = 0x100000 + 24 \<and> unat ptr mod 16 = 8"
  by (rule kmalloc_offset_24[OF one_block_heap_ok]) (simp_all add: one_block_heap_def)

end
