(* ===== verification/Fifo.thy ===== *)
theory Fifo
  imports Main
begin

text \<open>
  The contract of a first-in first-out queue, shared by the scheduler's linked run queue and the
  keyboard's ring buffer. A client that puts and takes elements in any order
  sees what a plain list would give.
\<close>

datatype 'a queue_op = Put 'a | Take

text \<open>Outputs of a sequence of operations; \<open>None\<close> when an operation does not return.\<close>

fun queue_run :: "('a \<Rightarrow> 's \<Rightarrow> 's option) \<Rightarrow> ('s \<Rightarrow> 's \<times> 'a option) \<Rightarrow> 'a queue_op list \<Rightarrow> 's \<Rightarrow>
    ('s \<times> 'a option list) option" where
  "queue_run put get [] s = Some (s, [])"
| "queue_run put get (Put x # ops) s =
     (case put x s of None \<Rightarrow> None | Some s' \<Rightarrow> queue_run put get ops s')"
| "queue_run put get (Take # ops) s =
     (let (s', r) = get s
      in map_option (\<lambda>(s'', rs). (s'', r # rs)) (queue_run put get ops s'))"

fun list_run :: "'a queue_op list \<Rightarrow> 'a list \<Rightarrow> 'a list \<times> 'a option list" where
  "list_run [] xs = (xs, [])"
| "list_run (Put x # ops) xs = list_run ops (xs @ [x])"
| "list_run (Take # ops) [] = (let (ys, rs) = list_run ops [] in (ys, None # rs))"
| "list_run (Take # ops) (x # xs) = (let (ys, rs) = list_run ops xs in (ys, Some x # rs))"

text \<open>Every \<open>Put\<close> of the sequence finds room in the list queue.\<close>

fun fits_run :: "('a list \<Rightarrow> 'a \<Rightarrow> bool) \<Rightarrow> 'a queue_op list \<Rightarrow> 'a list \<Rightarrow> bool" where
  "fits_run room [] xs \<longleftrightarrow> True"
| "fits_run room (Put x # ops) xs \<longleftrightarrow> room xs x \<and> fits_run room ops (xs @ [x])"
| "fits_run room (Take # ops) xs \<longleftrightarrow> fits_run room ops (tl xs)"

locale fifo =
  fixes repr :: "'s \<Rightarrow> 'a list \<Rightarrow> bool"
    and room :: "'a list \<Rightarrow> 'a \<Rightarrow> bool"
    and put :: "'a \<Rightarrow> 's \<Rightarrow> 's option"
    and take1 :: "'s \<Rightarrow> 's \<times> 'a option"
  assumes put_append: "repr s xs \<Longrightarrow> room xs x \<Longrightarrow> \<exists>s'. put x s = Some s' \<and> repr s' (xs @ [x])"
    and take_empty: "repr s [] \<Longrightarrow> \<exists>s'. take1 s = (s', None) \<and> repr s' []"
    and take_first: "repr s (x # xs) \<Longrightarrow> \<exists>s'. take1 s = (s', Some x) \<and> repr s' xs"
begin

lemma run_refines:
  assumes "repr s xs" "fits_run room ops xs"
  shows "\<exists>s'. queue_run put take1 ops s = Some (s', snd (list_run ops xs)) \<and> repr s' (fst (list_run ops xs))"
  using assms
proof (induction ops xs arbitrary: s rule: list_run.induct)
  case (2 x ops xs)
  from 2(2,3) put_append[of s xs x] obtain s' where "put x s = Some s'" "repr s' (xs @ [x])" by auto
  then show ?case using 2(1)[of s'] 2(3) by simp
next
  case (3 ops)
  from take_empty[OF 3(2)] obtain s' where "take1 s = (s', None)" "repr s' []" by blast
  then show ?case using 3(1)[of s'] 3(3) by (auto simp: split_beta)
next
  case (4 ops x xs)
  from take_first[OF 4(2)] obtain s' where "take1 s = (s', Some x)" "repr s' xs" by blast
  then show ?case using 4(1)[of s'] 4(3) by (auto simp: split_beta)
qed simp

end

end
