(* ===== verification/Sched.thy ===== *)
theory Sched
  imports Heap_Session Fifo
begin

text \<open>
  Threads and the round-robin scheduler: \<open>kernel/sched/thread.c\<close>, \<open>kernel/sched/sched.c\<close>, the tick
  flag of \<open>kernel/arch/x86_64/cpu/timer.c\<close> and the context switch of \<open>cpu/switch.S\<close>. The run
  queue is the code's linked list through the \<open>next\<close> fields of the thread pool, stacks are
  heap memory, and the processor state holds the registers that the switch saves.
\<close>

section \<open>Processor and context switch\<close>

record cpu =
  c_rip :: u64
  c_rsp :: u64
  c_rbp :: u64
  c_rbx :: u64
  c_r12 :: u64
  c_r13 :: u64
  c_r14 :: u64
  c_r15 :: u64

definition push64 :: "u64 \<Rightarrow> mem \<times> u64 \<Rightarrow> mem \<times> u64" where
  "push64 v ms = (wr64 (fst ms) (unat (snd ms - 8)) v, snd ms - 8)"

text \<open>
  \<open>context_switch\<close>: on entry the stack pointer is at the return address that the call has pushed. The
  first result is the value stored through \<open>old_rsp\<close>.
\<close>

definition context_switch :: "u64 \<Rightarrow> mem \<times> cpu \<Rightarrow> u64 \<times> mem \<times> cpu" where
  "context_switch new_rsp mc =
     (let (m, c) = mc;
          (m1, old) = fold push64 [c_rbp c, c_rbx c, c_r12 c, c_r13 c, c_r14 c, c_r15 c] (m, c_rsp c);
          at = (\<lambda>k. rd64 m1 (unat (new_rsp + 8 * k)))
      in (old, m1, \<lparr>c_rip = at 6, c_rsp = new_rsp + 56, c_rbp = at 5, c_rbx = at 4, c_r12 = at 3,
            c_r13 = at 2, c_r14 = at 1, c_r15 = at 0\<rparr>))"

text \<open>\<open>thread_trampoline\<close> up to its indirect call: the argument and the function it calls.\<close>

definition trampoline_call :: "mem \<times> cpu \<Rightarrow> u64 \<times> u64" where
  "trampoline_call mc = (rd64 (fst mc) (unat (c_rsp (snd mc))), rd64 (fst mc) (unat (c_rsp (snd mc) + 8)))"

section \<open>State\<close>

abbreviation MAX_THREADS :: nat where "MAX_THREADS \<equiv> 16"
abbreviation THREAD_STACK_SIZE :: u64 where "THREAD_STACK_SIZE \<equiv> 8192"
abbreviation THREAD_NAME_MAX :: nat where "THREAD_NAME_MAX \<equiv> 24"

datatype thread_state_t = THREAD_UNUSED | THREAD_READY | THREAD_RUNNING | THREAD_BLOCKED | THREAD_DEAD

text \<open>A thread pointer points to the idle thread or into the pool.\<close>

datatype tref = Idle | Pool nat

record thread =
  tid :: int
  state :: thread_state_t
  tname :: string
  entry :: u64
  arg :: u64
  rsp :: u64
  stack_top :: u64
  stack_base :: u64
  nxt :: "tref option"

record sched =
  idle_thread :: thread
  thread_pool :: "nat \<Rightarrow> thread"
  run_queue :: "tref option"
  sched_started :: bool
  current :: "tref option"
  next_id :: int
  ticks :: u64
  need_resched :: bool
  kheap :: heap

fun thr :: "sched \<Rightarrow> tref \<Rightarrow> thread" where
  "thr s Idle = idle_thread s"
| "thr s (Pool i) = thread_pool s i"

fun upd :: "tref \<Rightarrow> (thread \<Rightarrow> thread) \<Rightarrow> sched \<Rightarrow> sched" where
  "upd Idle f s = s\<lparr>idle_thread := f (idle_thread s)\<rparr>"
| "upd (Pool i) f s = s\<lparr>thread_pool := (thread_pool s)(i := f (thread_pool s i))\<rparr>"

section \<open>Timer\<close>

definition timer_handler :: "sched \<Rightarrow> sched" where
  "timer_handler s = s\<lparr>ticks := ticks s + 1, need_resched := True\<rparr>"

definition timer_need_resched :: "sched \<Rightarrow> bool \<times> sched" where
  "timer_need_resched s = (need_resched s, s\<lparr>need_resched := False\<rparr>)"

definition timer_init :: "sched \<Rightarrow> sched" where
  "timer_init s = s\<lparr>ticks := 0, need_resched := False\<rparr>"

section \<open>Run queue\<close>

text \<open>The walk to the last queued thread; on a cyclic list it would not end.\<close>

partial_function (option) queue_end :: "sched \<Rightarrow> tref \<Rightarrow> tref option" where
  "queue_end s p = (case nxt (thr s p) of None \<Rightarrow> Some p | Some q \<Rightarrow> queue_end s q)"

definition sched_add :: "tref \<Rightarrow> sched \<Rightarrow> sched option" where
  "sched_add t s =
     (let s1 = upd t (nxt_update (\<lambda>_. None)) s
      in case run_queue s1 of
           None \<Rightarrow> Some (s1\<lparr>run_queue := Some t\<rparr>)
         | Some p \<Rightarrow> (case queue_end s1 p of None \<Rightarrow> None
             | Some q \<Rightarrow> Some (upd q (nxt_update (\<lambda>_. Some t)) s1)))"

definition dequeue :: "sched \<Rightarrow> sched \<times> tref option" where
  "dequeue s =
     (case run_queue s of None \<Rightarrow> (s, None)
      | Some t \<Rightarrow> (upd t (nxt_update (\<lambda>_. None)) (s\<lparr>run_queue := nxt (thr s t)\<rparr>), Some t))"

text \<open>The first argument is \<open>MAX_THREADS - scanned\<close>.\<close>

fun pick_loop :: "nat \<Rightarrow> sched \<Rightarrow> sched \<times> tref option" where
  "pick_loop 0 s = (s, None)"
| "pick_loop (Suc n) s =
     (case dequeue s of (s1, None) \<Rightarrow> (s1, None)
      | (s1, Some t) \<Rightarrow> if state (thr s1 t) = THREAD_READY then (s1, Some t) else pick_loop n s1)"

definition sched_pick_next :: "sched \<Rightarrow> sched \<times> tref option" where
  "sched_pick_next s = pick_loop MAX_THREADS s"

section \<open>Scheduling\<close>

definition thread_current :: "sched \<Rightarrow> tref option" where "thread_current s = current s"

definition thread_set_current :: "tref \<Rightarrow> sched \<Rightarrow> sched" where
  "thread_set_current t s = s\<lparr>current := Some t\<rparr>"

text \<open>
  The call of \<open>context_switch\<close>: \<open>c\<close> is the processor state at the call instruction, with the
  address behind it in \<open>c_rip\<close>. The saved stack pointer goes to the \<open>rsp\<close> field of \<open>cur\<close>, or to a dummy.
\<close>

definition switch_to :: "tref option \<Rightarrow> tref \<Rightarrow> cpu \<Rightarrow> sched \<Rightarrow> cpu \<times> sched" where
  "switch_to cur n c s =
     (let (m, sp) = push64 (c_rip c) (hmem (kheap s), c_rsp c);
          (old, m', c') = context_switch (rsp (thr s n)) (m, c\<lparr>c_rsp := sp\<rparr>);
          s' = s\<lparr>kheap := (kheap s)\<lparr>hmem := m'\<rparr>\<rparr>
      in (c', case cur of None \<Rightarrow> s' | Some t \<Rightarrow> upd t (rsp_update (\<lambda>_. old)) s'))"

definition sched_on_timer :: "cpu \<Rightarrow> sched \<Rightarrow> (cpu \<times> sched) option" where
  "sched_on_timer c s =
     (if \<not> sched_started s then Some (c, s)
      else let cur = thread_current s; (s1, next') = sched_pick_next s
      in case next' of None \<Rightarrow> Some (c, s1)
         | Some n \<Rightarrow>
           if cur = Some n then Some (c, s1)
           else let real = (case cur of None \<Rightarrow> None | Some t \<Rightarrow> if t \<noteq> Idle then Some t else None)
           in case (case real of None \<Rightarrow> Some s1
                    | Some t \<Rightarrow> if state (thr s1 t) = THREAD_RUNNING
                                then sched_add t (upd t (state_update (\<lambda>_. THREAD_READY)) s1) else Some s1) of
                None \<Rightarrow> None
              | Some s2 \<Rightarrow>
                Some (switch_to real n c (thread_set_current n (upd n (state_update (\<lambda>_. THREAD_RUNNING)) s2))))"

text \<open>Without a ready thread \<open>sched_start\<close> halts for good; then there is no processor state to go on with.\<close>

definition sched_start :: "cpu \<Rightarrow> sched \<Rightarrow> cpu option \<times> sched" where
  "sched_start c s =
     (let (s1, next') = sched_pick_next (s\<lparr>sched_started := True\<rparr>)
      in case next' of None \<Rightarrow> (None, s1)
         | Some n \<Rightarrow> (let (c', s') = switch_to None n c
               (thread_set_current n (upd n (state_update (\<lambda>_. THREAD_RUNNING)) s1)) in (Some c', s')))"

section \<open>Threads\<close>

definition name_copy :: "string option \<Rightarrow> string" where
  "name_copy src = take (THREAD_NAME_MAX - 1) (case src of None \<Rightarrow> ''?'' | Some n \<Rightarrow> n)"

definition thread_init_idle :: "sched \<Rightarrow> sched" where
  "thread_init_idle s =
     (let s1 = s\<lparr>thread_pool := (\<lambda>i. if i < MAX_THREADS then (thread_pool s i)\<lparr>state := THREAD_UNUSED\<rparr> else thread_pool s i)\<rparr>
      in (upd Idle (\<lambda>t. t\<lparr>tid := 0, state := THREAD_RUNNING, tname := name_copy (Some ''idle''), rsp := 0,
            stack_base := 0, nxt := None\<rparr>) s1)\<lparr>current := Some Idle\<rparr>)"

definition sched_init :: "sched \<Rightarrow> sched" where
  "sched_init s = thread_init_idle (s\<lparr>run_queue := None, sched_started := False\<rparr>)"

definition free_slot :: "sched \<Rightarrow> nat option" where
  "free_slot s = List.find (\<lambda>i. state (thread_pool s i) = THREAD_UNUSED) [0..<MAX_THREADS]"

definition thread_create :: "u64 \<Rightarrow> string option \<Rightarrow> u64 \<Rightarrow> u64 \<Rightarrow> sched \<Rightarrow> (int \<times> sched) option" where
  "thread_create thread_trampoline nm en ar s =
     (case free_slot s of None \<Rightarrow> Some (-1, s)
      | Some i \<Rightarrow>
        (case kmalloc THREAD_STACK_SIZE (kheap s) of None \<Rightarrow> None
         | Some (stack, h) \<Rightarrow>
           if stack = 0 then Some (-1, s\<lparr>kheap := h\<rparr>)
           else
             let (m, sp) = fold push64 [en, ar, thread_trampoline, 0, 0, 0, 0, 0, 0]
                   (hmem h, (stack + THREAD_STACK_SIZE) AND NOT 0xF);
                 s1 = upd (Pool i) (\<lambda>t. t\<lparr>tid := next_id s, state := THREAD_READY, entry := en, arg := ar,
                     stack_base := stack, nxt := None, tname := name_copy nm, rsp := sp,
                     stack_top := stack + THREAD_STACK_SIZE\<rparr>)
                   (s\<lparr>kheap := h\<lparr>hmem := m\<rparr>, next_id := next_id s + 1\<rparr>)
             in if sp < stack \<or> sp \<ge> stack + THREAD_STACK_SIZE
                then (case kfree stack (kheap s1) of None \<Rightarrow> None
                      | Some h' \<Rightarrow> Some (-1, upd (Pool i) (state_update (\<lambda>_. THREAD_UNUSED)) (s1\<lparr>kheap := h'\<rparr>)))
                else (case sched_add (Pool i) s1 of None \<Rightarrow> None
                      | Some s2 \<Rightarrow> Some (tid (thr s2 (Pool i)), s2))))"

definition thread_yield :: "cpu \<Rightarrow> sched \<Rightarrow> (cpu \<times> sched) option" where
  "thread_yield c s = sched_on_timer c s"

definition thread_maybe_yield :: "cpu \<Rightarrow> sched \<Rightarrow> (cpu \<times> sched) option" where
  "thread_maybe_yield c s =
     (case thread_current s of None \<Rightarrow> Some (c, s)
      | Some t \<Rightarrow> if stack_base (thr s t) = 0 then Some (c, s)
          else let (v, s1) = timer_need_resched s in if v then sched_on_timer c s1 else Some (c, s1))"

text \<open>
  \<open>thread_exit\<close> up to and including the first pass of its loop. Later passes are
  further calls of \<open>sched_on_timer\<close>.
\<close>

definition thread_exit :: "cpu \<Rightarrow> sched \<Rightarrow> (cpu \<times> sched) option" where
  "thread_exit c s =
     sched_on_timer c (case current s of None \<Rightarrow> s | Some t \<Rightarrow> upd t (state_update (\<lambda>_. THREAD_DEAD)) s)"

section \<open>The run queue is a list\<close>

lemma thr_upd [simp]: "thr (upd t f s) t' = (if t' = t then f (thr s t) else thr s t')"
  by (cases t; cases t') auto

lemma upd_simps [simp]:
  "run_queue (upd t f s) = run_queue s" "sched_started (upd t f s) = sched_started s"
  "current (upd t f s) = current s" "next_id (upd t f s) = next_id s" "ticks (upd t f s) = ticks s"
  "need_resched (upd t f s) = need_resched s" "kheap (upd t f s) = kheap s"
  by (cases t; simp)+

lemma thr_simps [simp]:
  "thr (s\<lparr>run_queue := q\<rparr>) t = thr s t" "thr (s\<lparr>current := c\<rparr>) t = thr s t"
  "thr (s\<lparr>kheap := h\<rparr>) t = thr s t" "thr (s\<lparr>next_id := n\<rparr>) t = thr s t"
  "thr (s\<lparr>sched_started := b\<rparr>) t = thr s t" "thr (s\<lparr>need_resched := b\<rparr>) t = thr s t"
  "thr (s\<lparr>ticks := k\<rparr>) t = thr s t"
  by (cases t; simp)+

declare thr.simps [simp del] upd.simps [simp del]

fun chain :: "sched \<Rightarrow> tref option \<Rightarrow> tref list \<Rightarrow> bool" where
  "chain s p [] \<longleftrightarrow> p = None"
| "chain s p (x # xs) \<longleftrightarrow> p = Some x \<and> chain s (nxt (thr s x)) xs"

definition queue :: "sched \<Rightarrow> tref list \<Rightarrow> bool" where
  "queue s xs \<longleftrightarrow> chain s (run_queue s) xs \<and> distinct xs"

text \<open>The queue operations change nothing but links and the head of the queue.\<close>

definition qsame :: "sched \<Rightarrow> sched \<Rightarrow> bool" where
  "qsame s s' \<longleftrightarrow> (\<forall>t. \<exists>n. thr s' t = (thr s t)\<lparr>nxt := n\<rparr>) \<and> sched_started s' = sched_started s \<and>
     current s' = current s \<and> next_id s' = next_id s \<and> ticks s' = ticks s \<and>
     need_resched s' = need_resched s \<and> kheap s' = kheap s"

lemma nxt_self: "\<exists>n. t = t\<lparr>nxt := n\<rparr>"
  by (rule exI[of _ "nxt t"]) simp

lemma qsame_refl [simp]: "qsame s s"
  by (simp add: qsame_def nxt_self)

lemma qsame_trans: "qsame s s' \<Longrightarrow> qsame s' s'' \<Longrightarrow> qsame s s''"
  unfolding qsame_def
proof (elim conjE, intro conjI allI)
  fix t assume "\<forall>t. \<exists>n. thr s' t = (thr s t)\<lparr>nxt := n\<rparr>" "\<forall>t. \<exists>n. thr s'' t = (thr s' t)\<lparr>nxt := n\<rparr>"
  then obtain n n' where "thr s' t = (thr s t)\<lparr>nxt := n\<rparr>" "thr s'' t = (thr s' t)\<lparr>nxt := n'\<rparr>" by meson
  then show "\<exists>n. thr s'' t = (thr s t)\<lparr>nxt := n\<rparr>" by auto
qed simp_all

lemma qsame_upd: "qsame s s' \<Longrightarrow> qsame s (upd t (nxt_update (\<lambda>_. v)) s')"
  unfolding qsame_def
proof (elim conjE, intro conjI allI)
  fix u assume "\<forall>t. \<exists>n. thr s' t = (thr s t)\<lparr>nxt := n\<rparr>"
  then obtain n where "thr s' u = (thr s u)\<lparr>nxt := n\<rparr>" by blast
  then show "\<exists>n. thr (upd t (nxt_update (\<lambda>_. v)) s') u = (thr s u)\<lparr>nxt := n\<rparr>" by auto
qed simp_all

lemma qsame_run_queue: "qsame s s' \<Longrightarrow> qsame s (s'\<lparr>run_queue := q\<rparr>)"
  by (simp add: qsame_def)

lemma qsame_thr: "qsame s s' \<Longrightarrow> state (thr s' t) = state (thr s t)" "qsame s s' \<Longrightarrow> rsp (thr s' t) = rsp (thr s t)"
  "qsame s s' \<Longrightarrow> stack_base (thr s' t) = stack_base (thr s t)" "qsame s s' \<Longrightarrow> tid (thr s' t) = tid (thr s t)"
proof -
  assume "qsame s s'"
  then obtain n where "thr s' t = (thr s t)\<lparr>nxt := n\<rparr>" by (auto simp: qsame_def)
  then show "state (thr s' t) = state (thr s t)" "rsp (thr s' t) = rsp (thr s t)"
    "stack_base (thr s' t) = stack_base (thr s t)" "tid (thr s' t) = tid (thr s t)" by simp_all
qed

lemma chain_cong: "\<forall>x \<in> set xs. nxt (thr s x) = nxt (thr s' x) \<Longrightarrow> chain s p xs = chain s' p xs"
  by (induction xs arbitrary: p) auto

lemma queue_end_chain: "chain s (Some p) xs \<Longrightarrow> queue_end s p = Some (last xs)"
proof (induction xs arbitrary: p)
  case (Cons x xs)
  then show ?case by (cases xs) (simp_all add: queue_end.simps)
qed simp

lemma chain_append:
  assumes "chain s p xs" "distinct xs" "xs \<noteq> []" "t \<notin> set xs" "nxt (thr s t) = None"
  shows "chain (upd (last xs) (nxt_update (\<lambda>_. Some t)) s) p (xs @ [t])"
  using assms
proof (induction xs arbitrary: p)
  case (Cons x xs)
  then show ?case by (cases xs) auto
qed simp

lemma queue_unique: "queue s xs \<Longrightarrow> queue s ys \<Longrightarrow> xs = ys"
proof -
  have "chain s p xs \<Longrightarrow> chain s p ys \<Longrightarrow> xs = ys" for p
    by (induction xs arbitrary: p ys) (case_tac [!] ys, auto)
  then show "queue s xs \<Longrightarrow> queue s ys \<Longrightarrow> xs = ys" by (auto simp: queue_def)
qed

lemma sched_add_ok:
  assumes "queue s xs" "t \<notin> set xs"
  shows "\<exists>s'. sched_add t s = Some s' \<and> queue s' (xs @ [t]) \<and> qsame s s'"
proof -
  define s1 where "s1 = upd t (nxt_update (\<lambda>_. None)) s"
  have q: "qsame s s1" unfolding s1_def by (rule qsame_upd) simp
  have c: "chain s1 (run_queue s1) xs"
    using assms chain_cong[of xs s s1] by (auto simp: queue_def s1_def)
  show ?thesis
  proof (cases xs)
    case Nil
    then have "sched_add t s = Some (s1\<lparr>run_queue := Some t\<rparr>)"
      using c by (simp add: sched_add_def s1_def[symmetric])
    then show ?thesis using Nil qsame_run_queue[OF q] by (simp add: queue_def s1_def)
  next
    case (Cons x ys)
    then have p: "run_queue s1 = Some x" using c by simp
    have "queue_end s1 x = Some (last xs)" by (rule queue_end_chain) (use c p in simp)
    then have a: "sched_add t s = Some (upd (last xs) (nxt_update (\<lambda>_. Some t)) s1)"
      using p by (simp add: sched_add_def s1_def[symmetric])
    have "chain (upd (last xs) (nxt_update (\<lambda>_. Some t)) s1) (run_queue s1) (xs @ [t])"
      by (rule chain_append[OF c]) (use assms Cons in \<open>auto simp: queue_def s1_def\<close>)
    then show ?thesis using a qsame_upd[OF q] assms by (simp add: queue_def)
  qed
qed

lemma dequeue_nil: "queue s [] \<Longrightarrow> dequeue s = (s, None)"
  by (simp add: queue_def dequeue_def)

lemma dequeue_cons:
  assumes "queue s (x # xs)"
  shows "\<exists>s'. dequeue s = (s', Some x) \<and> queue s' xs \<and> qsame s s'"
proof -
  define s' where "s' = upd x (nxt_update (\<lambda>_. None)) (s\<lparr>run_queue := nxt (thr s x)\<rparr>)"
  have "qsame s s'" unfolding s'_def by (intro qsame_upd qsame_run_queue) simp
  moreover have "queue s' xs"
    using assms chain_cong[of xs s s'] by (auto simp: queue_def s'_def)
  ultimately show ?thesis using assms by (simp add: queue_def dequeue_def s'_def)
qed

interpretation rq: fifo queue "\<lambda>xs x. x \<notin> set xs" sched_add dequeue
  by unfold_locales (use sched_add_ok dequeue_nil dequeue_cons in blast)+

lemma pick_ok:
  assumes "queue s xs" "length xs \<le> n" "\<forall>t \<in> set xs. state (thr s t) = THREAD_READY"
  shows "case xs of [] \<Rightarrow> pick_loop n s = (s, None)
    | x # ys \<Rightarrow> \<exists>s'. pick_loop n s = (s', Some x) \<and> queue s' ys \<and> qsame s s'"
proof (cases xs)
  case Nil
  then show ?thesis using assms(1) by (cases n) (simp_all add: dequeue_nil)
next
  case (Cons x ys)
  then obtain k where n: "n = Suc k" using assms(2) by (cases n) auto
  obtain s' where s': "dequeue s = (s', Some x)" "queue s' ys" "qsame s s'"
    using dequeue_cons assms(1) Cons by blast
  moreover have "state (thr s' x) = THREAD_READY" using qsame_thr(1)[OF s'(3)] assms(3) Cons by simp
  ultimately show ?thesis by (simp add: Cons n)
qed

section \<open>The scheduler's invariant\<close>

definition ready_set :: "sched \<Rightarrow> tref set" where
  "ready_set s = {Pool i | i. i < MAX_THREADS \<and> state (thr s (Pool i)) = THREAD_READY}"

text \<open>
  The queue holds each ready thread once and nothing else; only the current
  thread runs; before \<open>sched_start\<close> the idle thread is current, afterwards a pool thread that runs or has exited.
\<close>

definition cur_ok :: "sched \<Rightarrow> bool" where
  "cur_ok s \<longleftrightarrow>
     (\<forall>i < MAX_THREADS. state (thr s (Pool i)) = THREAD_RUNNING \<longrightarrow> current s = Some (Pool i)) \<and>
     (if sched_started s
      then \<exists>i < MAX_THREADS. current s = Some (Pool i) \<and> state (thr s (Pool i)) \<in> {THREAD_RUNNING, THREAD_DEAD}
      else current s = Some Idle)"

definition sched_inv :: "sched \<Rightarrow> bool" where
  "sched_inv s \<longleftrightarrow> (\<exists>xs. queue s xs \<and> set xs = ready_set s) \<and> cur_ok s"

lemma cur_ok_cong:
  assumes "\<forall>t. state (thr s' t) = state (thr s t)" "current s' = current s" "sched_started s' = sched_started s"
  shows "cur_ok s' = cur_ok s"
  unfolding cur_ok_def by (simp only: assms)

lemma cur_ok_current:
  assumes "cur_ok s"
  shows "\<exists>t. current s = Some t \<and>
    (if sched_started s then t \<in> Pool ` {..<MAX_THREADS} \<and> state (thr s t) \<in> {THREAD_RUNNING, THREAD_DEAD} else t = Idle)"
proof (cases "sched_started s")
  case True
  from conjunct2[OF assms[unfolded cur_ok_def if_P[OF True]]] obtain i where
    "i < MAX_THREADS" "current s = Some (Pool i)" "state (thr s (Pool i)) \<in> {THREAD_RUNNING, THREAD_DEAD}" by blast
  then show ?thesis using True by (intro exI[of _ "Pool i"]) simp
next
  case False
  note conjunct2[OF assms[unfolded cur_ok_def if_not_P[OF False]]]
  then show ?thesis using False by simp
qed

lemma cur_ok_running: "cur_ok s \<Longrightarrow> i < MAX_THREADS \<Longrightarrow> state (thr s (Pool i)) = THREAD_RUNNING \<Longrightarrow> current s = Some (Pool i)"
  unfolding cur_ok_def by blast

lemma cur_okI:
  assumes "\<And>i. i < MAX_THREADS \<Longrightarrow> state (thr s (Pool i)) = THREAD_RUNNING \<Longrightarrow> t = Pool i"
    "current s = Some t"
    "if sched_started s then t \<in> Pool ` {..<MAX_THREADS} \<and> state (thr s t) \<in> {THREAD_RUNNING, THREAD_DEAD} else t = Idle"
  shows "cur_ok s"
  unfolding cur_ok_def assms(2) using assms(1,3) by (auto split: if_splits)

lemma queue_length:
  assumes "queue s xs" "set xs \<subseteq> ready_set s"
  shows "length xs \<le> MAX_THREADS"
proof -
  have "card (set xs) \<le> card (Pool ` {..<MAX_THREADS})"
    using assms(2) by (intro card_mono) (auto simp: ready_set_def)
  also have "\<dots> = MAX_THREADS" by (simp add: card_image inj_on_def)
  finally show ?thesis using assms(1) by (simp add: queue_def distinct_card)
qed

lemma ready_set_thr: "t \<in> ready_set s \<longleftrightarrow> t \<in> Pool ` {..<MAX_THREADS} \<and> state (thr s t) = THREAD_READY"
  by (auto simp: ready_set_def)

lemma switch_to_simps [simp]:
  "state (thr (snd (switch_to cur n c s)) t) = state (thr s t)"
  "nxt (thr (snd (switch_to cur n c s)) t) = nxt (thr s t)"
  "run_queue (snd (switch_to cur n c s)) = run_queue s"
  "current (snd (switch_to cur n c s)) = current s"
  "sched_started (snd (switch_to cur n c s)) = sched_started s"
  by (auto simp: switch_to_def split_beta Let_def split: option.split)

lemma queue_cong:
  "run_queue s = run_queue s' \<Longrightarrow> \<forall>x. nxt (thr s x) = nxt (thr s' x) \<Longrightarrow> queue s xs = queue s' xs"
  using chain_cong[of xs s s'] by (auto simp: queue_def)

lemma set_current_simps [simp]:
  "thr (thread_set_current t s) u = thr s u" "current (thread_set_current t s) = Some t"
  "run_queue (thread_set_current t s) = run_queue s" "sched_started (thread_set_current t s) = sched_started s"
  by (simp_all add: thread_set_current_def)

lemma pick_next_ready:
  assumes "queue s xs" "set xs \<subseteq> ready_set s"
  shows "case xs of [] \<Rightarrow> sched_pick_next s = (s, None)
    | x # ys \<Rightarrow> \<exists>s'. sched_pick_next s = (s', Some x) \<and> queue s' ys \<and> qsame s s'"
  unfolding sched_pick_next_def
  by (rule pick_ok[OF assms(1) queue_length[OF assms]]) (use assms(2) ready_set_thr[of _ s] in blast)

lemma on_timer_switch:
  assumes "queue s (x # ys)" "set (x # ys) \<subseteq> ready_set s" "sched_started s"
    "current s = Some (Pool i)" "state (thr s (Pool i)) \<noteq> THREAD_READY"
  shows "\<exists>c' s'. sched_on_timer c s = Some (c', s') \<and> current s' = Some x \<and> sched_started s' \<and>
    queue s' (ys @ (if state (thr s (Pool i)) = THREAD_RUNNING then [Pool i] else [])) \<and>
    (\<forall>t. state (thr s' t) = (if t = x then THREAD_RUNNING
       else if t = Pool i \<and> state (thr s t) = THREAD_RUNNING then THREAD_READY else state (thr s t)))"
proof -
  obtain s1 where p: "sched_pick_next s = (s1, Some x)" "queue s1 ys" "qsame s s1"
    using pick_next_ready[OF assms(1,2)] by auto
  note st = qsame_thr(1)[OF p(3)]
  have i: "Pool i \<notin> set (x # ys)" using assms(2,5) ready_set_thr[of "Pool i" s] by auto
  define run where "run \<longleftrightarrow> state (thr s (Pool i)) = THREAD_RUNNING"
  define r where "r = (if run then sched_add (Pool i) (upd (Pool i) (state_update (\<lambda>_. THREAD_READY)) s1) else Some s1)"
  have "\<exists>s2. r = Some s2 \<and> queue s2 (ys @ (if run then [Pool i] else [])) \<and>
      (\<forall>t. state (thr s2 t) = (if t = Pool i \<and> run then THREAD_READY else state (thr s t))) \<and>
      sched_started s2 = sched_started s1"
  proof (cases run)
    case True
    let ?s = "upd (Pool i) (state_update (\<lambda>_. THREAD_READY)) s1"
    have "queue ?s ys" using p(2) queue_cong[of ?s s1 ys] by simp
    then obtain s2 where s2: "sched_add (Pool i) ?s = Some s2" "queue s2 (ys @ [Pool i])" "qsame ?s s2"
      using sched_add_ok[of ?s ys "Pool i"] i by auto
    show ?thesis using s2 True qsame_thr(1)[OF s2(3)] st by (simp add: r_def qsame_def)
  qed (use p st in \<open>auto simp: r_def\<close>)
  then obtain s2 where s2: "r = Some s2" "queue s2 (ys @ (if run then [Pool i] else []))"
    "\<forall>t. state (thr s2 t) = (if t = Pool i \<and> run then THREAD_READY else state (thr s t))"
    "sched_started s2" using p(3) assms(3) by (auto simp: qsame_def)
  let ?s3 = "thread_set_current x (upd x (state_update (\<lambda>_. THREAD_RUNNING)) s2)"
  let ?w = "switch_to (Some (Pool i)) x c ?s3"
  have "sched_on_timer c s = Some ?w"
    using assms(3,4) p(1) i s2(1) st by (simp add: sched_on_timer_def thread_current_def r_def run_def)
  moreover have "queue (snd ?w) (ys @ (if run then [Pool i] else []))"
    using s2(2) queue_cong[of "snd ?w" s2] by simp
  ultimately show ?thesis using s2(3,4) i
    by (intro exI[of _ "fst ?w"] exI[of _ "snd ?w"]) (simp add: run_def)
qed

lemma sched_on_timer_inv:
  assumes "sched_inv s"
  shows "\<exists>c' s'. sched_on_timer c s = Some (c', s') \<and> sched_inv s'"
proof (cases "sched_started s")
  case False
  then show ?thesis using assms by (simp add: sched_on_timer_def)
next
  case True
  obtain xs where xs: "queue s xs" "set xs = ready_set s" using assms unfolding sched_inv_def by blast
  have "cur_ok s" using assms unfolding sched_inv_def by (rule conjunct2)
  note C = conjunct1[OF this[unfolded cur_ok_def if_P[OF True]]] conjunct2[OF this[unfolded cur_ok_def if_P[OF True]]]
  from C(2) obtain i where i: "i < MAX_THREADS" "current s = Some (Pool i)"
    "state (thr s (Pool i)) \<in> {THREAD_RUNNING, THREAD_DEAD}" by blast
  note I = xs i C(1)
  show ?thesis
  proof (cases xs)
    case Nil
    then have "sched_pick_next s = (s, None)" using pick_next_ready[OF I(1)] I(2) by simp
    then show ?thesis using assms True by (simp add: sched_on_timer_def)
  next
    case (Cons x ys)
    have nr: "state (thr s (Pool i)) \<noteq> THREAD_READY" using I(5) by auto
    obtain c' s' where s': "sched_on_timer c s = Some (c', s')" "current s' = Some x" "sched_started s'"
      "queue s' (ys @ (if state (thr s (Pool i)) = THREAD_RUNNING then [Pool i] else []))"
      "\<And>t. state (thr s' t) = (if t = x then THREAD_RUNNING
       else if t = Pool i \<and> state (thr s t) = THREAD_RUNNING then THREAD_READY else state (thr s t))"
      using on_timer_switch[OF I(1)[unfolded Cons] _ True I(4) nr, of c] I(2) Cons by auto
    have x: "x \<in> Pool ` {..<MAX_THREADS}" "x \<noteq> Pool i"
      using I(2) Cons nr ready_set_thr[of x s] by auto
    have "set ys = ready_set s - {x}" using I(1,2) Cons by (auto simp: queue_def)
    then have "set (ys @ (if state (thr s (Pool i)) = THREAD_RUNNING then [Pool i] else [])) = ready_set s'"
      using I(3) x s'(5) by (auto simp: ready_set_thr split: if_splits)
    moreover have "cur_ok s'"
    proof -
      have "Some (Pool j) = Some x" if "j < MAX_THREADS" "state (thr s' (Pool j)) = THREAD_RUNNING" for j
      proof (rule ccontr)
        assume "Some (Pool j) \<noteq> Some x"
        with that(2) have "j \<noteq> i" "state (thr s (Pool j)) = THREAD_RUNNING" using s'(5)[of "Pool j"] by (auto split: if_splits)
        then show False using I(4,6) that(1) by auto
      qed
      moreover have "state (thr s' x) = THREAD_RUNNING" using s'(5) by simp
      ultimately show ?thesis unfolding cur_ok_def s'(2) using s'(3) x(1) by (auto simp: image_iff)
    qed
    ultimately have "sched_inv s'" unfolding sched_inv_def using s'(4) by blast
    then show ?thesis using s'(1) by blast
  qed
qed

section \<open>Reachable states\<close>

text \<open>
  What can happen after \<open>sched_init\<close>: threads are created, yield, poll the tick flag, exit, and use
  memory; the timer interrupts; the boot code starts the scheduler once.
\<close>

inductive sched_step :: "u64 \<Rightarrow> sched \<Rightarrow> sched \<Rightarrow> bool" for tr where
  create: "thread_create tr nm en ar s = Some (r, s') \<Longrightarrow> sched_step tr s s'"
| yield: "thread_yield c s = Some (c', s') \<Longrightarrow> sched_step tr s s'"
| maybe_yield: "thread_maybe_yield c s = Some (c', s') \<Longrightarrow> sched_step tr s s'"
| exit: "thread_exit c s = Some (c', s') \<Longrightarrow> sched_step tr s s'"
| start: "\<not> sched_started s \<Longrightarrow> sched_start c s = (Some c', s') \<Longrightarrow> sched_step tr s s'"
| tick: "sched_step tr s (timer_handler s)"
| memory: "sched_step tr s (s\<lparr>kheap := h\<rparr>)"

lemma sched_inv_cong:
  assumes "sched_inv s" "run_queue s' = run_queue s" "current s' = current s" "sched_started s' = sched_started s"
    "\<forall>t. state (thr s' t) = state (thr s t) \<and> nxt (thr s' t) = nxt (thr s t)"
  shows "sched_inv s'"
proof -
  have "queue s' xs = queue s xs" for xs using assms(2,5) by (intro queue_cong) auto
  then show ?thesis using assms cur_ok_cong[of s' s] by (simp add: sched_inv_def ready_set_def)
qed

lemma sched_init_inv: "sched_inv (sched_init s)"
proof -
  have "state (thr (sched_init s) (Pool i)) = THREAD_UNUSED" if "i < MAX_THREADS" for i
    using that by (simp add: sched_init_def thread_init_idle_def thr.simps upd.simps)
  then have "queue (sched_init s) [] \<and> set [] = ready_set (sched_init s) \<and>
      (\<forall>i < MAX_THREADS. state (thr (sched_init s) (Pool i)) \<noteq> THREAD_RUNNING)"
    by (auto simp: ready_set_def queue_def sched_init_def thread_init_idle_def Let_def)
  moreover have "current (sched_init s) = Some Idle" "\<not> sched_started (sched_init s)"
    by (simp_all add: sched_init_def thread_init_idle_def Let_def)
  ultimately show ?thesis unfolding sched_inv_def cur_ok_def by (intro conjI exI[of _ "[]"]) simp_all
qed

lemma sched_add_inv:
  assumes "queue s xs" "Pool i \<notin> set xs" "i < MAX_THREADS" "set xs = ready_set s - {Pool i}"
    "state (thr s (Pool i)) = THREAD_READY" "cur_ok s"
  shows "\<exists>s'. sched_add (Pool i) s = Some s' \<and> sched_inv s' \<and> qsame s s'"
proof -
  obtain s' where s': "sched_add (Pool i) s = Some s'" "queue s' (xs @ [Pool i])" "qsame s s'"
    using sched_add_ok[OF assms(1,2)] by blast
  have "ready_set s' = ready_set s" using qsame_thr(1)[OF s'(3)] by (simp add: ready_set_def)
  then have "set (xs @ [Pool i]) = ready_set s'" using assms(3-5) by (auto simp: ready_set_def)
  moreover have "cur_ok s'" using cur_ok_cong[of s' s] qsame_thr(1)[OF s'(3)] assms(6) s'(3) by (simp add: qsame_def)
  ultimately have "sched_inv s'" unfolding sched_inv_def using s'(2) by blast
  then show ?thesis using s' by blast
qed

lemma free_slot_Some:
  assumes "free_slot s = Some i"
  shows "i < MAX_THREADS" "state (thr s (Pool i)) = THREAD_UNUSED"
proof -
  from assms obtain j where "j < length [0..<MAX_THREADS]" "state (thread_pool s ([0..<MAX_THREADS] ! j)) = THREAD_UNUSED"
    "i = [0..<MAX_THREADS] ! j" unfolding free_slot_def find_Some_iff by blast
  then have "i < MAX_THREADS \<and> state (thread_pool s i) = THREAD_UNUSED" by (simp del: upt_rec_numeral)
  then show "i < MAX_THREADS" "state (thr s (Pool i)) = THREAD_UNUSED" by (simp_all add: thr.simps)
qed

lemma thread_create_inv:
  assumes "sched_inv s" "thread_create tr nm en ar s = Some (r, s')"
  shows "sched_inv s'"
proof (cases "free_slot s")
  case None
  then show ?thesis using assms by (simp add: thread_create_def)
next
  case (Some i)
  note sl = free_slot_Some[OF Some]
  obtain stack h where k: "kmalloc THREAD_STACK_SIZE (kheap s) = Some (stack, h)"
    using assms(2) Some by (auto simp: thread_create_def split: option.splits)
  obtain m sp where f: "fold push64 [en, ar, tr, 0, 0, 0, 0, 0, 0] (hmem h, (stack + THREAD_STACK_SIZE) AND NOT 0xF) = (m, sp)"
    by force
  define s1 where "s1 = upd (Pool i) (\<lambda>t. t\<lparr>tid := next_id s, state := THREAD_READY, entry := en, arg := ar,
      stack_base := stack, nxt := None, tname := name_copy nm, rsp := sp, stack_top := stack + THREAD_STACK_SIZE\<rparr>)
      (s\<lparr>kheap := h\<lparr>hmem := m\<rparr>, next_id := next_id s + 1\<rparr>)"
  note C = assms(2)[unfolded thread_create_def Some option.case k prod.case f Let_def, folded s1_def]
  obtain xs where xs: "queue s xs" "set xs = ready_set s" using assms(1) unfolding sched_inv_def by blast
  have cur: "cur_ok s" using assms(1) unfolding sched_inv_def by (rule conjunct2)
  obtain t where t: "current s = Some t"
    "if sched_started s then t \<in> Pool ` {..<MAX_THREADS} \<and> state (thr s t) \<in> {THREAD_RUNNING, THREAD_DEAD} else t = Idle"
    using cur_ok_current[OF cur] by blast
  have ti: "t \<noteq> Pool i" using t(2) sl(2) by (auto split: if_splits)
  have i: "Pool i \<notin> set xs" using sl xs(2) by (auto simp: ready_set_def)
  have q1: "queue s1 xs" using xs(1) chain_cong[of xs s s1] i by (auto simp: queue_def s1_def)
  consider "stack = 0" "s' = s\<lparr>kheap := h\<rparr>"
    | h' where "s' = upd (Pool i) (state_update (\<lambda>_. THREAD_UNUSED)) (s1\<lparr>kheap := h'\<rparr>)"
    | s2 where "sched_add (Pool i) s1 = Some s2" "s' = s2"
    using C by (auto split: if_splits option.splits)
  then show ?thesis
  proof cases
    case 1
    then show ?thesis using sched_inv_cong[OF assms(1), of s'] by simp
  next
    case 2
    have "queue s' xs" using q1 queue_cong[of s' s1 xs] by (simp add: 2)
    moreover have "ready_set s' = ready_set s" using sl by (auto simp: 2 s1_def ready_set_thr split: if_splits)
    moreover have "cur_ok s'" using cur_ok_cong[of s' s] cur sl by (simp add: 2 s1_def)
    ultimately show ?thesis using xs(2) unfolding sched_inv_def by blast
  next
    case 3
    have "set xs = ready_set s1 - {Pool i}" using xs(2) i sl by (auto simp: s1_def ready_set_thr split: if_splits)
    moreover have "cur_ok s1"
      by (rule cur_okI[of _ t]) (use t ti cur_ok_running[OF cur] in \<open>auto simp: s1_def split: if_splits\<close>)
    ultimately show ?thesis using sched_add_inv[OF q1 i sl(1)] 3 by (auto simp: s1_def)
  qed
qed

lemma sched_start_inv:
  assumes "sched_inv s" "\<not> sched_started s" "sched_start c s = (Some c', s')"
  shows "sched_inv s'"
proof -
  obtain xs where xs: "queue s xs" "set xs = ready_set s" using assms(1) unfolding sched_inv_def by blast
  let ?s = "s\<lparr>sched_started := True\<rparr>"
  have q: "queue ?s xs" "set xs \<subseteq> ready_set ?s" using xs queue_cong[of ?s s xs] by (auto simp: ready_set_def)
  have ok: "cur_ok s" using assms(1) unfolding sched_inv_def by (rule conjunct2)
  then have cur: "current s = Some Idle" using cur_ok_current[OF ok] assms(2) by simp
  have "xs \<noteq> []" using pick_next_ready[OF q] assms(3) by (auto simp: sched_start_def)
  then obtain x ys where x: "xs = x # ys" by (cases xs) auto
  obtain s1 where p: "sched_pick_next ?s = (s1, Some x)" "queue s1 ys" "qsame ?s s1"
    using pick_next_ready[OF q] x by auto
  let ?w = "switch_to None x c (thread_set_current x (upd x (state_update (\<lambda>_. THREAD_RUNNING)) s1))"
  have s': "s' = snd ?w" using assms(3) p(1) by (simp add: sched_start_def split_beta)
  have st: "state (thr s' t) = (if t = x then THREAD_RUNNING else state (thr s t))" for t
    using qsame_thr(1)[OF p(3)] by (simp add: s')
  have xr: "x \<in> Pool ` {..<MAX_THREADS}" using xs(2) x ready_set_thr[of x s] by auto
  have "queue s' ys" using p(2) queue_cong[of s' s1 ys] by (simp add: s')
  moreover have "set ys = ready_set s'" using xs x st by (auto simp: ready_set_thr queue_def split: if_splits)
  moreover have "cur_ok s'"
    by (rule cur_okI[of _ x])
      (use st xr cur_ok_running[OF ok] cur p(3) in \<open>auto simp: s' qsame_def split: if_splits\<close>)
  ultimately show ?thesis unfolding sched_inv_def by blast
qed

lemma sched_step_inv: "sched_step tr s s' \<Longrightarrow> sched_inv s \<Longrightarrow> sched_inv s'"
proof (induction rule: sched_step.induct)
  case (yield c s c' s')
  then show ?case using sched_on_timer_inv[of s c] by (auto simp: thread_yield_def)
next
  case (maybe_yield c s c' s')
  let ?s = "s\<lparr>need_resched := False\<rparr>"
  have "sched_inv ?s" using sched_inv_cong[OF maybe_yield(2), of ?s] by simp
  then show ?case using maybe_yield sched_on_timer_inv[of ?s c]
    by (auto simp: thread_maybe_yield_def timer_need_resched_def split: option.splits if_splits)
next
  case (exit c s c' s')
  define s1 where "s1 = (case current s of None \<Rightarrow> s | Some t \<Rightarrow> upd t (state_update (\<lambda>_. THREAD_DEAD)) s)"
  have "sched_inv s1"
  proof -
    have ok: "cur_ok s" using exit(2) unfolding sched_inv_def by (rule conjunct2)
    obtain t where t: "current s = Some t"
      "if sched_started s then t \<in> Pool ` {..<MAX_THREADS} \<and> state (thr s t) \<in> {THREAD_RUNNING, THREAD_DEAD} else t = Idle"
      using cur_ok_current[OF ok] by blast
    have s1: "s1 = upd t (state_update (\<lambda>_. THREAD_DEAD)) s" by (simp add: s1_def t(1))
    have "ready_set s1 = ready_set s" unfolding s1 using t(2) by (auto simp: ready_set_thr split: if_splits)
    moreover have "queue s1 xs = queue s xs" for xs by (rule queue_cong) (auto simp: s1)
    moreover have "cur_ok s1"
      by (rule cur_okI[of _ t]) (use t cur_ok_running[OF ok] in \<open>auto simp: s1 split: if_splits\<close>)
    ultimately show ?thesis using exit(2) unfolding sched_inv_def by simp
  qed
  then show ?case using exit(1) sched_on_timer_inv[of s1 c] by (simp add: thread_exit_def s1_def[symmetric])
next
  case (tick s)
  then show ?case using sched_inv_cong[of s "timer_handler s"] by (simp add: timer_handler_def)
next
  case (memory s h)
  then show ?case using sched_inv_cong[of s "s\<lparr>kheap := h\<rparr>"] by simp
qed (use thread_create_inv sched_start_inv in blast)+

section \<open>Stack frames\<close>

lemma unat_minus_u64: "n \<le> unat a \<Longrightarrow> unat (a - of_nat n :: u64) = unat a - n"
proof -
  assume n: "n \<le> unat a"
  have "n < 2 ^ 64" using n unsigned_less[of a, where 'a = nat] by simp
  then have "unat (of_nat n :: u64) = n" by (rule unat_of_nat_u64)
  then show ?thesis using n by (simp add: unat_sub_if')
qed

lemma push_all:
  assumes "8 * length vs \<le> unat sp" "fold push64 vs (m, sp) = (m', sp')"
  shows "sp' = sp - of_nat (8 * length vs)" "agree (- {unat sp - 8 * length vs..<unat sp}) m m'"
    "\<And>k. k < length vs \<Longrightarrow> rd64 m' (unat sp - 8 * Suc k) = vs ! k"
proof -
  have "sp' = sp - of_nat (8 * length vs) \<and> agree (- {unat sp - 8 * length vs..<unat sp}) m m' \<and>
      (\<forall>k < length vs. rd64 m' (unat sp - 8 * Suc k) = vs ! k)"
    using assms
  proof (induction vs arbitrary: m sp)
    case (Cons v vs)
    let ?m = "wr64 m (unat sp - 8) v"
    have sp: "unat (sp - 8) = unat sp - 8" using unat_minus_u64[of 8 sp] Cons.prems(1) by simp
    have "push64 v (m, sp) = (?m, sp - 8)" by (simp add: push64_def sp)
    then have f: "fold push64 vs (?m, sp - 8) = (m', sp')" using Cons.prems(2) by simp
    have IH: "sp' = (sp - 8) - of_nat (8 * length vs)" "agree (- {unat sp - 8 - 8 * length vs..<unat sp - 8}) ?m m'"
      "\<forall>k < length vs. rd64 m' (unat sp - 8 - 8 * Suc k) = vs ! k"
      using Cons.IH[OF _ f] Cons.prems(1) sp by auto
    have "agree (- {unat sp - 8..<unat sp}) m ?m" using Cons.prems(1) by (auto simp: agree_def wr64_other)
    moreover have "agree (- {unat sp - 8 - 8 * length vs..<unat sp}) ?m m'" by (rule agree_subset[OF IH(2)]) auto
    ultimately have "agree (- {unat sp - 8 * length (v # vs)..<unat sp}) m m'" by (auto simp: agree_def)
    moreover have "rd64 m' (unat sp - 8) = v"
    proof -
      have "rd64 m' (unat sp - 8) = rd64 ?m (unat sp - 8)"
        using IH(2) by (intro rd64_cong) (auto simp: agree_def)
      then show ?thesis by simp
    qed
    then have "\<forall>k < length (v # vs). rd64 m' (unat sp - 8 * Suc k) = (v # vs) ! k"
      using IH(3) by (auto simp: less_Suc_eq_0_disj)
    ultimately show ?case using IH(1) by (simp add: algebra_simps)
  qed simp
  then show "sp' = sp - of_nat (8 * length vs)" "agree (- {unat sp - 8 * length vs..<unat sp}) m m'"
    "\<And>k. k < length vs \<Longrightarrow> rd64 m' (unat sp - 8 * Suc k) = vs ! k" by blast+
qed

lemma agree_rd64: "agree {a..<a + 8} m m' \<Longrightarrow> rd64 m' a = rd64 m a"
  by (intro rd64_cong) (auto simp: agree_def)

text \<open>What a switch does to the outgoing side: six words below the stack pointer.\<close>

lemma context_switch_save:
  assumes "48 \<le> unat (c_rsp c)" "context_switch new (m, c) = (old, m', c')"
  shows "unat old = unat (c_rsp c) - 48" "agree (- {unat old..<unat (c_rsp c)}) m m'"
    "\<And>k. k < 6 \<Longrightarrow> rd64 m' (unat (c_rsp c) - 8 * Suc k) = [c_rbp c, c_rbx c, c_r12 c, c_r13 c, c_r14 c, c_r15 c] ! k"
    "c' = \<lparr>c_rip = rd64 m' (unat (new + 48)), c_rsp = new + 56, c_rbp = rd64 m' (unat (new + 40)),
      c_rbx = rd64 m' (unat (new + 32)), c_r12 = rd64 m' (unat (new + 24)), c_r13 = rd64 m' (unat (new + 16)),
      c_r14 = rd64 m' (unat (new + 8)), c_r15 = rd64 m' (unat new)\<rparr>"
proof -
  let ?vs = "[c_rbp c, c_rbx c, c_r12 c, c_r13 c, c_r14 c, c_r15 c]"
  obtain m1 o1 where f1: "fold push64 ?vs (m, c_rsp c) = (m1, o1)" by force
  note C = assms(2)[unfolded context_switch_def Let_def prod.case f1]
  then have f: "fold push64 ?vs (m, c_rsp c) = (m', old)" using f1 by (simp del: fold.simps)
  note P = push_all[OF _ f, simplified]
  show o: "unat old = unat (c_rsp c) - 48" using P(1) assms(1) unat_minus_u64[of 48 "c_rsp c"] by simp
  show "agree (- {unat old..<unat (c_rsp c)}) m m'" unfolding o using P(2) assms(1) by simp
  show "rd64 m' (unat (c_rsp c) - 8 * Suc k) = ?vs ! k" if "k < 6" for k using P(3)[of k] assms(1) that by simp
  show "c' = \<lparr>c_rip = rd64 m' (unat (new + 48)), c_rsp = new + 56, c_rbp = rd64 m' (unat (new + 40)),
      c_rbx = rd64 m' (unat (new + 32)), c_r12 = rd64 m' (unat (new + 24)), c_r13 = rd64 m' (unat (new + 16)),
      c_r14 = rd64 m' (unat (new + 8)), c_r15 = rd64 m' (unat new)\<rparr>"
    using C by auto
qed

section \<open>Properties\<close>

text \<open>A running thread and two ready ones, on the sample machine with an empty heap.\<close>

definition demo_thread :: "thread_state_t \<Rightarrow> tref option \<Rightarrow> thread" where
  "demo_thread st n = \<lparr>tid = 0, state = st, tname = ''demo'', entry = 0, arg = 0, rsp = 0x5000, stack_top = 0x6000,
     stack_base = 0x4000, nxt = n\<rparr>"

definition demo_sched :: sched where
  "demo_sched = \<lparr>idle_thread = demo_thread THREAD_RUNNING None,
     thread_pool = (\<lambda>i. if i = 0 then demo_thread THREAD_RUNNING None
        else if i = 1 then demo_thread THREAD_READY (Some (Pool 2))
        else if i = 2 then demo_thread THREAD_READY None else demo_thread THREAD_UNUSED None),
     run_queue = Some (Pool 1), sched_started = True, current = Some (Pool 0), next_id = 4, ticks = 0,
     need_resched = False, kheap = empty_heap\<rparr>"

definition demo_cpu :: cpu where
  "demo_cpu = \<lparr>c_rip = 0x100100, c_rsp = 0x9000, c_rbp = 1, c_rbx = 2, c_r12 = 3, c_r13 = 4, c_r14 = 5, c_r15 = 6\<rparr>"

lemma demo_queue: "queue demo_sched [Pool 1, Pool 2]"
  by (simp add: queue_def demo_sched_def thr.simps demo_thread_def)

lemma demo_ready: "set [Pool 1, Pool 2] = ready_set demo_sched"
  by (auto simp: ready_set_def demo_sched_def thr.simps demo_thread_def split: if_splits)

lemma demo_inv: "sched_inv demo_sched"
proof -
  have "cur_ok demo_sched"
    by (rule cur_okI[of _ "Pool 0"])
      (auto simp: demo_sched_def thr.simps demo_thread_def split: if_splits)
  then show ?thesis unfolding sched_inv_def using demo_queue demo_ready by blast
qed


text \<open>
  C5. In every state reachable from \<open>sched_init\<close> the run queue is a finite list without repetition that holds exactly the ready
  threads, at most the current thread is running, and a call of \<open>thread_yield\<close> returns: no ready
  thread is ever lost and the queue never becomes cyclic.
\<close>

theorem sched_reachable_inv:
  assumes "(sched_step tr)\<^sup>*\<^sup>* (sched_init s0) s"
  shows "sched_inv s \<and> (\<exists>c' s'. thread_yield c s = Some (c', s'))"
proof -
  from assms have "sched_inv s"
    by (induction rule: rtranclp_induct) (use sched_init_inv sched_step_inv in blast)+
  then show ?thesis using sched_on_timer_inv[of s c] by (auto simp: thread_yield_def)
qed

theorem sched_reachable_inv_witness:
  "(sched_step 0x100000)\<^sup>*\<^sup>* (sched_init demo_sched) (timer_handler ((sched_init demo_sched)\<lparr>kheap := demo_heap\<rparr>)) \<and>
   sched_inv (timer_handler ((sched_init demo_sched)\<lparr>kheap := demo_heap\<rparr>))"
proof -
  have "(sched_step 0x100000)\<^sup>*\<^sup>* (sched_init demo_sched) (timer_handler ((sched_init demo_sched)\<lparr>kheap := demo_heap\<rparr>))"
    by (rule converse_rtranclp_into_rtranclp, rule sched_step.memory, rule r_into_rtranclp, rule sched_step.tick)
  from this sched_reachable_inv[OF this, of demo_cpu] show ?thesis by blast
qed

fun yields :: "cpu list \<Rightarrow> sched \<Rightarrow> sched option" where
  "yields [] s = Some s"
| "yields (c # cs) s = (case thread_yield c s of None \<Rightarrow> None | Some (_, s') \<Rightarrow> yields cs s')"

lemma yield_running:
  assumes "sched_inv s" "sched_started s" "queue s (x # ys)" "set (x # ys) = ready_set s"
    "current s = Some t" "state (thr s t) = THREAD_RUNNING"
  obtains s' where "\<exists>c'. thread_yield c s = Some (c', s')" "current s' = Some x" "sched_started s'" "queue s' (ys @ [t])"
    "state (thr s' x) = THREAD_RUNNING" "sched_inv s'" "set (ys @ [t]) = ready_set s'"
proof -
  obtain i where t: "t = Pool i" using cur_ok_current[of s] assms(1,2,5) by (auto simp: sched_inv_def)
  have "state (thr s (Pool i)) \<noteq> THREAD_READY" using assms(6) t by simp
  from on_timer_switch[OF assms(3) eq_refl[OF assms(4)] assms(2) assms(5)[unfolded t] this, of c] assms(6) t obtain c' s' where
    s': "sched_on_timer c s = Some (c', s')" "current s' = Some x" "sched_started s'" "queue s' (ys @ [t])"
    "state (thr s' x) = THREAD_RUNNING" by auto
  obtain c'' s'' where "sched_on_timer c s = Some (c'', s'')" "sched_inv s''"
    using sched_on_timer_inv[OF assms(1), of c] by blast
  then have inv: "sched_inv s'" using s'(1) by simp
  then obtain zs where "queue s' zs" "set zs = ready_set s'" unfolding sched_inv_def by blast
  then have "set (ys @ [t]) = ready_set s'" using queue_unique[OF _ s'(4), of zs] by simp
  then show thesis using that s' inv by (auto simp: thread_yield_def)
qed

text \<open>
  C6. Round robin: the thread at position \<open>k\<close> of the run queue is the current thread after
  \<open>k + 1\<close> yields, whatever the processor state at each of them; the threads before it and the one that ran wait behind the others.
\<close>

theorem round_robin:
  assumes "sched_inv s" "sched_started s" "queue s xs" "set xs = ready_set s"
    "current s = Some t" "state (thr s t) = THREAD_RUNNING" "k < length xs" "length cs = Suc k"
  shows "\<exists>s'. yields cs s = Some s' \<and> current s' = Some (xs ! k) \<and> state (thr s' (xs ! k)) = THREAD_RUNNING \<and>
    queue s' (drop (Suc k) xs @ t # take k xs)"
  using assms
proof (induction k arbitrary: s xs t cs)
  case 0
  obtain x ys c where xs: "xs = x # ys" "cs = [c]" using 0(7,8) by (cases xs; cases cs) auto
  obtain s' where "\<exists>c'. thread_yield c s = Some (c', s')" "current s' = Some x" "queue s' (ys @ [t])"
    "state (thr s' x) = THREAD_RUNNING"
    by (rule yield_running[OF 0(1,2) 0(3,4)[unfolded xs] 0(5,6), of c])
  then show ?case using xs by auto
next
  case (Suc k)
  obtain x ys c cs' where xs: "xs = x # ys" "cs = c # cs'" using Suc(8,9) by (cases xs; cases cs) auto
  obtain s' where s': "\<exists>c'. thread_yield c s = Some (c', s')" "current s' = Some x" "sched_started s'" "queue s' (ys @ [t])"
    "state (thr s' x) = THREAD_RUNNING" "sched_inv s'" "set (ys @ [t]) = ready_set s'"
    by (rule yield_running[OF Suc(2,3) Suc(4,5)[unfolded xs] Suc(6,7), of c])
  have "\<exists>s''. yields cs' s' = Some s'' \<and> current s'' = Some ((ys @ [t]) ! k) \<and>
      state (thr s'' ((ys @ [t]) ! k)) = THREAD_RUNNING \<and>
      queue s'' (drop (Suc k) (ys @ [t]) @ x # take k (ys @ [t]))"
    using Suc.IH[OF s'(6,3,4,7,2,5), of cs'] Suc(8,9) xs by simp
  then show ?case using xs s'(1) Suc(8) by (auto simp: nth_append)
qed

theorem round_robin_witness:
  "\<exists>s'. yields [demo_cpu, demo_cpu] demo_sched = Some s' \<and> current s' = Some (Pool 2) \<and> queue s' [Pool 0, Pool 1]"
proof -
  have st: "sched_started demo_sched" "current demo_sched = Some (Pool 0)" "state (thr demo_sched (Pool 0)) = THREAD_RUNNING"
    by (simp_all add: demo_sched_def thr.simps demo_thread_def)
  show ?thesis
    using round_robin[OF demo_inv st(1) demo_queue demo_ready st(2,3), of 1 "[demo_cpu, demo_cpu]"] by (simp del: yields.simps) blast
qed

text \<open>
  C28. The linked run queue refines a list: any sequence of \<open>sched_add\<close> (of threads not queued at that
  moment) and \<open>dequeue\<close> returns, and hands out the threads in the order in which they were added.
\<close>

theorem run_queue_refines_list:
  assumes "queue s xs" "fits_run (\<lambda>xs x. x \<notin> set xs) ops xs"
  shows "\<exists>s'. queue_run sched_add dequeue ops s = Some (s', snd (list_run ops xs)) \<and> queue s' (fst (list_run ops xs))"
  using assms by (rule rq.run_refines)

theorem run_queue_refines_list_witness:
  "\<exists>s'. queue_run sched_add dequeue [Put (Pool 0), Take, Take, Put (Pool 1), Take, Take, Take] demo_sched =
     Some (s', [Some (Pool 1), Some (Pool 2), Some (Pool 0), Some (Pool 1), None]) \<and> queue s' []"
  using run_queue_refines_list[OF demo_queue, of "[Put (Pool 0), Take, Take, Put (Pool 1), Take, Take, Take]"] by simp

text \<open>
  C27. A thread that was switched away from resumes where it left off: if the seven words at its saved stack
  pointer are still in place, switching back to it restores the callee-saved registers, the stack
  pointer and the return address of its call of \<open>context_switch\<close>.
\<close>

theorem context_switch_roundtrip:
  assumes "48 \<le> unat (c_rsp c)" "unat (c_rsp c) + 8 < 2 ^ 64" "context_switch new (m, c) = (old, m1, c1)"
    "agree {unat old..<unat old + 56} m1 m2"
    "48 \<le> unat (c_rsp c2)" "{unat (c_rsp c2) - 48..<unat (c_rsp c2)} \<inter> {unat old..<unat old + 56} = {}"
    "context_switch old (m2, c2) = (old2, m3, c3)"
  shows "c3 = c\<lparr>c_rip := rd64 m (unat (c_rsp c)), c_rsp := c_rsp c + 8\<rparr>"
proof -
  note A = context_switch_save[OF assms(1,3)] and B = context_switch_save[OF assms(5,7)]
  have "agree {unat old..<unat old + 56} m2 m3" by (rule agree_subset[OF B(2)]) (use assms(6) B(1) in auto)
  then have ag: "agree {unat old..<unat old + 56} m1 m3" using agree_trans assms(4) by blast
  have r: "rd64 m3 (unat (old + of_nat (8 * k))) = rd64 m1 (unat (c_rsp c) - 48 + 8 * k)" if "k < 7" for k
  proof -
    have u: "unat (old + of_nat (8 * k)) = unat (c_rsp c) - 48 + 8 * k"
      using that assms(1,2) A(1) by (simp add: unat_word_ariths unat_of_nat_u64)
    have "agree {unat old + 8 * k..<unat old + 8 * k + 8} m1 m3" by (rule agree_subset[OF ag]) (use that in auto)
    from agree_rd64[OF this] show ?thesis unfolding u using A(1) by simp
  qed
  have ret: "rd64 m1 (unat (c_rsp c)) = rd64 m (unat (c_rsp c))"
    by (rule agree_rd64) (rule agree_subset[OF A(2)], auto)
  have "c_rsp c = old + 48" using A(1) assms(1,2) by (simp add: word_unat_eq_iff unat_word_ariths)
  then show ?thesis
    using B(4) r[of 0] r[of 1] r[of 2] r[of 3] r[of 4] r[of 5] r[of 6] A(3)[of 0] A(3)[of 1] A(3)[of 2] A(3)[of 3]
      A(3)[of 4] A(3)[of 5] ret assms(1) by (simp add: algebra_simps)
qed

theorem context_switch_roundtrip_witness:
  "\<exists>old m1 c1 old2 m3. context_switch 0x7000 (\<lambda>_. 0, demo_cpu) = (old, m1, c1) \<and>
     context_switch old (m1, demo_cpu\<lparr>c_rsp := 0x8000, c_rbx := 9\<rparr>) =
       (old2, m3, demo_cpu\<lparr>c_rip := rd64 (\<lambda>_. 0) 0x9000, c_rsp := 0x9008\<rparr>)"
proof -
  obtain old m1 c1 where 1: "context_switch 0x7000 (\<lambda>_. 0, demo_cpu) = (old, m1, c1)" by (metis prod_cases3)
  obtain old2 m3 c3 where 2: "context_switch old (m1, demo_cpu\<lparr>c_rsp := 0x8000, c_rbx := 9\<rparr>) = (old2, m3, c3)"
    by (metis prod_cases3)
  have o: "unat old = 0x9000 - 48" using context_switch_save(1)[OF _ 1] by (simp add: demo_cpu_def)
  have "c3 = demo_cpu\<lparr>c_rip := rd64 (\<lambda>_. 0) (unat (c_rsp demo_cpu)), c_rsp := c_rsp demo_cpu + 8\<rparr>"
    by (rule context_switch_roundtrip[OF _ _ 1 _ _ _ 2]) (simp_all add: o demo_cpu_def)
  then show ?thesis using 1 2 by (simp add: demo_cpu_def)
qed

lemma thread_frame:
  assumes "allocated h0 fl bl stack 8192 h"
    "fold push64 [en, ar, tr, 0, 0, 0, 0, 0, 0] (hmem h, (stack + THREAD_STACK_SIZE) AND NOT 0xF) = (m, sp)"
  shows "\<exists>fl' x. heap_ok (h\<lparr>hmem := m\<rparr>) fl' (x # bl) \<and> {unat stack..<unat stack + 8192} \<subseteq> region x \<and>
      agree (foreign h0 fl) (hmem h0) m"
    "unat stack \<le> unat sp" "unat sp + 72 \<le> unat stack + 8192" "unat stack + 8192 \<le> 2 ^ 32"
    "rd64 m (unat sp + 48) = tr" "rd64 m (unat sp + 56) = ar" "rd64 m (unat sp + 64) = en"
proof -
  obtain fl' x where H: "heap_ok h fl' (x # bl)" "owns (hmem h) (unat stack) 8192 x"
    "agree (foreign h0 fl) (hmem h0) (hmem h)" "foreign h0 fl \<inter> region x = {}"
    using assms(1) by (auto simp: allocated_def)
  have x: "2 ^ 20 \<le> fst x" "fst x + 24 + snd x \<le> 2 ^ 32" using H(1) by (auto simp: heap_ok_def block_ok_def)
  have u: "{unat stack..<unat stack + 8192} \<subseteq> {fst x + 24..<fst x + 24 + snd x}" by (rule owns_inside[OF H(2)])
  then have st: "fst x + 24 \<le> unat stack" "unat stack + 8192 \<le> fst x + 24 + snd x" using ivl_subset[of "unat stack"] by auto
  define top where "top = (stack + THREAD_STACK_SIZE) AND NOT 0xF"
  have sum: "unat (stack + 8192) = unat stack + 8192" using st x by (simp add: unat_word_ariths)
  have "unat top = (unat stack + 8192) div 2 ^ 4 * 2 ^ 4"
    using unat_clear_low[of 4 "stack + 8192"] sum by (simp add: top_def)
  then have top: "unat top \<le> unat stack + 8192" "unat stack + 8192 < unat top + 16"
    using div_mult_mod_eq[of "unat stack + 8192" 16] mod_less_divisor[of 16 "unat stack + 8192"] by auto
  have t72: "72 \<le> unat top" using top by linarith
  note P = push_all[OF _ assms(2)[folded top_def], simplified]
  have sp: "unat sp = unat top - 72" using P(1) t72 unat_minus_u64[of 72 top] by simp
  show "unat stack \<le> unat sp" "unat sp + 72 \<le> unat stack + 8192" "unat stack + 8192 \<le> 2 ^ 32"
    using sp top t72 st x by linarith+
  have ag: "agree (- {unat stack..<unat stack + 8192}) (hmem h) m"
    by (rule agree_subset[OF P(2)]) (use sp top t72 in auto)
  then have "agree (- {fst x + 24..<fst x + 24 + snd x}) (hmem h) m" by (rule agree_subset) (use u in auto)
  then have "heap_ok (h\<lparr>hmem := m\<rparr>) fl' (x # bl)" using heap_ok_user_write[OF H(1), of x m] by simp
  moreover have reg: "{unat stack..<unat stack + 8192} \<subseteq> region x" using u by (auto simp: region_def)
  moreover have "agree (foreign h0 fl) (hmem h0) m"
    by (rule agree_trans[OF H(3)]) (rule agree_subset[OF ag], use H(4) reg in auto)
  ultimately show "\<exists>fl' x. heap_ok (h\<lparr>hmem := m\<rparr>) fl' (x # bl) \<and> {unat stack..<unat stack + 8192} \<subseteq> region x \<and>
      agree (foreign h0 fl) (hmem h0) m" by blast
  have e: "unat sp + 48 = unat top - 24" "unat sp + 56 = unat top - 16" "unat sp + 64 = unat top - 8"
    using sp t72 by simp_all
  show "rd64 m (unat sp + 48) = tr" "rd64 m (unat sp + 56) = ar" "rd64 m (unat sp + 64) = en"
    unfolding e using P(3)[of 2] P(3)[of 1] P(3)[of 0] t72 by simp_all
qed

lemma first_switch:
  assumes "48 \<le> unat (c_rsp c)" "{unat (c_rsp c) - 48..<unat (c_rsp c)} \<inter> {unat sp..<unat sp + 72} = {}"
    "unat sp + 72 \<le> 2 ^ 32" "rd64 m (unat sp + 48) = tr" "rd64 m (unat sp + 56) = ar" "rd64 m (unat sp + 64) = en"
    "context_switch sp (m, c) = (old, m', c')"
  shows "c_rip c' = tr \<and> trampoline_call (m', c') = (ar, en)"
proof -
  note S = context_switch_save[OF assms(1,7)]
  have rd: "rd64 m' (unat sp + k) = rd64 m (unat sp + k)" if "k + 8 \<le> 72" for k
  proof -
    have "{unat sp + k..<unat sp + k + 8} \<subseteq> - {unat old..<unat (c_rsp c)}"
      using that assms(2) S(1) by fastforce
    then show ?thesis using agree_rd64[OF agree_subset[OF S(2)]] by blast
  qed
  have "unat (sp + of_nat k) = unat sp + k" if "k \<le> 64" for k
    using that assms(3) by (simp add: unat_word_ariths unat_of_nat_u64)
  from this[of 48] this[of 56] this[of 64] show ?thesis
    using S(4) rd[of 48] rd[of 56] rd[of 64] assms(4-6) by (simp add: trampoline_call_def algebra_simps)
qed

text \<open>
  C26. \<open>thread_create\<close> on a consistent heap returns. It either reports failure and changes no thread, or the new thread is the ready
  thread of a slot that was unused, has an own stack block in the heap (all other allocated
  memory is unchanged), and the first switch to it, from any other stack,
  arrives in the trampoline, which calls the entry function with the given argument.
\<close>

theorem thread_create_starts:
  assumes "sched_inv s" "heap_ok (kheap s) fl bl" "heap_ready (kheap s)"
  shows "\<exists>r s'. thread_create tr nm en ar s = Some (r, s') \<and>
    (r = -1 \<and> (\<forall>t. thr s' t = thr s t) \<or>
     (\<exists>i < MAX_THREADS. \<exists>fl' x. r = next_id s \<and> state (thr s (Pool i)) = THREAD_UNUSED \<and> state (thr s' (Pool i)) = THREAD_READY \<and>
        heap_ok (kheap s') fl' (x # bl) \<and> agree (foreign (kheap s) fl) (hmem (kheap s)) (hmem (kheap s')) \<and>
        (\<forall>c. 48 \<le> unat (c_rsp c) \<and> {unat (c_rsp c) - 48..<unat (c_rsp c)} \<inter> region x = {} \<longrightarrow>
           (let (_, m, c') = context_switch (rsp (thr s' (Pool i))) (hmem (kheap s'), c)
            in c_rip c' = tr \<and> trampoline_call (m, c') = (ar, en)))))"
proof (cases "free_slot s")
  case None
  then show ?thesis by (simp add: thread_create_def)
next
  case (Some i)
  note sl = free_slot_Some[OF Some]
  have req: "request_ok 8192 16" "(8192 :: u64) \<noteq> 0" by (simp_all add: request_ok_def over_aligned_def)
  from assms(2,3) req show ?thesis
  proof (cases rule: kmalloc_aligned_cases)
    case (fail need)
    then show ?thesis by (simp add: thread_create_def Some kmalloc_def)
  next
    case (success h stack)
    have k: "kmalloc THREAD_STACK_SIZE (kheap s) = Some (stack, h)" "stack \<noteq> 0"
      using success by (auto simp: kmalloc_def allocated_def)
    obtain m sp where f: "fold push64 [en, ar, tr, 0, 0, 0, 0, 0, 0] (hmem h, (stack + THREAD_STACK_SIZE) AND NOT 0xF) = (m, sp)"
      by force
    have al: "allocated (kheap s) fl bl stack 8192 h" using success(2) by simp
    note F = thread_frame[OF al f]
    obtain fl' x where x: "heap_ok (h\<lparr>hmem := m\<rparr>) fl' (x # bl)" "{unat stack..<unat stack + 8192} \<subseteq> region x"
      "agree (foreign (kheap s) fl) (hmem (kheap s)) m" using F(1) by blast
    define s1 where "s1 = upd (Pool i) (\<lambda>t. t\<lparr>tid := next_id s, state := THREAD_READY, entry := en, arg := ar,
      stack_base := stack, nxt := None, tname := name_copy nm, rsp := sp, stack_top := stack + THREAD_STACK_SIZE\<rparr>)
      (s\<lparr>kheap := h\<lparr>hmem := m\<rparr>, next_id := next_id s + 1\<rparr>)"
    have sum: "unat (stack + 8192) = unat stack + 8192" using F(4) by (simp add: unat_word_ariths)
    then have good: "\<not> (sp < stack \<or> sp \<ge> stack + THREAD_STACK_SIZE)"
      using F(2,3) by (simp add: word_less_nat_alt word_le_nat_alt)
    obtain xs where xs: "queue s xs" "set xs = ready_set s" using assms(1) unfolding sched_inv_def by blast
    then have "Pool i \<notin> set xs" using sl by (auto simp: ready_set_def)
    moreover from this have "queue s1 xs" using xs(1) chain_cong[of xs s s1] by (auto simp: queue_def s1_def)
    ultimately obtain s2 where s2: "sched_add (Pool i) s1 = Some s2" "qsame s1 s2" using sched_add_ok by blast
    have r: "thread_create tr nm en ar s = Some (next_id s, s2)"
      unfolding thread_create_def Some option.case k prod.case f Let_def s1_def[symmetric] s2(1)
      using k(2) good qsame_thr(4)[OF s2(2)] by (simp add: s1_def)
    have hs: "kheap s2 = h\<lparr>hmem := m\<rparr>" "rsp (thr s2 (Pool i)) = sp" "state (thr s2 (Pool i)) = THREAD_READY"
      using s2(2) qsame_thr[OF s2(2)] by (simp_all add: qsame_def s1_def)
    have "c_rip c' = tr \<and> trampoline_call (m', c') = (ar, en)"
      if c: "48 \<le> unat (c_rsp c)" "{unat (c_rsp c) - 48..<unat (c_rsp c)} \<inter> region x = {}"
        "context_switch sp (m, c) = (old, m', c')" for c old m' c'
    proof (rule first_switch[OF c(1) _ _ F(5-7) c(3)])
      show "{unat (c_rsp c) - 48..<unat (c_rsp c)} \<inter> {unat sp..<unat sp + 72} = {}"
        using c(2) x(2) F(2,3) by fastforce
    qed (use F(3,4) in simp)
    then have "\<forall>c. 48 \<le> unat (c_rsp c) \<and> {unat (c_rsp c) - 48..<unat (c_rsp c)} \<inter> region x = {} \<longrightarrow>
           (let (_, m, c') = context_switch (rsp (thr s2 (Pool i))) (hmem (kheap s2), c)
            in c_rip c' = tr \<and> trampoline_call (m, c') = (ar, en))"
      using hs by (auto split: prod.split)
    then have "\<exists>i < MAX_THREADS. \<exists>fl' x. next_id s = next_id s \<and> state (thr s (Pool i)) = THREAD_UNUSED \<and> state (thr s2 (Pool i)) = THREAD_READY \<and>
        heap_ok (kheap s2) fl' (x # bl) \<and> agree (foreign (kheap s) fl) (hmem (kheap s)) (hmem (kheap s2)) \<and>
        (\<forall>c. 48 \<le> unat (c_rsp c) \<and> {unat (c_rsp c) - 48..<unat (c_rsp c)} \<inter> region x = {} \<longrightarrow>
           (let (_, m, c') = context_switch (rsp (thr s2 (Pool i))) (hmem (kheap s2), c)
            in c_rip c' = tr \<and> trampoline_call (m, c') = (ar, en)))"
      using sl x hs by (intro exI[of _ i] conjI exI[of _ fl'] exI[of _ x]) simp_all
    then show ?thesis using r by blast
  qed
qed

theorem thread_create_starts_witness:
  "\<exists>r s'. thread_create 0x100000 (Some ''bg'') 0x101000 7 demo_sched = Some (r, s') \<and>
     (r = -1 \<and> (\<forall>t. thr s' t = thr demo_sched t) \<or> r = 4)"
proof -
  have h: "kheap demo_sched = empty_heap" "next_id demo_sched = 4" by (simp_all add: demo_sched_def)
  have "heap_ok (kheap demo_sched) [] []" "heap_ready (kheap demo_sched)"
    unfolding h by (rule empty_heap_ok) (simp add: empty_heap_def)
  from thread_create_starts[OF demo_inv this, of "0x100000" "Some ''bg''" "0x101000" 7] show ?thesis
  proof (elim exE conjE disjE)
    fix r s' assume "thread_create 0x100000 (Some ''bg'') 0x101000 7 demo_sched = Some (r, s')" "r = next_id demo_sched"
    then show ?thesis using h(2) by (intro exI[of _ r] exI[of _ s']) simp
  next
    fix r s' assume "thread_create 0x100000 (Some ''bg'') 0x101000 7 demo_sched = Some (r, s')" "r = -1"
      "\<forall>t. thr s' t = thr demo_sched t"
    then show ?thesis by (intro exI[of _ r] exI[of _ s']) simp
  qed
qed

end
