(* ===== verification/Kbd.thy ===== *)
theory Kbd
  imports GW_Prelude Fifo
begin

text \<open>
  The PS/2 keyboard driver \<open>kernel/drivers/kbd.c\<close>: scan code translation with the modifier state, and the
  ring buffer between the interrupt handler and its readers. The two port reads of an interrupt (status and
  data) are arguments.
\<close>

section \<open>State and translation tables\<close>

abbreviation KBUF :: nat where "KBUF \<equiv> 64"

record kbd =
  kbuf :: "nat \<Rightarrow> u8"
  head :: nat
  tail :: nat
  shift :: bool
  caps :: bool
  ctrl :: bool

definition bytes_of :: "string \<Rightarrow> u8 list" where
  "bytes_of s = map of_char s"

definition table :: "u8 list \<Rightarrow> nat \<Rightarrow> u8" where
  "table xs i = (if i < length xs then xs ! i else 0)"

definition map_plain :: "u8 list" where
  "map_plain = [0, 27] @ bytes_of ''1234567890-='' @ [8, 9] @ bytes_of ''qwertyuiop[]'' @ [10, 0] @
     bytes_of ''asdfghjkl;'' @ [39, 96, 0, 92] @ bytes_of ''zxcvbnm,./'' @ [0, 42, 0, 32]"

definition map_shift :: "u8 list" where
  "map_shift = [0, 27] @ bytes_of ''!@#$%^&*()_+'' @ [8, 9] @ bytes_of ''QWERTYUIOP{}'' @ [10, 0] @
     bytes_of ''ASDFGHJKL:'' @ [34, 126, 0, 124] @ bytes_of ''ZXCVBNM<>?'' @ [0, 42, 0, 32]"

section \<open>Operations\<close>

definition push :: "u8 \<Rightarrow> kbd \<Rightarrow> kbd" where
  "push c s =
     (let n = (head s + 1) mod KBUF
      in if n = tail s then s else s\<lparr>kbuf := (kbuf s)(head s := c), head := n\<rparr>)"

definition kbd_char :: "u8 \<Rightarrow> kbd \<Rightarrow> u8" where
  "kbd_char sc s =
     (if unat sc < 128
      then let up = (shift s \<noteq> caps s);
               c = table (if up then map_shift else map_plain) (unat sc);
               c = (if 97 \<le> c \<and> c \<le> 122 \<and> caps s \<and> \<not> shift s then c - 32 else c)
           in if 65 \<le> c \<and> c \<le> 90 \<and> caps s \<and> shift s then c + 32 else c
      else 0)"

definition kbd_irq :: "u8 \<Rightarrow> u8 \<Rightarrow> kbd \<Rightarrow> kbd" where
  "kbd_irq st sc s =
     (if \<not> bit st 0 then s
      else if sc = 0xE0 then s
      else let release = bit sc 7; sc = sc AND 0x7F
      in if sc = 0x2A \<or> sc = 0x36 then s\<lparr>shift := \<not> release\<rparr>
         else if sc = 0x1D then s\<lparr>ctrl := \<not> release\<rparr>
         else if sc = 0x3A \<and> \<not> release then s\<lparr>caps := \<not> caps s\<rparr>
         else if release then s
         else if ctrl s \<and> sc = 0x2E then push 3 s
         else let c = kbd_char sc s in if c \<noteq> 0 then push c s else s)"

definition kbd_getc_nonblock :: "kbd \<Rightarrow> kbd \<times> int" where
  "kbd_getc_nonblock s =
     (if head s = tail s then (s, -1)
      else (s\<lparr>tail := (tail s + 1) mod KBUF\<rparr>, uint (kbuf s (tail s))))"

definition kbd_init :: "kbd \<Rightarrow> kbd" where
  "kbd_init s = s\<lparr>head := 0, tail := 0, shift := False, caps := False, ctrl := False\<rparr>"

section \<open>The ring buffer is a queue of at most 63 bytes\<close>

definition kqueue :: "kbd \<Rightarrow> u8 list \<Rightarrow> bool" where
  "kqueue s xs \<longleftrightarrow> tail s < KBUF \<and> length xs < KBUF \<and> head s = (tail s + length xs) mod KBUF \<and>
     (\<forall>i < length xs. xs ! i = kbuf s ((tail s + i) mod KBUF))"

definition getc_option :: "kbd \<Rightarrow> kbd \<times> u8 option" where
  "getc_option s = (let (s', r) = kbd_getc_nonblock s in (s', if r = -1 then None else Some (word_of_int r)))"

lemma mod_add_eq_self:
  assumes "t < n" "k < (n :: nat)"
  shows "(t + k) mod n = t \<longleftrightarrow> k = 0"
proof (cases "t + k < n")
  case False
  then have "(t + k) mod n = t + k - n" using assms by (simp add: le_mod_geq)
  then show ?thesis using assms False by linarith
qed simp

lemma mod_add_inj:
  assumes "i < n" "j < (n :: nat)" "(t + i) mod n = (t + j) mod n"
  shows "i = j"
proof -
  have le: "i = j" if "i \<le> j" "j < n" "(t + i) mod n = (t + j) mod n" for i j
  proof -
    have "n dvd (t + j) - (t + i)" using that mod_eq_dvd_iff_nat[of "t + i" "t + j" n] by simp
    then show ?thesis using that nat_dvd_not_less[of "j - i" n] by (cases "i = j") auto
  qed
  show ?thesis using le[of i j] le[of j i] assms by linarith
qed

lemma push_room:
  assumes "kqueue s xs" "length xs < KBUF - 1"
  shows "kqueue (push c s) (xs @ [c])"
proof -
  have q: "tail s < KBUF" "head s = (tail s + length xs) mod KBUF" "\<forall>i < length xs. xs ! i = kbuf s ((tail s + i) mod KBUF)"
    using assms(1) by (auto simp: kqueue_def)
  have n: "(head s + 1) mod KBUF = (tail s + Suc (length xs)) mod KBUF" using q(2) by (simp add: mod_Suc_eq)
  moreover have "(tail s + Suc (length xs)) mod KBUF \<noteq> tail s"
    using mod_add_eq_self[OF q(1), of "Suc (length xs)"] assms(2) by simp
  ultimately have p: "push c s = s\<lparr>kbuf := (kbuf s)(head s := c), head := (tail s + Suc (length xs)) mod KBUF\<rparr>"
    by (simp add: push_def Let_def)
  have "(xs @ [c]) ! i = ((kbuf s)(head s := c)) ((tail s + i) mod KBUF)" if "i < Suc (length xs)" for i
  proof (cases "i = length xs")
    case False
    then have "head s \<noteq> (tail s + i) mod KBUF"
      using mod_add_inj[of i KBUF "length xs" "tail s"] that assms(2) q(2) by auto
    then show ?thesis using False that q(3) by (simp add: nth_append)
  qed (simp add: q(2))
  then show ?thesis using p assms q(1) by (simp add: kqueue_def)
qed

lemma push_full:
  assumes "kqueue s xs" "length xs = KBUF - 1"
  shows "push c s = s"
proof -
  have "(head s + 1) mod KBUF = (tail s + KBUF) mod KBUF" using assms by (simp add: kqueue_def mod_Suc_eq)
  then show ?thesis using assms by (simp add: push_def kqueue_def)
qed

lemma getc_nil: "kqueue s [] \<Longrightarrow> kbd_getc_nonblock s = (s, -1)"
  by (simp add: kqueue_def kbd_getc_nonblock_def)

lemma getc_cons:
  assumes "kqueue s (x # xs)"
  shows "kbd_getc_nonblock s = (s\<lparr>tail := (tail s + 1) mod KBUF\<rparr>, uint x)" "kqueue (s\<lparr>tail := (tail s + 1) mod KBUF\<rparr>) xs"
proof -
  have q: "tail s < KBUF" "Suc (length xs) < KBUF" "head s = (tail s + Suc (length xs)) mod KBUF"
    "\<forall>i < Suc (length xs). (x # xs) ! i = kbuf s ((tail s + i) mod KBUF)"
    using assms by (auto simp: kqueue_def)
  have "head s \<noteq> tail s" using mod_add_eq_self[OF q(1,2)] q(3) by simp
  moreover have "x = kbuf s (tail s)" using q(1,4) by force
  ultimately show "kbd_getc_nonblock s = (s\<lparr>tail := (tail s + 1) mod KBUF\<rparr>, uint x)"
    by (simp add: kbd_getc_nonblock_def)
  have "xs ! i = kbuf s (((tail s + 1) mod KBUF + i) mod KBUF)" if "i < length xs" for i
  proof -
    have "((tail s + 1) mod KBUF + i) mod KBUF = (tail s + Suc i) mod KBUF" by (simp add: mod_add_left_eq)
    then show ?thesis using q(4) that by (metis Suc_less_eq nth_Cons_Suc)
  qed
  then show "kqueue (s\<lparr>tail := (tail s + 1) mod KBUF\<rparr>) xs"
    using q by (simp add: kqueue_def mod_add_left_eq)
qed

interpretation kq: fifo kqueue "\<lambda>xs x. length xs < KBUF - 1" "\<lambda>c s. Some (push c s)" getc_option
proof
  fix s x xs assume k: "kqueue s (x # xs)"
  have "uint x \<noteq> -1" using uint_ge_0[of x] by linarith
  then show "\<exists>s'. getc_option s = (s', Some x) \<and> kqueue s' xs"
    using getc_cons[OF k] by (simp add: getc_option_def)
qed (use push_room getc_nil in \<open>auto simp: getc_option_def\<close>)

section \<open>Properties\<close>


definition demo_kbd :: kbd where
  "demo_kbd = \<lparr>kbuf = (\<lambda>_. 0), head = 5, tail = 9, shift = True, caps = False, ctrl = False\<rparr>"


lemma letter_tables:
  "list_all2 (\<lambda>a b. 97 \<le> a \<and> a \<le> 122 \<longrightarrow> b = a - 32) map_plain map_shift"
  "map_plain ! 0x2A = 0" "map_plain ! 0x36 = 0" "map_plain ! 0x1D = 0" "length map_plain = 58"
  by (simp_all add: map_plain_def map_shift_def bytes_of_def)

text \<open>
  C33. A letter key puts the letter into the buffer, as a capital exactly when one of shift and caps lock
  is active, unless control turns the C key into the interrupt character; the modifier state stays.
\<close>

theorem kbd_irq_letter:
  assumes "bit st 0" "unat sc < 128" "97 \<le> table map_plain (unat sc)" "table map_plain (unat sc) \<le> 122"
    "\<not> (ctrl s \<and> sc = 0x2E)"
  shows "kbd_irq st sc s =
    push (if shift s \<noteq> caps s then table map_plain (unat sc) - 32 else table map_plain (unat sc)) s"
proof -
  define c where "c = table map_plain (unat sc)"
  have i: "unat sc < 58" "c = map_plain ! unat sc"
    using assms(3) letter_tables(5) by (auto simp: table_def c_def split: if_splits)
  have c: "97 \<le> c" "c \<le> 122" using assms(3,4) by (simp_all add: c_def)
  have "map_shift ! unat sc = c - 32" "length map_shift = 58"
    using list_all2_nthD[OF letter_tables(1), of "unat sc"] list_all2_lengthD[OF letter_tables(1)] i letter_tables(5) c by simp_all
  then have l: "table map_shift (unat sc) = c - 32" using i(1) by (simp add: table_def)
  have "unat sc \<noteq> 0x2A" "unat sc \<noteq> 0x36" "unat sc \<noteq> 0x1D" "unat sc \<noteq> 0x3A" "unat sc \<noteq> 0xE0"
    using i c letter_tables(2-4) by force+
  then have n: "sc \<noteq> 0x2A" "sc \<noteq> 0x36" "sc \<noteq> 0x1D" "sc \<noteq> 0x3A" "sc \<noteq> 0xE0" by auto
  have b: "\<not> bit sc 7" "sc AND 0x7F = sc"
  proof -
    have "unat (sc AND mask 7) = unat sc mod 2 ^ 7" by (simp add: take_bit_eq_mask[symmetric] unsigned_take_bit_eq take_bit_eq_mod unat_mod)
    then have "sc AND mask 7 = sc" using assms(2) by (simp add: word_unat_eq_iff)
    then show "sc AND 0x7F = sc" by (simp add: mask_eq_exp_minus_1)
    then have "bit sc 7 = bit (sc AND 0x7F) 7" by simp
    then show "\<not> bit sc 7" by (simp add: bit_simps)
  qed
  have "\<not> 97 \<le> c - 32" "65 \<le> c - 32" "c - 32 \<le> 90" "\<not> c \<le> 90" "c - 32 \<noteq> 0" "c \<noteq> 0"
    using c by (auto simp: word_le_nat_alt unat_sub_if')
  then have "kbd_char sc s = (if shift s \<noteq> caps s then c - 32 else c)" "kbd_char sc s \<noteq> 0"
    using assms(2) l c by (auto simp: kbd_char_def Let_def c_def)
  then show ?thesis using assms(1,5) n b by (auto simp: kbd_irq_def c_def)
qed

theorem kbd_irq_letter_witness: "kbd_irq 1 0x1E demo_kbd = push 65 demo_kbd"
proof -
  have "table map_plain (unat (0x1E :: u8)) = 97" by code_simp
  then show ?thesis using kbd_irq_letter[of 1 "0x1E" demo_kbd] by (simp add: demo_kbd_def)
qed

text \<open>
  Caps lock also shifts the keys that are no letters: with caps lock on and no shift, the digit
  one enters an exclamation mark.
\<close>

lemma kbd_caps_digit:
  "kbd_irq 1 2 (s\<lparr>shift := False, caps := True, ctrl := False\<rparr>) = push 33 (s\<lparr>shift := False, caps := True, ctrl := False\<rparr>)"
proof -
  have "table map_shift 2 = 33" by code_simp
  then show ?thesis by (simp add: kbd_irq_def kbd_char_def Let_def)
qed

end
