(* ===== verification/Screen.thy ===== *)
theory Screen
  imports GW_Prelude
begin

text \<open>
  Text output: the VGA text screen (\<open>kernel/drivers/vga.c\<close>), the framebuffer console (\<open>kernel/drivers/fb.c\<close>)
  and the serial port with its number printers (\<open>kernel/core/serial.c\<close>). Characters are bytes. Screen memory,
  framebuffer pixels and the bytes sent to COM1 are the state; waiting for the UART has no effect on it.
\<close>

section \<open>State\<close>

abbreviation VGA_COLS :: int where "VGA_COLS \<equiv> 80"
abbreviation VGA_ROWS :: int where "VGA_ROWS \<equiv> 25"

record screen =
  vga_mem :: "nat \<Rightarrow> u16"
  vrow :: int
  vcol :: int
  fb :: u64
  pitch32 :: u32
  width :: u32
  height :: u32
  frow :: int
  fcol :: int
  active :: bool
  pix :: "nat \<Rightarrow> u32"
  com1 :: "u8 list"

text \<open>\<open>c < 32\<close> on a signed character: control codes and bytes with the high bit.\<close>

definition below_space :: "u8 \<Rightarrow> bool" where
  "below_space c \<longleftrightarrow> c < 32 \<or> 128 \<le> c"

section \<open>VGA text screen\<close>

definition vga_blank :: u16 where "vga_blank = 0x0F20"

definition vga_cell :: "int \<Rightarrow> int \<Rightarrow> nat" where
  "vga_cell r c = nat (r * VGA_COLS + c)"

definition vga_scroll :: "screen \<Rightarrow> screen" where
  "vga_scroll s =
     (let m1 = fold (\<lambda>r. fold (\<lambda>c m. m((r - 1) * 80 + c := m (r * 80 + c))) [0..<80]) [1..<25] (vga_mem s);
          m2 = fold (\<lambda>c m. m(24 * 80 + c := vga_blank)) [0..<80] m1
      in s\<lparr>vga_mem := m2, vrow := (if vrow s > 0 then VGA_ROWS - 1 else vrow s)\<rparr>)"

definition vga_clear :: "screen \<Rightarrow> screen" where
  "vga_clear s = s\<lparr>vga_mem := fold (\<lambda>i m. m(i := vga_blank)) [0..<2000] (vga_mem s), vrow := 0, vcol := 0\<rparr>"

definition vga_init :: "screen \<Rightarrow> screen" where "vga_init s = vga_clear s"

definition vga_newline :: "screen \<Rightarrow> screen" where
  "vga_newline s =
     (let s1 = s\<lparr>vcol := 0, vrow := vrow s + 1\<rparr>
      in if vrow s1 \<ge> VGA_ROWS then vga_scroll s1 else s1)"

definition vga_putc :: "u8 \<Rightarrow> screen \<Rightarrow> screen" where
  "vga_putc c s =
     (if c = 10 then vga_newline s
      else if c = 13 then s\<lparr>vcol := 0\<rparr>
      else if c = 9 then
        let s1 = s\<lparr>vcol := (vcol s + 4) AND NOT 3\<rparr>
        in if vcol s1 \<ge> VGA_COLS then vga_newline s1 else s1
      else if c = 8 then
        if vcol s > 0
        then s\<lparr>vcol := vcol s - 1, vga_mem := (vga_mem s)(vga_cell (vrow s) (vcol s - 1) := vga_blank)\<rparr> else s
      else if below_space c then s
      else let s1 = s\<lparr>vga_mem := (vga_mem s)(vga_cell (vrow s) (vcol s) := 0x0F00 OR ucast c), vcol := vcol s + 1\<rparr>
           in if vcol s1 \<ge> VGA_COLS then vga_newline s1 else s1)"

definition vga_write :: "u8 list \<Rightarrow> screen \<Rightarrow> screen" where "vga_write cs s = fold vga_putc cs s"

section \<open>Framebuffer console\<close>

text \<open>The 8x8 font for the codes 32 to 127.\<close>

definition font8 :: "u8 list list" where
  "font8 = [
    [0, 0, 0, 0, 0, 0, 0, 0], [0x18, 0x18, 0x18, 0x18, 0x18, 0, 0x18, 0],
    [0x6C, 0x6C, 0x24, 0, 0, 0, 0, 0], [0x6C, 0xFE, 0x6C, 0x6C, 0xFE, 0x6C, 0, 0],
    [0x18, 0x3E, 0x60, 0x3C, 0x06, 0x7C, 0x18, 0], [0x62, 0x66, 0x0C, 0x18, 0x30, 0x66, 0x46, 0],
    [0x38, 0x6C, 0x38, 0x76, 0xDC, 0xCC, 0x76, 0], [0x18, 0x18, 0x10, 0, 0, 0, 0, 0],
    [0x0C, 0x18, 0x30, 0x30, 0x30, 0x18, 0x0C, 0], [0x30, 0x18, 0x0C, 0x0C, 0x0C, 0x18, 0x30, 0],
    [0, 0x66, 0x3C, 0xFF, 0x3C, 0x66, 0, 0], [0, 0x18, 0x18, 0x7E, 0x18, 0x18, 0, 0],
    [0, 0, 0, 0, 0, 0x18, 0x18, 0x30], [0, 0, 0, 0x7E, 0, 0, 0, 0],
    [0, 0, 0, 0, 0, 0x18, 0x18, 0], [0x02, 0x06, 0x0C, 0x18, 0x30, 0x60, 0x40, 0],
    [0x3C, 0x66, 0x6E, 0x76, 0x66, 0x66, 0x3C, 0], [0x18, 0x38, 0x18, 0x18, 0x18, 0x18, 0x7E, 0],
    [0x3C, 0x66, 0x06, 0x0C, 0x18, 0x30, 0x7E, 0], [0x3C, 0x66, 0x06, 0x1C, 0x06, 0x66, 0x3C, 0],
    [0x0C, 0x1C, 0x3C, 0x6C, 0x7E, 0x0C, 0x0C, 0], [0x7E, 0x60, 0x7C, 0x06, 0x06, 0x66, 0x3C, 0],
    [0x1C, 0x30, 0x60, 0x7C, 0x66, 0x66, 0x3C, 0], [0x7E, 0x06, 0x0C, 0x18, 0x30, 0x30, 0x30, 0],
    [0x3C, 0x66, 0x66, 0x3C, 0x66, 0x66, 0x3C, 0], [0x3C, 0x66, 0x66, 0x3E, 0x06, 0x0C, 0x38, 0],
    [0, 0x18, 0x18, 0, 0x18, 0x18, 0, 0], [0, 0x18, 0x18, 0, 0x18, 0x18, 0x30, 0],
    [0x0C, 0x18, 0x30, 0x60, 0x30, 0x18, 0x0C, 0], [0, 0, 0x7E, 0, 0x7E, 0, 0, 0],
    [0x60, 0x30, 0x18, 0x0C, 0x18, 0x30, 0x60, 0], [0x3C, 0x66, 0x06, 0x0C, 0x18, 0, 0x18, 0],
    [0x3C, 0x66, 0x6E, 0x6A, 0x6E, 0x60, 0x3C, 0], [0x18, 0x3C, 0x66, 0x66, 0x7E, 0x66, 0x66, 0],
    [0x7C, 0x66, 0x66, 0x7C, 0x66, 0x66, 0x7C, 0], [0x3C, 0x66, 0x60, 0x60, 0x60, 0x66, 0x3C, 0],
    [0x78, 0x6C, 0x66, 0x66, 0x66, 0x6C, 0x78, 0], [0x7E, 0x60, 0x60, 0x7C, 0x60, 0x60, 0x7E, 0],
    [0x7E, 0x60, 0x60, 0x7C, 0x60, 0x60, 0x60, 0], [0x3C, 0x66, 0x60, 0x6E, 0x66, 0x66, 0x3C, 0],
    [0x66, 0x66, 0x66, 0x7E, 0x66, 0x66, 0x66, 0], [0x7E, 0x18, 0x18, 0x18, 0x18, 0x18, 0x7E, 0],
    [0x06, 0x06, 0x06, 0x06, 0x06, 0x66, 0x3C, 0], [0x66, 0x6C, 0x78, 0x70, 0x78, 0x6C, 0x66, 0],
    [0x60, 0x60, 0x60, 0x60, 0x60, 0x60, 0x7E, 0], [0x63, 0x77, 0x7F, 0x6B, 0x63, 0x63, 0x63, 0],
    [0x66, 0x76, 0x7E, 0x7E, 0x6E, 0x66, 0x66, 0], [0x3C, 0x66, 0x66, 0x66, 0x66, 0x66, 0x3C, 0],
    [0x7C, 0x66, 0x66, 0x7C, 0x60, 0x60, 0x60, 0], [0x3C, 0x66, 0x66, 0x66, 0x6A, 0x6C, 0x36, 0],
    [0x7C, 0x66, 0x66, 0x7C, 0x6C, 0x66, 0x66, 0], [0x3C, 0x66, 0x60, 0x3C, 0x06, 0x66, 0x3C, 0],
    [0x7E, 0x18, 0x18, 0x18, 0x18, 0x18, 0x18, 0], [0x66, 0x66, 0x66, 0x66, 0x66, 0x66, 0x3C, 0],
    [0x66, 0x66, 0x66, 0x66, 0x66, 0x3C, 0x18, 0], [0x63, 0x63, 0x63, 0x6B, 0x7F, 0x77, 0x63, 0],
    [0x66, 0x66, 0x3C, 0x18, 0x3C, 0x66, 0x66, 0], [0x66, 0x66, 0x66, 0x3C, 0x18, 0x18, 0x18, 0],
    [0x7E, 0x06, 0x0C, 0x18, 0x30, 0x60, 0x7E, 0], [0x3C, 0x30, 0x30, 0x30, 0x30, 0x30, 0x3C, 0],
    [0x40, 0x60, 0x30, 0x18, 0x0C, 0x06, 0x02, 0], [0x3C, 0x0C, 0x0C, 0x0C, 0x0C, 0x0C, 0x3C, 0],
    [0x18, 0x3C, 0x66, 0, 0, 0, 0, 0], [0, 0, 0, 0, 0, 0, 0, 0xFF],
    [0x30, 0x18, 0x0C, 0, 0, 0, 0, 0], [0, 0, 0x3C, 0x06, 0x3E, 0x66, 0x3E, 0],
    [0x60, 0x60, 0x7C, 0x66, 0x66, 0x66, 0x7C, 0], [0, 0, 0x3C, 0x66, 0x60, 0x66, 0x3C, 0],
    [0x06, 0x06, 0x3E, 0x66, 0x66, 0x66, 0x3E, 0], [0, 0, 0x3C, 0x66, 0x7E, 0x60, 0x3C, 0],
    [0x1C, 0x30, 0x30, 0x7C, 0x30, 0x30, 0x30, 0], [0, 0, 0x3E, 0x66, 0x66, 0x3E, 0x06, 0x3C],
    [0x60, 0x60, 0x7C, 0x66, 0x66, 0x66, 0x66, 0], [0x18, 0, 0x38, 0x18, 0x18, 0x18, 0x3C, 0],
    [0x0C, 0, 0x0C, 0x0C, 0x0C, 0x0C, 0x6C, 0x38], [0x60, 0x60, 0x66, 0x6C, 0x78, 0x6C, 0x66, 0],
    [0x38, 0x18, 0x18, 0x18, 0x18, 0x18, 0x3C, 0], [0, 0, 0x76, 0x7F, 0x6B, 0x63, 0x63, 0],
    [0, 0, 0x7C, 0x66, 0x66, 0x66, 0x66, 0], [0, 0, 0x3C, 0x66, 0x66, 0x66, 0x3C, 0],
    [0, 0, 0x7C, 0x66, 0x66, 0x7C, 0x60, 0x60], [0, 0, 0x3E, 0x66, 0x66, 0x3E, 0x06, 0x06],
    [0, 0, 0x6C, 0x76, 0x60, 0x60, 0x60, 0], [0, 0, 0x3E, 0x60, 0x3C, 0x06, 0x7C, 0],
    [0x30, 0x30, 0x7C, 0x30, 0x30, 0x30, 0x1C, 0], [0, 0, 0x66, 0x66, 0x66, 0x66, 0x3E, 0],
    [0, 0, 0x66, 0x66, 0x66, 0x3C, 0x18, 0], [0, 0, 0x63, 0x6B, 0x7F, 0x3E, 0x36, 0],
    [0, 0, 0x66, 0x3C, 0x18, 0x3C, 0x66, 0], [0, 0, 0x66, 0x66, 0x66, 0x3E, 0x06, 0x3C],
    [0, 0, 0x7E, 0x0C, 0x18, 0x30, 0x7E, 0], [0x0E, 0x18, 0x18, 0x70, 0x18, 0x18, 0x0E, 0],
    [0x18, 0x18, 0x18, 0x18, 0x18, 0x18, 0x18, 0], [0x70, 0x18, 0x18, 0x0E, 0x18, 0x18, 0x70, 0],
    [0x76, 0xDC, 0, 0, 0, 0, 0, 0], [0, 0, 0, 0, 0, 0, 0, 0]]"

text \<open>
  Coordinates are C ints, converted to unsigned for the range check and the index.
\<close>

definition put_pixel :: "int \<Rightarrow> int \<Rightarrow> u32 \<Rightarrow> screen \<Rightarrow> screen" where
  "put_pixel x y color s =
     (if (word_of_int x :: u32) \<ge> width s \<or> (word_of_int y :: u32) \<ge> height s \<or> fb s = 0 then s
      else s\<lparr>pix := (pix s)(unat (word_of_int y * pitch32 s + word_of_int x) := color)\<rparr>)"

definition glyph :: "u8 \<Rightarrow> u8 list" where
  "glyph ch = font8 ! (unat (if below_space ch then 63 else ch) - 32)"

definition draw_char :: "int \<Rightarrow> int \<Rightarrow> u8 \<Rightarrow> u32 \<Rightarrow> u32 \<Rightarrow> screen \<Rightarrow> screen" where
  "draw_char cx cy ch fg bg s =
     fold (\<lambda>row. fold (\<lambda>col. put_pixel (cx * 8 + int col) (cy * 8 + int row)
         (if bit (glyph ch ! row) (7 - col) then fg else bg)) [0..<8]) [0..<8] s"

text \<open>The index of pixel \<open>x\<close> in scan line \<open>y\<close>, from a byte offset computed in 32 bits.\<close>

definition line_pixel :: "screen \<Rightarrow> u32 \<Rightarrow> nat \<Rightarrow> nat" where
  "line_pixel s y x = unat (y * (pitch32 s * 4)) div 4 + x"

definition fb_scroll :: "screen \<Rightarrow> screen" where
  "fb_scroll s =
     (if fb s = 0 then s
      else
        let copy = (\<lambda>y p. fold (\<lambda>x p. p(line_pixel s (of_nat y - 8) x := p (line_pixel s (of_nat y) x))) [0..<unat (pitch32 s)] p);
            clear = (\<lambda>y p. fold (\<lambda>x p. p(line_pixel s (of_nat y) x := 0)) [0..<unat (pitch32 s)] p);
            p1 = fold copy [8..<unat (height s)] (pix s);
            p2 = fold clear [unat (height s - 8)..<unat (height s)] p1
        in s\<lparr>pix := p2, frow := (if frow s > 0 then int (unat (height s div 8)) - 1 else frow s)\<rparr>)"

definition fb_newline :: "screen \<Rightarrow> screen" where
  "fb_newline s =
     (let s1 = s\<lparr>fcol := 0, frow := frow s + 1\<rparr>
      in if frow s1 \<ge> int (unat (height s div 8)) then fb_scroll s1 else s1)"

definition fb_putc :: "u8 \<Rightarrow> screen \<Rightarrow> screen" where
  "fb_putc c s =
     (if \<not> active s then s
      else if c = 10 then fb_newline s
      else if c = 13 then s\<lparr>fcol := 0\<rparr>
      else if c = 8 then
        if fcol s > 0
        then let s1 = s\<lparr>fcol := fcol s - 1\<rparr> in draw_char (fcol s1) (frow s1) 32 0xFFFFFF 0x00101828 s1 else s
      else if below_space c then s
      else let s1 = draw_char (fcol s) (frow s) c 0xE8F0FF 0x00101828 s; s2 = s1\<lparr>fcol := fcol s1 + 1\<rparr>
           in if fcol s2 \<ge> int (unat (width s div 8)) then fb_newline s2 else s2)"

definition fb_write :: "u8 list \<Rightarrow> screen \<Rightarrow> screen" where "fb_write cs s = fold fb_putc cs s"

definition fb_active :: "screen \<Rightarrow> bool" where "fb_active s = active s"

section \<open>Serial port\<close>

definition serial_putc :: "u8 \<Rightarrow> screen \<Rightarrow> screen" where
  "serial_putc c s =
     (let s1 = fb_putc c (vga_putc c s)
      in s1\<lparr>com1 := com1 s1 @ (if c = 10 then [13, 10] else [c])\<rparr>)"

definition serial_write :: "u8 list \<Rightarrow> screen \<Rightarrow> screen" where
  "serial_write cs s = fold serial_putc cs s"

definition hex_digit :: "u64 \<Rightarrow> u8" where
  "hex_digit d = (if d < 10 then 48 + ucast d else 55 + ucast d)"

definition hex_chars :: "u64 \<Rightarrow> u8 list" where
  "hex_chars val = map (\<lambda>i. hex_digit (drop_bit (i * 4) val AND 0xF)) (rev [0..<16])"

definition serial_write_hex :: "u64 \<Rightarrow> screen \<Rightarrow> screen" where
  "serial_write_hex val s = serial_write (hex_chars val) (serial_write [48, 120] s)"

text \<open>The digit loop: least significant digit first, at most 23 of them.\<close>

fun dec_digits :: "nat \<Rightarrow> u64 \<Rightarrow> u8 list" where
  "dec_digits 0 val = []"
| "dec_digits (Suc n) val = (if val > 0 then (48 + ucast (val mod 10)) # dec_digits n (val div 10) else [])"

definition dec_chars :: "u64 \<Rightarrow> u8 list" where
  "dec_chars val = (if val = 0 then [48] else rev (dec_digits 23 val))"

definition serial_write_dec :: "u64 \<Rightarrow> screen \<Rightarrow> screen" where
  "serial_write_dec val s = serial_write (dec_chars val) s"

section \<open>Copy loops\<close>

lemma copy_row:
  "a + n \<le> b \<Longrightarrow> fold (\<lambda>c m. m(a + c := m (b + c))) [0..<n] m =
     (\<lambda>i. if a \<le> i \<and> i < a + n then m (b + (i - a)) else m (i :: nat))"
  by (induction n) (auto simp: fun_eq_iff)

lemma fill_row:
  "fold (\<lambda>c m. m(a + c := v)) [0..<n] m = (\<lambda>i. if a \<le> i \<and> i < a + n then v else m (i :: nat))"
  by (induction n) (auto simp: fun_eq_iff)

lemma copy_rows:
  assumes "0 < d"
  shows "fold (\<lambda>y. fold (\<lambda>c m. m((y - d) * w + c := m (y * w + c))) [0..<w]) [d..<d + k] m =
    (\<lambda>i. if i < k * w then m (i + d * w) else m (i :: nat))"
proof (induction k)
  case (Suc k)
  have le: "k * w + w \<le> (d + k) * w" using assms by (cases d) (simp_all add: algebra_simps)
  have up: "[d..<d + Suc k] = [d..<d + k] @ [d + k]" by simp
  have "fold (\<lambda>y. fold (\<lambda>c m. m((y - d) * w + c := m (y * w + c))) [0..<w]) [d..<d + Suc k] m =
      fold (\<lambda>c m. m(k * w + c := m ((d + k) * w + c))) [0..<w] (\<lambda>i. if i < k * w then m (i + d * w) else m i)"
    by (simp only: up fold_append comp_apply Suc.IH fold_simps diff_add_inverse)
  also have "\<dots> = (\<lambda>i. if i < Suc k * w then m (i + d * w) else m i)"
    unfolding copy_row[OF le]
  proof (intro ext)
    fix i
    have "\<not> (d + k) * w + (i - k * w) < k * w" using le by linarith
    moreover have "(d + k) * w + (i - k * w) = i + d * w" if "k * w \<le> i" using that by (simp add: algebra_simps)
    ultimately show "(if k * w \<le> i \<and> i < k * w + w
        then if (d + k) * w + (i - k * w) < k * w then m ((d + k) * w + (i - k * w) + d * w) else m ((d + k) * w + (i - k * w))
        else if i < k * w then m (i + d * w) else m i) = (if i < Suc k * w then m (i + d * w) else m i)"
      by auto
  qed
  finally show ?case .
qed simp

section \<open>Numbers\<close>

definition digits_value :: "nat \<Rightarrow> nat list \<Rightarrow> nat" where
  "digits_value b ds = foldl (\<lambda>a d. a * b + d) 0 ds"

definition dec_value :: "u8 list \<Rightarrow> nat" where
  "dec_value cs = digits_value 10 (map (\<lambda>c. unat (c - 48)) cs)"

definition hex_value :: "u8 list \<Rightarrow> nat" where
  "hex_value cs = digits_value 16 (map (\<lambda>c. unat (if c < 58 then c - 48 else c - 55)) cs)"

lemma digits_value_snoc [simp]: "digits_value b (ds @ [d]) = digits_value b ds * b + d"
  by (simp add: digits_value_def)

lemma unat_mod10: "unat (ucast (val mod 10 :: u64) :: u8) = unat val mod 10"
proof -
  have "unat (val mod 10) = unat val mod 10" by (simp add: unat_mod)
  moreover from this have "unat (val mod 10) < 2 ^ 8" by (simp add: order.strict_trans[OF mod_less_divisor])
  ultimately show ?thesis by (simp add: unsigned_ucast_eq take_bit_nat_eq_self)
qed

lemma digit_char:
  "unat (48 + ucast (val mod 10 :: u64) :: u8) = 48 + unat val mod 10"
proof -
  have "unat val mod 10 < 10" by simp
  then show ?thesis using unat_mod10[of val] by (simp add: unat_word_ariths)
qed

lemma dec_digits_value:
  "unat val < 10 ^ n \<Longrightarrow> dec_value (rev (dec_digits n val)) = unat val"
proof (induction n arbitrary: val)
  case (Suc n)
  have d: "unat (val div 10) = unat val div 10" by (simp add: unat_div)
  then have "unat (val div 10) < 10 ^ n" using Suc.prems by (simp add: div_less_iff_less_mult)
  then have "dec_value (rev (dec_digits n (val div 10))) = unat val div 10" using Suc.IH d by simp
  then show ?case by (cases "val = 0") (simp_all add: dec_value_def unat_mod10 word_gt_0 digits_value_def)
qed (simp add: dec_value_def digits_value_def)

lemma dec_digits_range: "list_all (\<lambda>c. 48 \<le> c \<and> c \<le> 57) (dec_digits n val)"
proof (induction n arbitrary: val)
  case (Suc n)
  have "unat val mod 10 \<le> 9" by simp
  then have "48 \<le> (48 + ucast (val mod 10) :: u8) \<and> (48 + ucast (val mod 10) :: u8) \<le> 57"
    using digit_char[of val] by (simp add: word_le_nat_alt)
  then show ?case using Suc.IH by simp
qed simp

lemma dec_digits_last:
  "val \<noteq> 0 \<Longrightarrow> unat val < 10 ^ n \<Longrightarrow> dec_digits n val \<noteq> [] \<and> last (dec_digits n val) \<noteq> 48"
proof (induction n arbitrary: val)
  case (Suc n)
  have d: "unat (val div 10) = unat val div 10" by (simp add: unat_div)
  have "unat (val div 10) < 10 ^ n" using Suc.prems d by (simp add: div_less_iff_less_mult)
  show ?case
  proof (cases "val div 10 = 0")
    case True
    then have "unat val div 10 = 0" using d by simp
    then have "unat val mod 10 = unat val" by simp
    then have "unat (48 + ucast (val mod 10) :: u8) \<noteq> unat (48 :: u8)" using digit_char[of val] Suc.prems(1) by (simp add: unat_eq_zero)
    then have "(48 + ucast (val mod 10) :: u8) \<noteq> 48" by auto
    moreover have "dec_digits n (val div 10) = []" using True by (cases n) simp_all
    ultimately show ?thesis using Suc.prems(1) by (simp add: word_gt_0)
  next
    case False
    then show ?thesis using Suc.IH[OF False \<open>unat (val div 10) < 10 ^ n\<close>] Suc.prems(1) by (simp add: word_gt_0)
  qed
qed (auto simp: unat_eq_zero)

lemma dec_digits_length: "unat val < 10 ^ k \<Longrightarrow> length (dec_digits n val) \<le> k"
proof (induction n arbitrary: val k)
  case (Suc n)
  show ?case
  proof (cases "val = 0")
    case False
    then obtain k' where k: "k = Suc k'" using Suc.prems by (cases k) (auto simp: unat_eq_zero)
    have "unat (val div 10) < 10 ^ k'" using Suc.prems k by (simp add: unat_div div_less_iff_less_mult)
    then show ?thesis using Suc.IH k False by (simp add: word_gt_0)
  qed simp
qed simp

lemma hex_digit_value:
  assumes "d < 16"
  shows "unat (if hex_digit d < 58 then hex_digit d - 48 else hex_digit d - 55) = unat d" "hex_digit d \<noteq> 10"
proof -
  have n: "unat d < 16" using assms by (simp add: word_less_nat_alt)
  have u: "unat (ucast d :: u8) = unat d" using n by (simp add: unsigned_ucast_eq take_bit_nat_eq_self)
  show "unat (if hex_digit d < 58 then hex_digit d - 48 else hex_digit d - 55) = unat d" "hex_digit d \<noteq> 10"
    using n u by (auto simp: hex_digit_def word_less_nat_alt unat_word_ariths word_unat_eq_iff)
qed

lemma and_15: "unat (x AND 0xF :: u64) = unat x mod 16"
proof -
  have "x AND 0xF = take_bit 4 x" by (simp add: take_bit_eq_mask mask_eq_exp_minus_1)
  then show ?thesis by (simp add: unsigned_take_bit_eq take_bit_eq_mod unat_mod)
qed

lemma nibbles_value:
  "foldl (\<lambda>a d. a * 16 + d) acc (map (\<lambda>i. v div 16 ^ i mod 16) (rev [0..<n])) = acc * 16 ^ n + v mod 16 ^ n" for v :: nat
proof (induction n arbitrary: acc)
  case (Suc n)
  have "v mod 16 ^ Suc n = v mod 16 ^ n + 16 ^ n * (v div 16 ^ n mod 16)"
    using mod_mult2_eq[of v "16 ^ n" 16] by (simp add: mult.commute)
  then show ?case using Suc.IH[of "acc * 16 + v div 16 ^ n mod 16"] by (simp add: algebra_simps)
qed simp

lemma hex_chars_value: "hex_value (hex_chars val) = unat val"
proof -
  have d: "unat (drop_bit (i * 4) val AND 0xF) = unat val div 16 ^ i mod 16" for i
  proof -
    have "unat (drop_bit (i * 4) val) = unat val div 2 ^ (i * 4)" 
      unfolding unsigned_drop_bit_eq using unsigned_less[of val, where 'a = nat]
      by (simp add: drop_bit_eq_div take_bit_nat_eq_self)
    also have "(2 :: nat) ^ (i * 4) = 16 ^ i" by (simp add: power_mult mult.commute[of i])
    finally show ?thesis by (simp only: and_15)
  qed
  have "drop_bit (i * 4) val AND 0xF < 16" for i
    using and_15[of "drop_bit (i * 4) val"] by (simp add: word_less_nat_alt)
  then have "map (\<lambda>c. unat (if c < 58 then c - 48 else c - 55)) (hex_chars val) =
      map (\<lambda>i. unat val div 16 ^ i mod 16) (rev [0..<16])"
    unfolding hex_chars_def map_map by (intro map_cong refl) (simp only: comp_apply hex_digit_value(1) d)
  then have "hex_value (hex_chars val) = unat val mod 16 ^ 16"
    using nibbles_value[of 0 "unat val" 16] unfolding hex_value_def digits_value_def by (simp only: mult_0 add_0)
  then show ?thesis using unsigned_less[of val, where 'a = nat] by simp
qed

section \<open>Screen invariant\<close>

text \<open>Geometry that the boot information must provide: at least one character cell, lines inside the pitch, and fewer than \<open>2\<^sup>30\<close> pixels.\<close>

definition geometry :: "screen \<Rightarrow> bool" where
  "geometry s \<longleftrightarrow> 8 \<le> unat (width s) \<and> 8 \<le> unat (height s) \<and> unat (width s) \<le> unat (pitch32 s) \<and>
     4 * (unat (height s) * unat (pitch32 s)) < 2 ^ 32"

definition cursor_ok :: "screen \<Rightarrow> bool" where
  "cursor_ok s \<longleftrightarrow> 0 \<le> vrow s \<and> vrow s < VGA_ROWS \<and> 0 \<le> vcol s \<and> vcol s < VGA_COLS \<and>
     (active s \<longrightarrow> fb s \<noteq> 0 \<and> 0 \<le> frow s \<and> frow s < int (unat (height s) div 8) \<and> 0 \<le> fcol s \<and> fcol s < int (unat (width s) div 8))"

text \<open>Same geometry, and no memory outside the text screen and the visible framebuffer lines changed.\<close>

definition confined :: "screen \<Rightarrow> screen \<Rightarrow> bool" where
  "confined s s' \<longleftrightarrow> width s' = width s \<and> height s' = height s \<and> pitch32 s' = pitch32 s \<and> active s' = active s \<and> fb s' = fb s \<and>
     (\<forall>i \<ge> 2000. vga_mem s' i = vga_mem s i) \<and> (\<forall>i \<ge> unat (height s) * unat (pitch32 s). pix s' i = pix s i)"

lemma confined_refl [simp]: "confined s s"
  by (simp add: confined_def)

lemma confined_trans: "confined s s' \<Longrightarrow> confined s' s'' \<Longrightarrow> confined s s''"
  by (simp add: confined_def)

lemma vga_scroll_mem:
  "vga_mem (vga_scroll s) = (\<lambda>i. if i < 1920 then vga_mem s (i + 80) else if i < 2000 then vga_blank else vga_mem s i)"
proof -
  have "fold (\<lambda>r. fold (\<lambda>c m. m((r - 1) * 80 + c := m (r * 80 + c))) [0..<80]) [1..<25] (vga_mem s) =
      (\<lambda>i. if i < 24 * 80 then vga_mem s (i + 1 * 80) else vga_mem s i)"
    using copy_rows[of 1 80 24 "vga_mem s"] by (simp del: upt_rec_numeral)
  then show ?thesis unfolding vga_scroll_def Let_def fill_row by (auto simp: fun_eq_iff)
qed

lemma fill_rows:
  "fold (\<lambda>y. fold (\<lambda>c m. m(y * w + c := v)) [0..<w]) [a..<a + k] m =
    (\<lambda>i. if a * w \<le> i \<and> i < (a + k) * w then v else m (i :: nat))"
proof (induction k)
  case (Suc k)
  have up: "[a..<a + Suc k] = [a..<a + k] @ [a + k]" by simp
  have "fold (\<lambda>y. fold (\<lambda>c m. m(y * w + c := v)) [0..<w]) [a..<a + Suc k] m =
      (\<lambda>i. if (a + k) * w \<le> i \<and> i < (a + k) * w + w then v else if a * w \<le> i \<and> i < (a + k) * w then v else m i)"
    by (simp only: up fold_append comp_apply Suc.IH fold_simps fill_row)
  also have "\<dots> = (\<lambda>i. if a * w \<le> i \<and> i < (a + Suc k) * w then v else m i)"
    by (auto simp: fun_eq_iff algebra_simps)
  finally show ?case .
qed (auto simp: fun_eq_iff)

lemma line_pixel_nat:
  assumes "geometry s" "y < unat (height s)"
  shows "line_pixel s (of_nat y) x = y * unat (pitch32 s) + x"
proof -
  have bound: "k * (unat (pitch32 s) * 4) < 2 ^ 32" if "k \<le> unat (height s)" for k
  proof -
    have "k * unat (pitch32 s) \<le> unat (height s) * unat (pitch32 s)" using that by (rule mult_le_mono1)
    moreover have "4 * (unat (height s) * unat (pitch32 s)) < 2 ^ 32" using assms(1) by (simp only: geometry_def)
    ultimately have "4 * (k * unat (pitch32 s)) < 2 ^ 32" by linarith
    then show ?thesis by (simp only: ac_simps)
  qed
  have b: "y * (unat (pitch32 s) * 4) < 2 ^ 32" and p: "unat (pitch32 s) * 4 < 2 ^ 32"
    using bound[of y] bound[of 1] assms(2) by simp_all
  have "y < 2 ^ 32" using assms(2) unsigned_less[of "height s", where 'a = nat] by simp
  then have "unat (of_nat y * (pitch32 s * 4)) = y * (unat (pitch32 s) * 4)"
    using b p by (simp add: unat_word_ariths unat_of_nat take_bit_nat_eq_self)
  then show ?thesis by (simp add: line_pixel_def)
qed

lemma fb_scroll_pix:
  assumes "geometry s" "fb s \<noteq> 0"
  shows "pix (fb_scroll s) = (\<lambda>i. if i < (unat (height s) - 8) * unat (pitch32 s) then pix s (i + 8 * unat (pitch32 s))
    else if i < unat (height s) * unat (pitch32 s) then 0 else pix s i)"
proof -
  define h w where "h = unat (height s)" and "w = unat (pitch32 s)"
  have h: "8 \<le> h" using assms(1) by (simp add: geometry_def h_def)
  have h8: "unat (height s - 8) = h - 8" using h by (simp add: unat_sub_if' h_def)
  have l2: "line_pixel s (of_nat y) x = y * w + x" if "y < h" for x y
    using line_pixel_nat[OF assms(1)] that by (simp add: h_def w_def)
  have l1: "line_pixel s (of_nat y - 8) x = (y - 8) * w + x" if "8 \<le> y" "y < h" for x y
    using l2[of "y - 8"] that by simp
  have "fold (\<lambda>y p. fold (\<lambda>x p. p(line_pixel s (of_nat y - 8) x := p (line_pixel s (of_nat y) x))) [0..<w] p) [8..<h] (pix s) =
      fold (\<lambda>y. fold (\<lambda>c m. m((y - 8) * w + c := m (y * w + c))) [0..<w]) [8..<h] (pix s)"
    by (intro fold_cong refl) (simp add: l1 l2)
  also have "\<dots> = (\<lambda>i. if i < (h - 8) * w then pix s (i + 8 * w) else pix s i)"
    using copy_rows[of 8 w "h - 8" "pix s"] h by simp
  finally have c: "fold (\<lambda>y p. fold (\<lambda>x p. p(line_pixel s (of_nat y - 8) x := p (line_pixel s (of_nat y) x))) [0..<w] p) [8..<h] (pix s) =
      (\<lambda>i. if i < (h - 8) * w then pix s (i + 8 * w) else pix s i)" .
  have f: "fold (\<lambda>y p. fold (\<lambda>x p. p(line_pixel s (of_nat y) x := 0)) [0..<w] p) [h - 8..<h] m =
      (\<lambda>i. if (h - 8) * w \<le> i \<and> i < h * w then 0 else m i)" for m
  proof -
    have "fold (\<lambda>y p. fold (\<lambda>x p. p(line_pixel s (of_nat y) x := 0)) [0..<w] p) [h - 8..<h] m =
        fold (\<lambda>y. fold (\<lambda>c m. m(y * w + c := 0)) [0..<w]) [h - 8..<h] m"
      by (intro fold_cong refl) (simp add: l2)
    then show ?thesis using fill_rows[of w 0 "h - 8" 8 m] h by simp
  qed
  have "pix (fb_scroll s) = (\<lambda>i. if (h - 8) * w \<le> i \<and> i < h * w then 0 else if i < (h - 8) * w then pix s (i + 8 * w) else pix s i)"
    unfolding fb_scroll_def Let_def h8 h_def[symmetric] w_def[symmetric] c f using assms(2) by simp
  then show ?thesis unfolding h_def[symmetric] w_def[symmetric] by (auto simp: fun_eq_iff)
qed

lemma put_pixel_confined:
  assumes "geometry s"
  shows "confined s (put_pixel x y c s)" "cursor_ok (put_pixel x y c s) = cursor_ok s"
    "frow (put_pixel x y c s) = frow s" "fcol (put_pixel x y c s) = fcol s"
proof -
  show "cursor_ok (put_pixel x y c s) = cursor_ok s"
    "frow (put_pixel x y c s) = frow s" "fcol (put_pixel x y c s) = fcol s"
    by (simp_all add: put_pixel_def cursor_ok_def)
  show "confined s (put_pixel x y c s)"
  proof (cases "(word_of_int x :: u32) \<ge> width s \<or> (word_of_int y :: u32) \<ge> height s \<or> fb s = 0")
    case False
    define X Y where "X = (word_of_int x :: u32)" and "Y = (word_of_int y :: u32)"
    have b: "unat X < unat (pitch32 s)" "unat Y < unat (height s)"
      using False assms by (auto simp: X_def Y_def geometry_def word_less_nat_alt word_le_nat_alt not_le)
    have "unat Y * unat (pitch32 s) + unat X < (unat Y + 1) * unat (pitch32 s)" using b(1) by simp
    also have "\<dots> \<le> unat (height s) * unat (pitch32 s)" using b(2) by (intro mult_le_mono1) simp
    finally have l: "unat Y * unat (pitch32 s) + unat X < unat (height s) * unat (pitch32 s)" .
    then have "unat (Y * pitch32 s + X) = unat Y * unat (pitch32 s) + unat X"
      using assms by (simp add: geometry_def unat_word_ariths)
    then show ?thesis using False l by (auto simp: put_pixel_def confined_def X_def Y_def)
  qed (auto simp: put_pixel_def)
qed

lemma draw_char_confined:
  assumes "geometry s"
  shows "confined s (draw_char cx cy ch fg bg s)" "cursor_ok (draw_char cx cy ch fg bg s) = cursor_ok s"
    "frow (draw_char cx cy ch fg bg s) = frow s" "fcol (draw_char cx cy ch fg bg s) = fcol s"
proof -
  define P where "P s' \<longleftrightarrow> geometry s' \<and> confined s s' \<and> cursor_ok s' = cursor_ok s \<and> frow s' = frow s \<and> fcol s' = fcol s" for s'
  have step: "P (put_pixel x y c s')" if "P s'" for x y c s'
    using that put_pixel_confined[of s' x y c] confined_trans[of s s' "put_pixel x y c s'"]
    by (auto simp: P_def geometry_def confined_def)
  have row: "P s' \<Longrightarrow> P (fold (\<lambda>col. put_pixel (f col) y (g col)) xs s')" for f g y s' and xs :: "nat list"
    by (induction xs arbitrary: s') (auto intro: step)
  have rows: "P s' \<Longrightarrow> P (fold (\<lambda>row. fold (\<lambda>col. put_pixel (f row col) (y row) (g row col)) xs) ys s')"
    for f g y s' and xs ys :: "nat list"
    by (induction ys arbitrary: s') (auto intro: row)
  have "P s" using assms by (simp add: P_def)
  then have "P (draw_char cx cy ch fg bg s)" unfolding draw_char_def by (rule rows)
  then show "confined s (draw_char cx cy ch fg bg s)" "cursor_ok (draw_char cx cy ch fg bg s) = cursor_ok s"
    "frow (draw_char cx cy ch fg bg s) = frow s" "fcol (draw_char cx cy ch fg bg s) = fcol s" by (simp_all add: P_def)
qed

lemma draw_char_vga:
  "vrow (draw_char cx cy ch fg bg s) = vrow s" "vcol (draw_char cx cy ch fg bg s) = vcol s"
proof -
  define P where "P s' \<longleftrightarrow> vrow s' = vrow s \<and> vcol s' = vcol s" for s' :: screen
  have row: "P s' \<Longrightarrow> P (fold (\<lambda>col. put_pixel (f col) y (g col)) xs s')" for f g y s' and xs :: "nat list"
    by (induction xs arbitrary: s') (auto simp: put_pixel_def P_def)
  have rows: "P s' \<Longrightarrow> P (fold (\<lambda>row. fold (\<lambda>col. put_pixel (f row col) (y row) (g row col)) xs) ys s')"
    for f g y s' and xs ys :: "nat list"
    by (induction ys arbitrary: s') (auto intro: row)
  have "P (draw_char cx cy ch fg bg s)" unfolding draw_char_def by (rule rows) (simp add: P_def)
  then show "vrow (draw_char cx cy ch fg bg s) = vrow s" "vcol (draw_char cx cy ch fg bg s) = vcol s" by (simp_all add: P_def)
qed

lemma fb_scroll_confined:
  assumes "geometry s"
  shows "confined s (fb_scroll s)"
proof (cases "fb s = 0")
  case False
  have "(unat (height s) - 8) * unat (pitch32 s) \<le> unat (height s) * unat (pitch32 s)" by (rule mult_le_mono1) simp
  then have "\<not> i < (unat (height s) - 8) * unat (pitch32 s)" if "unat (height s) * unat (pitch32 s) \<le> i" for i
    using that by (meson le_trans not_le)
  then have "\<forall>i \<ge> unat (height s) * unat (pitch32 s). pix (fb_scroll s) i = pix s i"
    unfolding fb_scroll_pix[OF assms False] by simp
  then show ?thesis by (simp add: confined_def) (simp add: fb_scroll_def Let_def)
qed (simp add: fb_scroll_def)

lemma vga_newline_ok:
  assumes "0 \<le> vrow s" "vrow s < VGA_ROWS"
  shows "confined s (vga_newline s)" "0 \<le> vrow (vga_newline s)" "vrow (vga_newline s) < VGA_ROWS" "vcol (vga_newline s) = 0"
    "frow (vga_newline s) = frow s" "fcol (vga_newline s) = fcol s"
proof -
  have "vga_mem (vga_newline s) i = vga_mem s i" if "2000 \<le> i" for i
    using that by (simp add: vga_newline_def vga_scroll_mem Let_def)
  then show "confined s (vga_newline s)" by (simp add: confined_def) (simp add: vga_newline_def vga_scroll_def Let_def)
  show "0 \<le> vrow (vga_newline s)" "vrow (vga_newline s) < VGA_ROWS" "vcol (vga_newline s) = 0"
    "frow (vga_newline s) = frow s" "fcol (vga_newline s) = fcol s"
    using assms by (auto simp: vga_newline_def vga_scroll_def Let_def)
qed

lemma cell_bound: "0 \<le> r \<Longrightarrow> r < VGA_ROWS \<Longrightarrow> 0 \<le> c \<Longrightarrow> c < VGA_COLS \<Longrightarrow> vga_cell r c < 2000"
  by (simp add: vga_cell_def)

lemma vga_putc_ok:
  assumes "cursor_ok s"
  shows "confined s (vga_putc c s) \<and> cursor_ok (vga_putc c s)"
proof -
  have v: "0 \<le> vrow s" "vrow s < VGA_ROWS" "0 \<le> vcol s" "vcol s < VGA_COLS" using assms by (simp_all add: cursor_ok_def)
  have nl: "confined s (vga_newline s') \<and> cursor_ok (vga_newline s')"
    if "confined s s'" "vrow s' = vrow s" "frow s' = frow s" "fcol s' = fcol s" for s'
    using that v vga_newline_ok[of s'] confined_trans[of s s' "vga_newline s'"] assms
    by (auto simp: cursor_ok_def confined_def)
  define P where "P s' \<longleftrightarrow> confined s s' \<and> cursor_ok s'" for s'
  have nl': "P (vga_newline s')" if "confined s s'" "vrow s' = vrow s" "frow s' = frow s" "fcol s' = fcol s" for s'
    using nl[OF that] by (simp add: P_def)
  have col: "P (s\<lparr>vcol := k\<rparr>)" if "0 \<le> k" "k < VGA_COLS" for k
    using that v assms by (simp add: P_def confined_def cursor_ok_def)
  have put: "P (s\<lparr>vga_mem := (vga_mem s)(vga_cell (vrow s) j := x), vcol := k\<rparr>)"
    if "0 \<le> k" "k < VGA_COLS" "0 \<le> j" "j < VGA_COLS" for j k x
    using that v assms cell_bound[of "vrow s" j] by (simp add: P_def confined_def cursor_ok_def)
  have wrap: "P (if k \<ge> VGA_COLS then vga_newline (s\<lparr>vga_mem := m, vcol := k\<rparr>) else s\<lparr>vga_mem := m, vcol := k\<rparr>)"
    if "0 \<le> k" "\<forall>i \<ge> 2000. m i = vga_mem s i" for k m
  proof (cases "k \<ge> VGA_COLS")
    case True
    then show ?thesis using nl'[of "s\<lparr>vga_mem := m, vcol := k\<rparr>"] that(2) by (simp add: confined_def)
  next
    case False
    then show ?thesis using that v assms by (simp add: P_def confined_def cursor_ok_def)
  qed
  have "P s" using assms by (simp add: P_def)
  moreover have "P (vga_newline s)" by (rule nl') simp_all
  moreover have "P (let s1 = s\<lparr>vcol := (vcol s + 4) AND NOT 3\<rparr> in if vcol s1 \<ge> VGA_COLS then vga_newline s1 else s1)"
  proof -
    define k where "k = (vcol s + 4) AND NOT 3"
    have "0 \<le> k" unfolding k_def using v(3) by simp
    have eq: "s\<lparr>vga_mem := vga_mem s, vcol := k\<rparr> = s\<lparr>vcol := k\<rparr>" by simp
    show ?thesis unfolding k_def[symmetric] Let_def using wrap[of k "vga_mem s", unfolded eq] \<open>0 \<le> k\<close> by simp
  qed
  moreover have "P (if vcol s > 0
        then s\<lparr>vcol := vcol s - 1, vga_mem := (vga_mem s)(vga_cell (vrow s) (vcol s - 1) := vga_blank)\<rparr> else s)"
  proof (cases "vcol s > 0")
    case True
    have eq: "s\<lparr>vcol := vcol s - 1, vga_mem := (vga_mem s)(vga_cell (vrow s) (vcol s - 1) := vga_blank)\<rparr> =
        s\<lparr>vga_mem := (vga_mem s)(vga_cell (vrow s) (vcol s - 1) := vga_blank), vcol := vcol s - 1\<rparr>" by simp
    show ?thesis unfolding eq using put[of "vcol s - 1" "vcol s - 1" vga_blank] v True by simp
  qed (use \<open>P s\<close> in simp)
  moreover have "P (let s1 = s\<lparr>vga_mem := (vga_mem s)(vga_cell (vrow s) (vcol s) := 0x0F00 OR ucast c), vcol := vcol s + 1\<rparr>
           in if vcol s1 \<ge> VGA_COLS then vga_newline s1 else s1)"
    using wrap[of "vcol s + 1" "(vga_mem s)(vga_cell (vrow s) (vcol s) := 0x0F00 OR ucast c)"] v
      cell_bound[of "vrow s" "vcol s"] by (simp add: Let_def)
  moreover have "P (s\<lparr>vcol := 0\<rparr>)" by (rule col) simp_all
  ultimately have "P (vga_putc c s)" unfolding vga_putc_def by presburger
  then show ?thesis by (simp add: P_def)
qed

lemma fb_newline_ok:
  assumes "geometry s" "0 \<le> frow s" "frow s < int (unat (height s) div 8)" "fb s \<noteq> 0"
  shows "confined s (fb_newline s)" "0 \<le> frow (fb_newline s)" "frow (fb_newline s) < int (unat (height s) div 8)"
    "fcol (fb_newline s) = 0" "vrow (fb_newline s) = vrow s" "vcol (fb_newline s) = vcol s"
proof -
  let ?s = "s\<lparr>fcol := 0, frow := frow s + 1\<rparr>"
  have "geometry ?s" "confined s ?s" using assms(1) by (simp_all add: geometry_def confined_def)
  then show "confined s (fb_newline s)"
    using fb_scroll_confined[of ?s] confined_trans[of s ?s "fb_scroll ?s"] by (simp add: fb_newline_def Let_def)
  have "0 < unat (height s) div 8" using assms(1) by (simp add: geometry_def div_greater_zero_iff)
  moreover have "unat (height s div 8) = unat (height s) div 8" by (simp add: unat_div)
  moreover have "frow (fb_scroll ?s) = int (unat (height s div 8)) - 1"
    using assms(2,4) by (simp add: fb_scroll_def Let_def)
  ultimately show "0 \<le> frow (fb_newline s)" "frow (fb_newline s) < int (unat (height s) div 8)"
    "fcol (fb_newline s) = 0" "vrow (fb_newline s) = vrow s" "vcol (fb_newline s) = vcol s"
    using assms by (auto simp: fb_newline_def fb_scroll_def Let_def)
qed

lemma fb_putc_ok:
  assumes "cursor_ok s" "active s \<longrightarrow> geometry s"
  shows "confined s (fb_putc c s) \<and> cursor_ok (fb_putc c s)"
proof (cases "active s")
  case True
  define P where "P s' \<longleftrightarrow> confined s s' \<and> cursor_ok s'" for s'
  have g: "geometry s" using assms(2) True by simp
  have f: "fb s \<noteq> 0" "0 \<le> frow s" "frow s < int (unat (height s) div 8)" "0 \<le> fcol s" "fcol s < int (unat (width s) div 8)"
    and v: "0 \<le> vrow s" "vrow s < VGA_ROWS" "0 \<le> vcol s" "vcol s < VGA_COLS"
    using assms(1) True by (simp_all add: cursor_ok_def)
  have w: "0 < unat (width s) div 8" "unat (width s div 8) = unat (width s) div 8"
    using g by (simp_all add: geometry_def div_greater_zero_iff unat_div)
  have nl: "P (fb_newline s')" if "confined s s'" "vrow s' = vrow s" "vcol s' = vcol s" "frow s' = frow s" for s'
  proof -
    have "geometry s'" using g that(1) by (simp add: geometry_def confined_def)
    moreover have "fb s' \<noteq> 0" "0 \<le> frow s'" "frow s' < int (unat (height s') div 8)"
      using that f by (simp_all add: confined_def)
    ultimately have N: "confined s' (fb_newline s')" "0 \<le> frow (fb_newline s')" "frow (fb_newline s') < int (unat (height s') div 8)"
      "fcol (fb_newline s') = 0" "vrow (fb_newline s') = vrow s'" "vcol (fb_newline s') = vcol s'"
      using fb_newline_ok[of s'] by simp_all
    have c: "confined s (fb_newline s')" using confined_trans[OF that(1) N(1)] .
    then show ?thesis using N that v w f by (simp add: P_def cursor_ok_def) (simp add: confined_def)
  qed
  have col: "P (s\<lparr>fcol := k\<rparr>)" if "0 \<le> k" "k < int (unat (width s) div 8)" for k
    using that assms(1) by (simp add: P_def confined_def cursor_ok_def)
  have draw: "P (draw_char x y ch fg bg (s\<lparr>fcol := k\<rparr>))" if "0 \<le> k" "k < int (unat (width s) div 8)" for x y ch fg bg k
  proof -
    have "geometry (s\<lparr>fcol := k\<rparr>)" using g by (simp add: geometry_def)
    from draw_char_confined[OF this] col[OF that] show ?thesis
      using confined_trans[of s "s\<lparr>fcol := k\<rparr>"] by (simp add: P_def)
  qed
  have "P s" using assms by (simp add: P_def)
  moreover have "P (fb_newline s)" by (rule nl) simp_all
  moreover have "P (s\<lparr>fcol := 0\<rparr>)" by (rule col) (use w in simp_all)
  moreover have "P (if fcol s > 0
        then let s1 = s\<lparr>fcol := fcol s - 1\<rparr> in draw_char (fcol s1) (frow s1) 32 0xFFFFFF 0x00101828 s1 else s)"
    using draw[of "fcol s - 1"] f \<open>P s\<close> by (simp add: Let_def)
  moreover have "P (let s1 = draw_char (fcol s) (frow s) c 0xE8F0FF 0x00101828 s; s2 = s1\<lparr>fcol := fcol s1 + 1\<rparr>
           in if fcol s2 \<ge> int (unat (width s div 8)) then fb_newline s2 else s2)"
  proof -
    define s1 where "s1 = draw_char (fcol s) (frow s) c 0xE8F0FF 0x00101828 s"
    note D = draw_char_confined[OF g, of "fcol s" "frow s" c "0xE8F0FF" "0x00101828", folded s1_def]
    have v1: "vrow s1 = vrow s" "vcol s1 = vcol s" using draw_char_vga[of "fcol s" "frow s" c _ _ s] by (simp_all add: s1_def)
    have c2: "confined s (s1\<lparr>fcol := fcol s + 1\<rparr>)" using D(1) by (simp add: confined_def)
    have "P (s1\<lparr>fcol := fcol s + 1\<rparr>)" if "\<not> fcol s + 1 \<ge> int (unat (width s) div 8)"
      using that c2 f v D v1 by (simp add: P_def cursor_ok_def) (simp add: confined_def)
    then show ?thesis unfolding s1_def[symmetric] Let_def
      using nl[OF c2] D v1 w(2) by simp
  qed
  ultimately have "P (fb_putc c s)" unfolding fb_putc_def using True by presburger
  then show ?thesis by (simp add: P_def)
qed (use assms in \<open>simp add: fb_putc_def\<close>)

lemma serial_putc_ok:
  assumes "cursor_ok s" "active s \<longrightarrow> geometry s"
  shows "confined s (serial_putc c s) \<and> cursor_ok (serial_putc c s)"
proof -
  define s1 where "s1 = vga_putc c s"
  have 1: "confined s s1" "cursor_ok s1" using vga_putc_ok[OF assms(1)] by (simp_all add: s1_def)
  then have "active s1 \<longrightarrow> geometry s1" using assms(2) by (auto simp: confined_def geometry_def)
  with 1(2) have 2: "confined s1 (fb_putc c s1)" "cursor_ok (fb_putc c s1)" using fb_putc_ok by blast+
  have "confined s (fb_putc c s1)" using confined_trans 1(1) 2(1) by blast
  then show ?thesis using 2(2) by (simp add: serial_putc_def s1_def[symmetric] confined_def cursor_ok_def Let_def)
qed

lemma putc_com1 [simp]: "com1 (vga_putc c s) = com1 s" "com1 (fb_putc c s) = com1 s"
proof -
  have nl: "com1 (vga_newline s) = com1 s" "com1 (fb_newline s) = com1 s" for s
    by (simp_all add: vga_newline_def vga_scroll_def fb_newline_def fb_scroll_def Let_def)
  define P where "P s' \<longleftrightarrow> com1 s' = com1 s" for s' :: screen
  have row: "P s' \<Longrightarrow> P (fold (\<lambda>col. put_pixel (f col) y (g col)) xs s')" for f g y s' and xs :: "nat list"
    by (induction xs arbitrary: s') (auto simp: put_pixel_def P_def)
  have rows: "P s' \<Longrightarrow> P (fold (\<lambda>row. fold (\<lambda>col. put_pixel (f row col) (y row) (g row col)) xs) ys s')"
    for f g y s' and xs ys :: "nat list"
    by (induction ys arbitrary: s') (auto intro: row)
  have draw: "P s' \<Longrightarrow> P (draw_char cx cy ch fg bg s')" for cx cy ch fg bg s' unfolding draw_char_def by (rule rows)
  have "com1 (draw_char cx cy ch fg bg s) = com1 s" "com1 (draw_char cx cy ch fg bg (s\<lparr>fcol := k\<rparr>)) = com1 s" for cx cy ch fg bg k
    using draw[of s] draw[of "s\<lparr>fcol := k\<rparr>"] by (simp_all add: P_def)
  then show "com1 (vga_putc c s) = com1 s" "com1 (fb_putc c s) = com1 s"
    by (simp_all add: vga_putc_def fb_putc_def nl Let_def)
qed

lemma serial_write_com1: "list_all (\<lambda>c. c \<noteq> 10) cs \<Longrightarrow> com1 (serial_write cs s) = com1 s @ cs"
  unfolding serial_write_def by (induction cs arbitrary: s) (simp_all add: serial_putc_def Let_def)

section \<open>Properties\<close>

text \<open>
  C15. Printing any text keeps both cursors inside their screens and changes no memory outside the 2000
  cells of the text screen and the visible lines of the framebuffer, provided the framebuffer
  (when active) has room for a character and lines inside its pitch.
\<close>

theorem serial_write_confined:
  assumes "cursor_ok s" "active s \<longrightarrow> geometry s"
  shows "confined s (serial_write cs s) \<and> cursor_ok (serial_write cs s)"
  using assms
proof (induction cs arbitrary: s)
  case (Cons c cs)
  have 1: "confined s (serial_putc c s)" "cursor_ok (serial_putc c s)" using serial_putc_ok[OF Cons.prems] by simp_all
  then have "active (serial_putc c s) \<longrightarrow> geometry (serial_putc c s)"
    using Cons.prems(2) by (auto simp: confined_def geometry_def)
  with 1 Cons.IH[of "serial_putc c s"] show ?case
    using confined_trans[of s "serial_putc c s"] by (simp add: serial_write_def)
qed (simp add: serial_write_def)

definition demo_screen :: screen where
  "demo_screen = \<lparr>vga_mem = (\<lambda>_. 0), vrow = 24, vcol = 79, fb = 0x80000000, pitch32 = 16, width = 16, height = 24,
     frow = 2, fcol = 1, active = True, pix = (\<lambda>_. 0), com1 = []\<rparr>"

lemma demo_screen_ok: "cursor_ok demo_screen" "active demo_screen \<longrightarrow> geometry demo_screen"
  by (simp_all add: cursor_ok_def geometry_def demo_screen_def)

theorem serial_write_confined_witness:
  "cursor_ok (serial_write [72, 10, 105, 8, 9] demo_screen) \<and> pix (serial_write [72, 10, 105, 8, 9] demo_screen) 384 = 0"
  using serial_write_confined[OF demo_screen_ok, of "[72, 10, 105, 8, 9]"]
  by (simp add: confined_def demo_screen_def)

lemma dec_chars_number:
  "dec_value (dec_chars val) = unat val \<and> list_all (\<lambda>c. 48 \<le> c \<and> c \<le> 57) (dec_chars val) \<and>
   (hd (dec_chars val) = 48 \<longleftrightarrow> val = 0) \<and> length (dec_chars val) \<le> 20"
proof (cases "val = 0")
  case True
  then show ?thesis by (simp add: dec_chars_def dec_value_def digits_value_def)
next
  case False
  have b: "unat val < 10 ^ 20" "unat val < 10 ^ 23" using unsigned_less[of val, where 'a = nat] by simp_all
  have "list_all (\<lambda>c. 48 \<le> c \<and> c \<le> 57) (rev (dec_digits 23 val))" using dec_digits_range by (simp add: list_all_iff)
  then show ?thesis
    using False dec_digits_value[OF b(2)] dec_digits_last[OF False b(2)] dec_digits_length[OF b(1)]
    by (simp add: dec_chars_def hd_rev)
qed

text \<open>
  C31. Reading back what the number printers send to the serial port gives the number: the decimal
  form has at most twenty digits and no leading zero, and the buffer bound of 23 digits is never reached;
  the hexadecimal form has sixteen digits after the prefix.
\<close>

theorem serial_numbers_roundtrip:
  "com1 (serial_write_dec val s) = com1 s @ dec_chars val \<and> dec_value (dec_chars val) = unat val \<and>
   list_all (\<lambda>c. 48 \<le> c \<and> c \<le> 57) (dec_chars val) \<and> (hd (dec_chars val) = 48 \<longleftrightarrow> val = 0) \<and> length (dec_chars val) \<le> 20 \<and>
   com1 (serial_write_hex val s) = com1 s @ [48, 120] @ hex_chars val \<and> hex_value (hex_chars val) = unat val \<and>
   length (hex_chars val) = 16"
proof -
  note d = dec_chars_number[of val]
  then have "list_all (\<lambda>c. c \<noteq> 10) (dec_chars val)" by (auto simp: list_all_iff)
  moreover have "drop_bit (i * 4) val AND 0xF < 16" for i
    using and_15[of "drop_bit (i * 4) val"] by (simp add: word_less_nat_alt)
  then have "list_all (\<lambda>c. c \<noteq> 10) (hex_chars val)" by (simp add: hex_chars_def list_all_iff hex_digit_value(2))
  ultimately show ?thesis
    using d hex_chars_value[of val] by (simp add: serial_write_dec_def serial_write_hex_def serial_write_com1) (simp add: hex_chars_def)
qed

text \<open>
  C35. The in-place copy loops of \<open>scroll\<close> in \<open>vga.c\<close> compute the text screen moved up by one line with a blank
  last line, although source and destination rows are in the same array.
\<close>

theorem vga_scroll_equiv:
  "vga_mem (vga_scroll s) (80 * r + c) =
     (if 80 * r + c < 1920 then vga_mem s (80 * Suc r + c)
      else if 80 * r + c < 2000 then vga_blank else vga_mem s (80 * r + c))"
  unfolding vga_scroll_mem by (simp add: algebra_simps)

end
