(* ===== verification/Devices.thy ===== *)
theory Devices
  imports GW_Prelude
begin

text \<open>
  The real-time clock (\<open>kernel/drivers/rtc.c\<close>) and the PCI configuration space (\<open>kernel/drivers/pci.c\<close>).
  The registers behind the ports are functions: CMOS bytes by index, configuration words by the
  address written to port CF8.
\<close>

section \<open>Real-time clock\<close>

record rtc_time_t =
  year :: int
  month :: int
  day :: int
  hour :: int
  minute :: int
  second :: int

definition bcd_to_bin :: "u8 \<Rightarrow> int" where
  "bcd_to_bin v = uint (v AND 0x0F) + uint (drop_bit 4 v) * 10"

definition rtc_read :: "(u8 \<Rightarrow> u8) \<Rightarrow> rtc_time_t" where
  "rtc_read cmos =
     (let conv = (\<lambda>v. word_of_int (bcd_to_bin v) :: u8);
          binary = bit (cmos 0x0B) 2; h24 = bit (cmos 0x0B) 1;
          sec = (if binary then cmos 0x00 else conv (cmos 0x00));
          min = (if binary then cmos 0x02 else conv (cmos 0x02));
          hr = (if binary then cmos 0x04 AND 0x7F else conv (cmos 0x04 AND 0x7F));
          dy = (if binary then cmos 0x07 else conv (cmos 0x07));
          mon = (if binary then cmos 0x08 else conv (cmos 0x08));
          yr = (if binary then cmos 0x09 else conv (cmos 0x09));
          cent = (if binary \<or> cmos 0x32 = 0 then cmos 0x32 else conv (cmos 0x32));
          hr = (if \<not> h24 \<and> hr = 12 then 0 else hr)
      in \<lparr>year = (if cent \<noteq> 0 then uint cent * 100 + uint yr else 2000 + uint yr), month = uint mon, day = uint dy,
           hour = uint hr, minute = uint min, second = uint sec\<rparr>)"

section \<open>PCI configuration space\<close>

definition pci_address :: "u8 \<Rightarrow> u8 \<Rightarrow> u8 \<Rightarrow> u8 \<Rightarrow> u32" where
  "pci_address bus slot func off =
     0x80000000 OR push_bit 16 (ucast bus) OR push_bit 11 (ucast (slot AND 0x1F)) OR
     push_bit 8 (ucast (func AND 7)) OR ucast (off AND 0xFC)"

definition pci_read32 :: "(u32 \<Rightarrow> u32) \<Rightarrow> u8 \<Rightarrow> u8 \<Rightarrow> u8 \<Rightarrow> u8 \<Rightarrow> u32" where
  "pci_read32 cfg bus slot func off = cfg (pci_address bus slot func off)"

definition pci_read16 :: "(u32 \<Rightarrow> u32) \<Rightarrow> u8 \<Rightarrow> u8 \<Rightarrow> u8 \<Rightarrow> u8 \<Rightarrow> u16" where
  "pci_read16 cfg bus slot func off =
     (let v = pci_read32 cfg bus slot func (off AND 0xFC)
      in ucast (drop_bit (unat (off AND 2) * 8) v AND 0xFFFF))"

definition pci_read8 :: "(u32 \<Rightarrow> u32) \<Rightarrow> u8 \<Rightarrow> u8 \<Rightarrow> u8 \<Rightarrow> u8 \<Rightarrow> u8" where
  "pci_read8 cfg bus slot func off =
     (let v = pci_read32 cfg bus slot func (off AND 0xFC)
      in ucast (drop_bit (unat (off AND 3) * 8) v AND 0xFF))"

text \<open>What \<open>pci_list\<close> prints for one function.\<close>

record pci_function =
  p_bus :: nat
  p_slot :: nat
  p_func :: nat
  p_vend :: u16
  p_dev :: u16
  p_class :: u8
  p_subclass :: u8
  p_prog :: u8

definition pci_entry :: "(u32 \<Rightarrow> u32) \<Rightarrow> nat \<Rightarrow> nat \<Rightarrow> nat \<Rightarrow> pci_function" where
  "pci_entry cfg b sl f =
     (let r16 = pci_read16 cfg (of_nat b) (of_nat sl) (of_nat f); r8 = pci_read8 cfg (of_nat b) (of_nat sl) (of_nat f)
      in \<lparr>p_bus = b, p_slot = sl, p_func = f, p_vend = r16 0x00, p_dev = r16 0x02, p_class = r8 0x0B,
           p_subclass = r8 0x0A, p_prog = r8 0x09\<rparr>)"

text \<open>The loop over the functions of a slot, with its two breaks.\<close>

fun pci_funcs :: "(u32 \<Rightarrow> u32) \<Rightarrow> nat \<Rightarrow> nat \<Rightarrow> nat list \<Rightarrow> pci_function list" where
  "pci_funcs cfg b sl [] = []"
| "pci_funcs cfg b sl (f # fs) =
     (if pci_read16 cfg (of_nat b) (of_nat sl) (of_nat f) 0x00 = 0xFFFF
      then if f = 0 then [] else pci_funcs cfg b sl fs
      else pci_entry cfg b sl f #
        (if f = 0 \<and> \<not> bit (pci_read8 cfg (of_nat b) (of_nat sl) (of_nat f) 0x0E) 7 then [] else pci_funcs cfg b sl fs))"

definition pci_list :: "(u32 \<Rightarrow> u32) \<Rightarrow> pci_function list" where
  "pci_list cfg = concat (map (\<lambda>b. concat (map (\<lambda>sl. pci_funcs cfg b sl [0..<8]) [0..<32])) [0..<4])"

definition pci_init :: "(u32 \<Rightarrow> u32) \<Rightarrow> bool" where
  "pci_init cfg \<longleftrightarrow> pci_read16 cfg 0 0 0 0x00 \<noteq> 0xFFFF"

section \<open>Clock lemmas\<close>

definition bcd :: "nat \<Rightarrow> u8" where
  "bcd n = of_nat (n div 10 * 16 + n mod 10)"

lemma len8: "LENGTH(8) = 8"
  by simp

lemma bcd_to_bin_bcd:
  assumes "n < 100"
  shows "bcd_to_bin (bcd n) = int n"
proof -
  define v where "v = n div 10 * 16 + n mod 10"
  have n: "n div 10 < 10" "n mod 10 < 10" using assms by (simp_all add: div_less_iff_less_mult)
  then have "v < 2 ^ 8" "v mod 16 = n mod 10" "v div 16 = n div 10" by (simp_all add: v_def)
  moreover from this(1) have "unat (of_nat v :: u8) = v" by (simp only: unat_of_nat mod_less len8)
  ultimately have v: "unat (bcd n) = v" "v mod 16 = n mod 10" "v div 16 = n div 10"
    by (simp_all only: bcd_def v_def)
  have "bcd n AND 0x0F = take_bit 4 (bcd n)" by (simp add: take_bit_eq_mask mask_eq_exp_minus_1)
  then have "unat (bcd n AND 0x0F) = n mod 10"
    using v(1,2) by (simp add: unsigned_take_bit_eq take_bit_eq_mod unat_mod)
  moreover have "unat (drop_bit 4 (bcd n)) = n div 10" using v(1,3) by (simp add: drop_bit_eq_div unat_div)
  ultimately show ?thesis
    by (simp add: bcd_to_bin_def uint_nat zdiv_int[symmetric])
      (metis mod_div_mult_eq of_nat_add of_nat_mult of_nat_numeral)
qed

lemma bcd_conv:
  assumes "n < 100"
  shows "(word_of_int (bcd_to_bin (bcd n)) :: u8) = of_nat n" "uint (of_nat n :: u8) = int n"
  using assms by (simp_all add: bcd_to_bin_bcd uint_nat unat_of_nat take_bit_nat_eq_self)

section \<open>PCI lemmas\<close>

lemma pci_funcs_mem:
  assumes "sorted fs" "0 \<notin> set fs"
  shows "set (pci_funcs cfg b sl fs) =
    {pci_entry cfg b sl f | f. f \<in> set fs \<and> pci_read16 cfg (of_nat b) (of_nat sl) (of_nat f) 0 \<noteq> 0xFFFF}"
  using assms by (induction fs) auto


lemma pci_slot_mem:
  "set (pci_funcs cfg b sl [0..<8]) =
    {pci_entry cfg b sl f | f. f < 8 \<and> pci_read16 cfg (of_nat b) (of_nat sl) (of_nat f) 0 \<noteq> 0xFFFF \<and>
       (f = 0 \<or> pci_read16 cfg (of_nat b) (of_nat sl) 0 0 \<noteq> 0xFFFF \<and> bit (pci_read8 cfg (of_nat b) (of_nat sl) 0 0x0E) 7)}"
proof -
  have u: "[0..<8] = 0 # [1..<8 :: nat]" using upt_conv_Cons[of 0 8] by (simp only: One_nat_def zero_less_numeral)
  have head: "set (pci_funcs cfg b sl (0 # fs)) =
      (if pci_read16 cfg (of_nat b) (of_nat sl) 0 0 = 0xFFFF then {}
       else insert (pci_entry cfg b sl 0) (if bit (pci_read8 cfg (of_nat b) (of_nat sl) 0 0x0E) 7
         then set (pci_funcs cfg b sl fs) else {}))" for fs
    by simp
  have rest: "set (pci_funcs cfg b sl [1..<8]) =
      {pci_entry cfg b sl f | f. f \<noteq> 0 \<and> f < 8 \<and> pci_read16 cfg (of_nat b) (of_nat sl) (of_nat f) 0 \<noteq> 0xFFFF}"
    using pci_funcs_mem[of "[1..<8]" cfg b sl] by (simp only: sorted_upt set_upt) (auto simp: Suc_le_eq)
  show ?thesis unfolding u head rest by auto (metis gr0I)
qed

section \<open>Properties\<close>



definition demo_cmos :: "u8 \<Rightarrow> u8" where
  "demo_cmos r = (if r = 0x0B then 0x02 else if r = 0x00 then 0x59 else if r = 0x02 then 0x34 else if r = 0x04 then 0x23
     else if r = 0x07 then 0x31 else if r = 0x08 then 0x12 else if r = 0x09 then 0x26 else if r = 0x32 then 0x20 else 0)"


text \<open>In 12-hour mode the afternoon flag is lost: 5 PM and 5 AM read alike.\<close>

lemma rtc_read_pm_lost: "hour (rtc_read (demo_cmos(0x0B := 0, 0x04 := 0x85))) = 5"
  by (simp add: rtc_read_def Let_def demo_cmos_def bcd_to_bin_def)

end
