(* ===== verification/Fat.thy ===== *)
theory Fat
  imports Screen "HOL-Library.Monad_Syntax"
begin

text \<open>
  The FAT32 file system (\<open>kernel/fs/fat.c\<close>). A block device is a map from block numbers to 512-byte
  sectors with the sets of blocks whose transfer fails; the three drivers provide one device each, and the
  result of a driver's initialisation is \<open>present\<close>. The static sector buffer is always filled before it is read, so a
  sector is a local value here. Paths and names are byte lists without the terminating zero; a null path acts as the empty one.
  The loops along cluster chains do not end on a cyclic table: these functions are options, \<open>None\<close> meaning no return.
\<close>

section \<open>State\<close>

record disk =
  blocks :: "u32 \<Rightarrow> mem"
  bad_read :: "u32 \<Rightarrow> bool"
  bad_write :: "u32 \<Rightarrow> bool"
  present :: bool

record fat =
  nvme :: disk
  ahci :: disk
  ata :: disk
  use_nvme :: bool
  use_ahci :: bool
  part_lba :: u32
  fat_start :: u32
  data_start :: u32
  root_cluster :: u32
  bytes_per_sec :: u16
  sec_per_cluster :: u8
  num_fats :: u8
  fat_size_sectors :: u32
  total_clusters :: u32
  mounted :: bool
  cwd_cluster :: u32
  cwd_path :: "u8 list"

section \<open>8.3 names\<close>

definition upper :: "u8 \<Rightarrow> u8" where "upper c = (if 97 \<le> c \<and> c \<le> 122 then c - 32 else c)"
definition is_sep :: "u8 \<Rightarrow> bool" where "is_sep c \<longleftrightarrow> c = 47 \<or> c = 92"

definition to_83 :: "u8 list \<Rightarrow> u8 list" where
  "to_83 a =
     (let b = takeWhile (\<lambda>c. c \<noteq> 46 \<and> \<not> is_sep c) (take 8 a);
          rest = drop (length b) a;
          rest = (if rest \<noteq> [] \<and> hd rest = 46 then drop 1 rest else rest);
          e = takeWhile (\<lambda>c. \<not> is_sep c) (take 3 rest)
      in map upper b @ replicate (8 - length b) 32 @ map upper e @ replicate (3 - length e) 32)"

definition eq83 :: "u8 list \<Rightarrow> u8 list \<Rightarrow> bool" where "eq83 a name83 \<longleftrightarrow> to_83 a = name83"

definition print_83 :: "u8 list \<Rightarrow> u8 list" where
  "print_83 name = takeWhile (\<lambda>c. c \<noteq> 32) (take 8 name) @
     (if name ! 8 \<noteq> 32 then 46 # takeWhile (\<lambda>c. c \<noteq> 32) (drop 8 name) else [])"

section \<open>Sectors\<close>

definition disk_of :: "fat \<Rightarrow> disk" where
  "disk_of s = (if use_nvme s then nvme s else if use_ahci s then ahci s else ata s)"

definition read_abs :: "fat \<Rightarrow> u32 \<Rightarrow> mem option" where
  "read_abs s lba = (if bad_read (disk_of s) lba then None else Some (blocks (disk_of s) lba))"

definition put_block :: "u32 \<Rightarrow> mem \<Rightarrow> disk \<Rightarrow> disk" where
  "put_block lba buf d = d\<lparr>blocks := (blocks d)(lba := buf)\<rparr>"

definition write_abs :: "fat \<Rightarrow> u32 \<Rightarrow> mem \<Rightarrow> int \<times> fat" where
  "write_abs s lba buf =
     (if bad_write (disk_of s) lba then (-1, s)
      else (0, if use_nvme s then s\<lparr>nvme := put_block lba buf (nvme s)\<rparr>
               else if use_ahci s then s\<lparr>ahci := put_block lba buf (ahci s)\<rparr>
               else s\<lparr>ata := put_block lba buf (ata s)\<rparr>))"

definition cluster_to_lba :: "fat \<Rightarrow> u32 \<Rightarrow> u32" where
  "cluster_to_lba s cl = data_start s + (cl - 2) * ucast (sec_per_cluster s)"

abbreviation sectors :: "fat \<Rightarrow> nat list" where "sectors s \<equiv> [0..<unat (sec_per_cluster s)]"

abbreviation zero_sector :: mem where "zero_sector \<equiv> \<lambda>_. 0"

fun write_all :: "(u32 \<times> mem) list \<Rightarrow> fat \<Rightarrow> int \<times> fat" where
  "write_all [] s = (0, s)"
| "write_all ((lba, buf) # ws) s = (case write_abs s lba buf of (r, s1) \<Rightarrow> if r \<noteq> 0 then (-1, s1) else write_all ws s1)"

section \<open>The allocation table\<close>

abbreviation chain_cl :: "u32 \<Rightarrow> bool" where "chain_cl cl \<equiv> 2 \<le> cl \<and> cl < 0x0FFFFFF8"

definition fat_sec :: "fat \<Rightarrow> u32 \<Rightarrow> u32" where
  "fat_sec s cl = fat_start s + (cl * 4) div ucast (bytes_per_sec s)"

definition fat_idx :: "fat \<Rightarrow> u32 \<Rightarrow> nat" where
  "fat_idx s cl = unat ((cl * 4) mod ucast (bytes_per_sec s))"

definition fat_get :: "fat \<Rightarrow> u32 \<Rightarrow> u32" where
  "fat_get s cl =
     (case read_abs s (fat_sec s cl) of None \<Rightarrow> 0x0FFFFFF7
      | Some m \<Rightarrow> rd32 m (fat_idx s cl) AND 0x0FFFFFFF)"

definition fat_set :: "fat \<Rightarrow> u32 \<Rightarrow> u32 \<Rightarrow> int \<times> fat" where
  "fat_set s cl val =
     (case read_abs s (fat_sec s cl) of None \<Rightarrow> (-1, s)
      | Some m \<Rightarrow>
          let old = rd32 m (fat_idx s cl); neu = (old AND 0xF0000000) OR (val AND 0x0FFFFFFF)
          in write_abs s (fat_sec s cl) (wr32 m (fat_idx s cl) neu))"

text \<open>\<open>n\<close> is the number of clusters still to be looked at.\<close>

fun alloc_scan :: "fat \<Rightarrow> u32 \<Rightarrow> nat \<Rightarrow> u32 \<times> fat" where
  "alloc_scan s c 0 = (0, s)"
| "alloc_scan s c (Suc n) =
     (if fat_get s c = 0
      then (case fat_set s c 0x0FFFFFFF of (r, s1) \<Rightarrow> if r \<noteq> 0 then (0, s1) else (c, s1))
      else alloc_scan s (c + 1) n)"

definition fat_alloc_cluster :: "fat \<Rightarrow> u32 \<times> fat" where
  "fat_alloc_cluster s = alloc_scan s 3 (unat (total_clusters s + 2) - 3)"

partial_function (option) fat_free_chain :: "fat \<Rightarrow> u32 \<Rightarrow> (int \<times> fat) option" where
  "fat_free_chain s cl =
     (if chain_cl cl
      then (case fat_set s cl 0 of (r, s1) \<Rightarrow> if r \<noteq> 0 then Some (-1, s1) else fat_free_chain s1 (fat_get s cl))
      else Some (0, s))"

section \<open>Directories\<close>

record dirent =
  d_cl :: u32
  d_sz :: u32
  d_dir :: bool
  d_lba :: u32
  d_off :: nat

datatype scan = Stop | More | Hit dirent

definition ent_name :: "mem \<Rightarrow> nat \<Rightarrow> u8 list" where "ent_name m i = map (\<lambda>k. m (i + k)) [0..<11]"

definition ent_cl :: "mem \<Rightarrow> nat \<Rightarrow> u32" where
  "ent_cl m i = ucast (m (i + 26)) OR push_bit 8 (ucast (m (i + 27))) OR push_bit 16 (ucast (m (i + 20))) OR
     push_bit 24 (ucast (m (i + 21)))"

definition ent_skip :: "mem \<Rightarrow> nat \<Rightarrow> bool" where "ent_skip m i \<longleftrightarrow> m i = 0xE5 \<or> bit (m (i + 11)) 3"

definition ent_dir :: "mem \<Rightarrow> nat \<Rightarrow> bool" where "ent_dir m i \<longleftrightarrow> bit (m (i + 11)) 4"

definition ent_offsets :: "nat list" where "ent_offsets = map (\<lambda>k. 32 * k) [0..<16]"

fun scan_sector :: "u8 list \<Rightarrow> u32 \<Rightarrow> mem \<Rightarrow> nat list \<Rightarrow> scan" where
  "scan_sector name lba m [] = More"
| "scan_sector name lba m (i # is) =
     (if m i = 0 then Stop
      else if ent_skip m i \<or> \<not> eq83 name (ent_name m i) then scan_sector name lba m is
      else Hit \<lparr>d_cl = ent_cl m i, d_sz = rd32 m (i + 28), d_dir = ent_dir m i, d_lba = lba, d_off = i\<rparr>)"

fun scan_cluster :: "fat \<Rightarrow> u8 list \<Rightarrow> u32 \<Rightarrow> nat list \<Rightarrow> scan" where
  "scan_cluster s name cl [] = More"
| "scan_cluster s name cl (k # ks) =
     (let lba = cluster_to_lba s cl + of_nat k
      in case read_abs s lba of None \<Rightarrow> Stop
         | Some m \<Rightarrow> (case scan_sector name lba m ent_offsets of More \<Rightarrow> scan_cluster s name cl ks | r \<Rightarrow> r))"

partial_function (option) dir_find :: "fat \<Rightarrow> u32 \<Rightarrow> u8 list \<Rightarrow> dirent option option" where
  "dir_find s dir_cl name =
     (if chain_cl dir_cl
      then (case scan_cluster s name dir_cl (sectors s) of Stop \<Rightarrow> Some None | Hit e \<Rightarrow> Some (Some e)
            | More \<Rightarrow> dir_find s (fat_get s dir_cl) name)
      else Some None)"

datatype slot = Slot_err | Slot_none | Slot_at u32 nat

definition free_ent :: "mem \<Rightarrow> nat \<Rightarrow> bool" where "free_ent m i \<longleftrightarrow> m i = 0 \<or> m i = 0xE5"

fun slot_cluster :: "fat \<Rightarrow> u32 \<Rightarrow> nat list \<Rightarrow> slot" where
  "slot_cluster s cl [] = Slot_none"
| "slot_cluster s cl (k # ks) =
     (let lba = cluster_to_lba s cl + of_nat k
      in case read_abs s lba of None \<Rightarrow> Slot_err
         | Some m \<Rightarrow> (case filter (free_ent m) ent_offsets of i # _ \<Rightarrow> Slot_at lba i | [] \<Rightarrow> slot_cluster s cl ks))"

text \<open>The slot found, or \<open>None\<close> for the error return.\<close>

partial_function (option) dir_alloc_slot :: "fat \<Rightarrow> u32 \<Rightarrow> ((u32 \<times> nat) option \<times> fat) option" where
  "dir_alloc_slot s cur =
     (case slot_cluster s cur (sectors s) of Slot_err \<Rightarrow> Some (None, s) | Slot_at lba i \<Rightarrow> Some (Some (lba, i), s)
      | Slot_none \<Rightarrow>
          if 0x0FFFFFF8 \<le> fat_get s cur
          then (case fat_alloc_cluster s of (nc, s1) \<Rightarrow>
            if nc = 0 then Some (None, s1)
            else case fat_set s1 cur nc of (r, s2) \<Rightarrow>
              if r \<noteq> 0 then Some (None, s2)
              else case write_all (map (\<lambda>k. (cluster_to_lba s2 nc + of_nat k, zero_sector)) (sectors s2)) s2 of (r, s3) \<Rightarrow>
                if r \<noteq> 0 then Some (None, s3) else dir_alloc_slot s3 nc)
          else dir_alloc_slot s (fat_get s cur))"

section \<open>Path resolution\<close>

text \<open>The parent directory and the last component; the inner \<open>None\<close> is the error return.\<close>

function resolve_loop :: "fat \<Rightarrow> u32 \<Rightarrow> u8 list \<Rightarrow> (u32 \<times> u8 list) option option" where
  "resolve_loop s cl p =
     (let p1 = dropWhile is_sep p
      in if p1 = [] then Some (Some (cl, []))
         else let part = takeWhile (\<lambda>c. \<not> is_sep c) (take 15 p1); p2 = drop (length part) p1
         in if dropWhile is_sep p2 = [] then Some (Some (cl, part))
            else if part = [46] then resolve_loop s cl p2
            else if part = [46, 46] then resolve_loop s (root_cluster s) p2
            else case dir_find s cl part of None \<Rightarrow> None | Some None \<Rightarrow> Some None
               | Some (Some e) \<Rightarrow> if d_dir e then resolve_loop s (d_cl e) p2 else Some None)"
  by pat_completeness auto

lemma part_shorter:
  assumes "p1 = dropWhile is_sep p" "p1 \<noteq> []" "part = takeWhile (\<lambda>c. \<not> is_sep c) (take 15 p1)"
  shows "length (drop (length part) p1) < length p"
proof -
  have "\<not> is_sep (hd p1)" using assms(1,2) by (simp add: hd_dropWhile)
  then have "part \<noteq> []" using assms(2,3) by (cases p1) auto
  moreover have "length p1 \<le> length p" using assms(1) by (simp add: length_dropWhile_le)
  moreover have "p1 \<noteq> []" by fact
  ultimately show ?thesis by (cases p1; cases part) auto
qed

termination resolve_loop
  by (relation "measure (\<lambda>(s, cl, p). length p)") (use part_shorter in auto)

declare resolve_loop.simps [simp del]

definition resolve_parent :: "fat \<Rightarrow> u8 list \<Rightarrow> (u32 \<times> u8 list) option option" where
  "resolve_parent s path =
     (if path \<noteq> [] \<and> is_sep (hd path) then resolve_loop s (root_cluster s) (drop 1 path)
      else resolve_loop s (cwd_cluster s) path)"

text \<open>First cluster, size and whether it is a directory.\<close>

definition resolve_full :: "fat \<Rightarrow> u8 list \<Rightarrow> (u32 \<times> u32 \<times> bool) option option" where
  "resolve_full s path =
     (if path = [] then Some (Some (cwd_cluster s, 0, True))
      else if length path = 1 \<and> is_sep (hd path) then Some (Some (root_cluster s, 0, True))
      else do { r \<leftarrow> resolve_parent s path;
        case r of None \<Rightarrow> Some None
        | Some (parent, name) \<Rightarrow>
            if name = [] then Some (Some (parent, 0, True))
            else do { f \<leftarrow> dir_find s parent name; Some (map_option (\<lambda>e. (d_cl e, d_sz e, d_dir e)) f) } })"

section \<open>Mounting\<close>

definition mount_volume :: "fat \<Rightarrow> mem \<Rightarrow> int \<times> fat" where
  "mount_volume s m =
     (let spc = m 13; nf = m 16; fsz16 = rd16 m 22;
          totsec = (if rd32 m 32 = 0 then ucast (rd16 m 19) else rd32 m 32);
          s1 = s\<lparr>bytes_per_sec := rd16 m 11, sec_per_cluster := spc, num_fats := nf, root_cluster := rd32 m 44\<rparr>
      in if rd16 m 11 \<noteq> 512 then (-1, s1)
         else
           let fsz = (if fsz16 \<noteq> 0 then ucast fsz16 else rd32 m 36);
               fstart = part_lba s + ucast (rd16 m 14);
               root_secs = (ucast (rd16 m 17) * 32 + 511) div 512;
               dstart = fstart + ucast nf * fsz + root_secs;
               data_secs = (if totsec > dstart - part_lba s then totsec - (dstart - part_lba s) else 0);
               total = (if spc \<noteq> 0 then data_secs div ucast spc else 0);
               entries = (fsz * 512) div 4;
               total' = (if total = 0 \<or> total > entries then if entries > 2 then entries - 2 else 1000 else total)
           in (0, s1\<lparr>fat_size_sectors := fsz, fat_start := fstart, data_start := dstart, total_clusters := total',
                cwd_cluster := rd32 m 44, cwd_path := [47, 0] @ drop 2 (cwd_path s), mounted := True\<rparr>))"

definition mount_disk :: "fat \<Rightarrow> mem \<Rightarrow> int \<times> fat" where
  "mount_disk s m =
     (if m 510 \<noteq> 0x55 \<or> m 511 \<noteq> 0xAA then (-1, s)
      else case (if m 0x1C2 = 0xEE
             then do { h \<leftarrow> read_abs s 1; pe \<leftarrow> read_abs s (rd32 h 72); Some (rd32 pe 32) }
             else Some (rd32 m 0x1C6)) of
        None \<Rightarrow> (-1, s)
      | Some lba \<Rightarrow>
          (let s1 = s\<lparr>part_lba := lba\<rparr>
           in case read_abs s1 lba of None \<Rightarrow> (-1, s1) | Some v \<Rightarrow> mount_volume s1 v))"

definition fat_mount :: "fat \<Rightarrow> int \<times> fat" where
  "fat_mount s =
     (let s0 = s\<lparr>mounted := False, use_ahci := False, use_nvme := False\<rparr>;
          sn = s0\<lparr>use_nvme := True\<rparr>; sa = s0\<lparr>use_ahci := True\<rparr>;
          ata_part = (if \<not> present (ata s) then (-1, s0) else case read_abs s0 0 of None \<Rightarrow> (-1, s0) | Some m \<Rightarrow> mount_disk s0 m);
          ahci_part = (if \<not> present (ahci s) then ata_part else case read_abs sa 0 of None \<Rightarrow> ata_part | Some m \<Rightarrow> mount_disk sa m)
      in if \<not> present (nvme s) then ahci_part else case read_abs sn 0 of None \<Rightarrow> ahci_part | Some m \<Rightarrow> mount_disk sn m)"

section \<open>Working directory\<close>

definition cstr :: "u8 list \<Rightarrow> u8 list" where "cstr b = takeWhile (\<lambda>c. c \<noteq> 0) b"

definition buf_put :: "u8 list \<Rightarrow> nat \<Rightarrow> u8 list \<Rightarrow> u8 list" where "buf_put b i xs = take i b @ xs @ drop (i + length xs) b"

definition fat_getcwd :: "fat \<Rightarrow> nat \<Rightarrow> u8 list" where "fat_getcwd s maxlen = take (maxlen - 1) (cstr (cwd_path s))"

definition chdir_path :: "u8 list \<Rightarrow> u8 list \<Rightarrow> u8 list" where
  "chdir_path path b =
     (let n = length (cstr b); slash = 1 < n \<and> b ! (n - 1) \<noteq> 47 \<and> n + 1 < 128;
          b1 = (if slash then buf_put b n [47] else b); n1 = (if slash then n + 1 else n)
      in if n1 + length path < 128 then buf_put b1 n1 (path @ [0]) else b1)"

definition fat_chdir :: "fat \<Rightarrow> u8 list \<Rightarrow> (int \<times> fat) option" where
  "fat_chdir s path =
     (if \<not> mounted s then Some (-1, s)
      else do { r \<leftarrow> resolve_full s path;
        case r of None \<Rightarrow> Some (-1, s)
        | Some (cl, _, isdir) \<Rightarrow>
            if \<not> isdir then Some (-1, s)
            else let s1 = s\<lparr>cwd_cluster := cl\<rparr>
            in Some (0,
              if path \<noteq> [] \<and> is_sep (hd path) then s1\<lparr>cwd_path := buf_put (cwd_path s) 0 (take 127 path @ [0])\<rparr>
              else if path = [46, 46] then s1\<lparr>cwd_path := buf_put (cwd_path s) 0 [47, 0], cwd_cluster := root_cluster s\<rparr>
              else if path \<noteq> [] then s1\<lparr>cwd_path := chdir_path path (cwd_path s)\<rparr>
              else s1) })"

section \<open>Listing\<close>

definition list_line :: "mem \<Rightarrow> nat \<Rightarrow> u8 list" where
  "list_line m i =
     (if ent_dir m i then [32, 60, 68, 73, 82, 62, 32, 32] else replicate 8 32) @ print_83 (ent_name m i) @
     (if ent_dir m i then [] else [32, 32] @ dec_chars (ucast (rd32 m (i + 28)))) @ [10]"

text \<open>The output for some entries, and whether the end mark was reached.\<close>

fun list_sector :: "mem \<Rightarrow> nat list \<Rightarrow> u8 list \<times> bool" where
  "list_sector m [] = ([], False)"
| "list_sector m (i # is) =
     (if m i = 0 then ([], True)
      else case list_sector m is of (out, e) \<Rightarrow> (if ent_skip m i then out else list_line m i @ out, e))"

fun list_cluster :: "fat \<Rightarrow> u32 \<Rightarrow> nat list \<Rightarrow> u8 list \<times> bool" where
  "list_cluster s cl [] = ([], False)"
| "list_cluster s cl (k # ks) =
     (case read_abs s (cluster_to_lba s cl + of_nat k) of None \<Rightarrow> ([], True)
      | Some m \<Rightarrow> (case list_sector m ent_offsets of (out, e) \<Rightarrow>
          if e then (out, True) else case list_cluster s cl ks of (out', e') \<Rightarrow> (out @ out', e')))"

partial_function (option) list_chain :: "fat \<Rightarrow> u32 \<Rightarrow> u8 list option" where
  "list_chain s cur =
     (if chain_cl cur
      then (case list_cluster s cur (sectors s) of (out, e) \<Rightarrow>
        if e then Some out else do { more \<leftarrow> list_chain s (fat_get s cur); Some (out @ more) })
      else Some [])"

text \<open>The output: the three messages are the strings of the source.\<close>

definition fat_list :: "fat \<Rightarrow> u8 list \<Rightarrow> u8 list option" where
  "fat_list s path =
     (if \<not> mounted s then Some (map of_char ''FAT: not mounted'' @ [10])
      else do { r \<leftarrow> resolve_full s path;
        case r of Some (cl, _, True) \<Rightarrow> do { out \<leftarrow> list_chain s cl; Some (map of_char ''FAT directory:'' @ [10] @ out) }
        | _ \<Rightarrow> Some (map of_char ''FAT: not a directory'' @ [10]) })"

section \<open>Reading a file\<close>

fun read_sectors :: "fat \<Rightarrow> u32 \<Rightarrow> nat list \<Rightarrow> nat \<Rightarrow> u8 list \<Rightarrow> u8 list option" where
  "read_sectors s cl [] limit acc = Some acc"
| "read_sectors s cl (k # ks) limit acc =
     (if length acc < limit
      then (case read_abs s (cluster_to_lba s cl + of_nat k) of None \<Rightarrow> None
            | Some m \<Rightarrow> read_sectors s cl ks limit (acc @ map m [0..<min 512 (limit - length acc)]))
      else Some acc)"

partial_function (option) read_chain :: "fat \<Rightarrow> u32 \<Rightarrow> nat \<Rightarrow> u8 list \<Rightarrow> u8 list option option" where
  "read_chain s cl limit acc =
     (if chain_cl cl \<and> length acc < limit
      then (case read_sectors s cl (sectors s) limit acc of None \<Rightarrow> Some None
            | Some acc' \<Rightarrow> read_chain s (fat_get s cl) limit acc')
      else Some (Some acc))"

text \<open>The bytes copied to the caller's buffer; their number is the return value and \<open>None\<close> stands for -1.\<close>

definition fat_read_file :: "fat \<Rightarrow> u8 list \<Rightarrow> nat \<Rightarrow> u8 list option option" where
  "fat_read_file s path maxlen =
     (if \<not> mounted s then Some None
      else do { r \<leftarrow> resolve_full s path;
        case r of None \<Rightarrow> Some None
        | Some (cl, sz, isdir) \<Rightarrow> if isdir then Some None else read_chain s cl (min (unat sz) maxlen) [] })"

section \<open>Writing a file\<close>

definition fill_sector :: "u8 list \<Rightarrow> mem" where "fill_sector bs = (\<lambda>i. if i < length bs then bs ! i else 0)"

text \<open>Writes the sectors of one cluster; the rest of the data, or \<open>None\<close> on an error.\<close>

fun write_cluster :: "u32 \<Rightarrow> nat list \<Rightarrow> u8 list \<Rightarrow> fat \<Rightarrow> u8 list option \<times> fat" where
  "write_cluster cl [] rem s = (Some rem, s)"
| "write_cluster cl (k # ks) rem s =
     (case write_abs s (cluster_to_lba s cl + of_nat k) (fill_sector (take 512 rem)) of (r, s1) \<Rightarrow>
        if r \<noteq> 0 then (None, s1)
        else if drop 512 rem = []
          then (Some [], fold (\<lambda>z t. snd (write_abs t (cluster_to_lba t cl + of_nat z) zero_sector)) ks s1)
        else write_cluster cl ks (drop 512 rem) s1)"

text \<open>The first cluster, or \<open>None\<close> on an error.\<close>

partial_function (option) write_chain :: "fat \<Rightarrow> u32 \<Rightarrow> u32 \<Rightarrow> u8 list \<Rightarrow> (u32 option \<times> fat) option" where
  "write_chain s first_cl prev rem =
     (if rem \<noteq> [] \<or> first_cl = 0
      then (case fat_alloc_cluster s of (c, s1) \<Rightarrow>
        if c = 0 then Some (None, s1)
        else case (if first_cl = 0 then (0, s1) else fat_set s1 prev c) of (r, s2) \<Rightarrow>
          if r \<noteq> 0 then Some (None, s2)
          else case write_cluster c (sectors s2) rem s2 of (rem', s3) \<Rightarrow>
            (case rem' of None \<Rightarrow> Some (None, s3)
             | Some rs \<Rightarrow> let first' = (if first_cl = 0 then c else first_cl)
                 in if rs = [] then Some (Some first', s3) else write_chain s3 first' c rs))
      else Some (Some first_cl, s))"

definition make_entry :: "u8 list \<Rightarrow> u8 \<Rightarrow> u32 \<Rightarrow> u32 \<Rightarrow> nat \<Rightarrow> mem \<Rightarrow> mem" where
  "make_entry name attr cl sz off m =
     wr32 ((mem_store (mem_set m off 0 32) off (to_83 name))
       (off + 11 := attr, off + 20 := ucast (drop_bit 16 cl), off + 21 := ucast (drop_bit 24 cl),
        off + 26 := ucast cl, off + 27 := ucast (drop_bit 8 cl))) (off + 28) sz"

definition write_entry :: "fat \<Rightarrow> u32 \<Rightarrow> nat \<Rightarrow> u8 list \<Rightarrow> u8 \<Rightarrow> u32 \<Rightarrow> u32 \<Rightarrow> int \<times> fat" where
  "write_entry s elba eoff name attr cl sz =
     (case read_abs s elba of None \<Rightarrow> (-1, s)
      | Some m \<Rightarrow> write_abs s elba (make_entry name attr cl sz eoff m))"

definition fat_write_file :: "fat \<Rightarrow> u8 list \<Rightarrow> u8 list \<Rightarrow> (int \<times> fat) option" where
  "fat_write_file s path data =
     (if \<not> mounted s \<or> path = [] \<or> length data > 512 * 64 then Some (-1, s)
      else do { r \<leftarrow> resolve_parent s path;
        case r of None \<Rightarrow> Some (-1, s)
        | Some (parent, name) \<Rightarrow>
          if name = [] then Some (-1, s)
          else do { f \<leftarrow> dir_find s parent name;
            if (case f of None \<Rightarrow> False | Some e \<Rightarrow> d_dir e) then Some (-1, s)
            else do { (at, s1) \<leftarrow> (case f of
                None \<Rightarrow> dir_alloc_slot s parent
              | Some e \<Rightarrow> do { (_, s1) \<leftarrow> (if 2 \<le> d_cl e then fat_free_chain s (d_cl e) else Some (0, s));
                              Some (Some (d_lba e, d_off e), s1) });
              case at of None \<Rightarrow> Some (-1, s1)
              | Some (elba, eoff) \<Rightarrow>
                  do { (c, s2) \<leftarrow> (if data = [] then Some (Some 0, s1) else write_chain s1 0 0 data);
                    case c of None \<Rightarrow> Some (-1, s2)
                    | Some first_cl \<Rightarrow>
                        (case write_entry s2 elba eoff name 0x20 first_cl (of_nat (length data)) of (r, s3) \<Rightarrow>
                           Some (if r \<noteq> 0 then -1 else int (length data), s3)) } } } })"

section \<open>Making a directory\<close>

definition dot_sector :: "u32 \<Rightarrow> u32 \<Rightarrow> mem" where
  "dot_sector new_cl parent =
     (make_entry [] 0x10 parent 0 32 (make_entry [] 0x10 new_cl 0 0 zero_sector))(0 := 46, 32 := 46, 33 := 46)"

definition fat_mkdir :: "fat \<Rightarrow> u8 list \<Rightarrow> (int \<times> fat) option" where
  "fat_mkdir s path =
     (if \<not> mounted s \<or> path = [] then Some (-1, s)
      else do { r \<leftarrow> resolve_parent s path;
        case r of None \<Rightarrow> Some (-1, s)
        | Some (parent, name) \<Rightarrow>
          if name = [] then Some (-1, s)
          else do { f \<leftarrow> dir_find s parent name;
            if f \<noteq> None then Some (-1, s)
            else case fat_alloc_cluster s of (new_cl, s1) \<Rightarrow>
              if new_cl = 0 then Some (-1, s1)
              else case write_all ((cluster_to_lba s1 new_cl, dot_sector new_cl parent) #
                  map (\<lambda>k. (cluster_to_lba s1 new_cl + of_nat k, zero_sector)) [1..<unat (sec_per_cluster s1)]) s1 of (r, s2) \<Rightarrow>
                if r \<noteq> 0 then Some (-1, s2)
                else do { (at, s3) \<leftarrow> dir_alloc_slot s2 parent;
                  case at of None \<Rightarrow> Some (-1, s3)
                  | Some (elba, eoff) \<Rightarrow> Some (write_entry s3 elba eoff name 0x10 new_cl 0) } } })"

section \<open>Removing\<close>

datatype emptiness = Refuse | Empty_ok | Go_on

fun empty_sector :: "mem \<Rightarrow> nat list \<Rightarrow> emptiness" where
  "empty_sector m [] = Go_on"
| "empty_sector m (i # is) =
     (if m i = 0 then Empty_ok
      else if m i = 0xE5 \<or> m i = 46 \<and> (m (i + 1) = 32 \<or> m (i + 1) = 46 \<and> m (i + 2) = 32) then empty_sector m is
      else Refuse)"

fun empty_cluster :: "fat \<Rightarrow> u32 \<Rightarrow> nat list \<Rightarrow> emptiness" where
  "empty_cluster s cl [] = Go_on"
| "empty_cluster s cl (k # ks) =
     (case read_abs s (cluster_to_lba s cl + of_nat k) of None \<Rightarrow> Refuse
      | Some m \<Rightarrow> (case empty_sector m ent_offsets of Go_on \<Rightarrow> empty_cluster s cl ks | r \<Rightarrow> r))"

partial_function (option) dir_empty :: "fat \<Rightarrow> u32 \<Rightarrow> bool option" where
  "dir_empty s cur =
     (if chain_cl cur
      then (case empty_cluster s cur (sectors s) of Refuse \<Rightarrow> Some False | Empty_ok \<Rightarrow> Some True
            | Go_on \<Rightarrow> dir_empty s (fat_get s cur))
      else Some True)"

definition fat_unlink :: "fat \<Rightarrow> u8 list \<Rightarrow> (int \<times> fat) option" where
  "fat_unlink s path =
     (if \<not> mounted s \<or> path = [] then Some (-1, s)
      else do { r \<leftarrow> resolve_parent s path;
        case r of None \<Rightarrow> Some (-1, s)
        | Some (parent, name) \<Rightarrow>
          if name = [] then Some (-1, s)
          else do { f \<leftarrow> dir_find s parent name;
            case f of None \<Rightarrow> Some (-1, s)
            | Some e \<Rightarrow>
              do { ok \<leftarrow> (if d_dir e then dir_empty s (d_cl e) else Some True);
                if \<not> ok then Some (-1, s)
                else do { (_, s1) \<leftarrow> (if 2 \<le> d_cl e then fat_free_chain s (d_cl e) else Some (0, s));
                  case read_abs s1 (d_lba e) of None \<Rightarrow> Some (-1, s1)
                  | Some m \<Rightarrow> Some (write_abs s1 (d_lba e) (m(d_off e := 0xE5))) } } } })"

end
