(* ===== verification/Fat_Table.thy ===== *)
theory Fat_Table
  imports Fat
begin

text \<open>
  The allocation table of a mounted volume: reading an entry back after writing it, allocation of the lowest
  free cluster, and freeing of a chain, which ends on every table, also on a corrupted one with cycles.
\<close>

section \<open>What sector writes change\<close>

abbreviation blk :: "fat \<Rightarrow> u32 \<Rightarrow> mem" where "blk s \<equiv> blocks (disk_of s)"

text \<open>Two states that differ only in sector contents.\<close>

definition same_vol :: "fat \<Rightarrow> fat \<Rightarrow> bool" where
  "same_vol s s' \<longleftrightarrow> use_nvme s' = use_nvme s \<and> use_ahci s' = use_ahci s \<and> fat_start s' = fat_start s \<and> data_start s' = data_start s \<and>
     root_cluster s' = root_cluster s \<and> bytes_per_sec s' = bytes_per_sec s \<and> sec_per_cluster s' = sec_per_cluster s \<and>
     total_clusters s' = total_clusters s \<and> mounted s' = mounted s \<and> cwd_cluster s' = cwd_cluster s \<and> cwd_path s' = cwd_path s \<and>
     bad_read (disk_of s') = bad_read (disk_of s) \<and> bad_write (disk_of s') = bad_write (disk_of s)"

lemma same_vol_refl [simp]: "same_vol s s" by (simp add: same_vol_def)

lemma same_vol_trans: "same_vol s s1 \<Longrightarrow> same_vol s1 s2 \<Longrightarrow> same_vol s s2" by (simp add: same_vol_def)

lemma same_vol_simps:
  assumes "same_vol s s'"
  shows "cluster_to_lba s' = cluster_to_lba s" "fat_sec s' = fat_sec s" "fat_idx s' = fat_idx s" "bytes_per_sec s' = bytes_per_sec s"
    "sec_per_cluster s' = sec_per_cluster s" "total_clusters s' = total_clusters s" "bad_read (disk_of s') = bad_read (disk_of s)"
    "bad_write (disk_of s') = bad_write (disk_of s)" "data_start s' = data_start s" "fat_start s' = fat_start s"
    "root_cluster s' = root_cluster s" "cwd_cluster s' = cwd_cluster s" "mounted s' = mounted s"
  using assms by (auto simp: same_vol_def cluster_to_lba_def fat_sec_def fat_idx_def fun_eq_iff)

lemma write_abs_cases:
  assumes "write_abs s l m = (r, s')"
  shows "(bad_write (disk_of s) l \<and> r = -1 \<and> s' = s) \<or>
    (\<not> bad_write (disk_of s) l \<and> r = 0 \<and> same_vol s s' \<and> blk s' = (blk s)(l := m))"
  using assms by (auto simp: write_abs_def same_vol_def disk_of_def put_block_def split: if_splits)

lemma write_abs_ok:
  assumes "\<not> bad_write (disk_of s) l"
  shows "\<exists>s'. write_abs s l m = (0, s') \<and> same_vol s s' \<and> blk s' = (blk s)(l := m)"
  using write_abs_cases[of s l m] assms by (cases "write_abs s l m") auto

section \<open>Table entries\<close>

abbreviation small_cl :: "u32 \<Rightarrow> bool" where "small_cl cl \<equiv> unat cl < 2 ^ 28"

lemma unat_times4: "small_cl cl \<Longrightarrow> unat (cl * 4) = unat cl * 4"
  by (simp add: unat_word_ariths)

lemma fat_pos:
  assumes "bytes_per_sec s = 512" "small_cl cl"
  shows "fat_sec s cl = fat_start s + of_nat (unat cl div 128)" "fat_idx s cl = unat cl mod 128 * 4"
proof -
  have b: "(ucast (512 :: u16) :: u32) = 512" by simp
  have d: "unat (cl * 4) div 512 = unat cl div 128" "unat (cl * 4) mod 512 = unat cl mod 128 * 4"
    unfolding unat_times4[OF assms(2)] using div_mult_mult2[of 4 "unat cl" 128] mod_mult_mult2[of "unat cl" 4 128] by simp_all
  have "unat cl div 128 < 2 ^ 32" using assms(2) by (simp add: div_less_iff_less_mult)
  then have "(cl * 4) div 512 = of_nat (unat cl div 128)"
    using d(1) by (simp add: word_unat_eq_iff unat_div unat_of_nat)
  then show "fat_sec s cl = fat_start s + of_nat (unat cl div 128)" using assms(1) b by (simp add: fat_sec_def)
  have "unat ((cl * 4) mod 512) = unat (cl * 4) mod 512" by (simp add: unat_mod)
  then show "fat_idx s cl = unat cl mod 128 * 4" using assms(1) b d(2) by (simp add: fat_idx_def)
qed

lemma fat_sec_eq:
  assumes "bytes_per_sec s = 512" "small_cl a" "small_cl b"
  shows "fat_sec s a = fat_sec s b \<longleftrightarrow> unat a div 128 = unat b div 128"
proof -
  have "unat a div 128 < 2 ^ 21" "unat b div 128 < 2 ^ 21" using assms(2,3) by (simp_all add: div_less_iff_less_mult)
  then have "(of_nat (unat a div 128) :: u32) = of_nat (unat b div 128) \<longleftrightarrow> unat a div 128 = unat b div 128"
    by (simp add: word_unat_eq_iff unat_of_nat)
  then show ?thesis using assms by (simp add: fat_pos)
qed

lemma entry_disjoint:
  assumes "bytes_per_sec s = 512" "small_cl a" "small_cl b" "a \<noteq> b" "fat_sec s a = fat_sec s b"
  shows "fat_idx s a + 4 \<le> fat_idx s b \<or> fat_idx s b + 4 \<le> fat_idx s a"
proof -
  have "unat a div 128 = unat b div 128" using assms fat_sec_eq by blast
  moreover have "unat a \<noteq> unat b" using assms(4) by (simp add: word_unat_eq_iff)
  ultimately have "unat a mod 128 \<noteq> unat b mod 128" by (metis div_mult_mod_eq)
  then show ?thesis using assms(1-3) by (auto simp: fat_pos)
qed

lemma mask28: "((old AND 0xF0000000) OR (v AND 0x0FFFFFFF)) AND 0x0FFFFFFF = (v AND 0x0FFFFFFF :: u32)"
proof -
  have "(0xF0000000 :: u32) AND 0x0FFFFFFF = 0" by simp
  then show ?thesis by (simp add: bit.conj_disj_distrib2 and.assoc)
qed

lemma fat_set_cases:
  assumes "bytes_per_sec s = 512" "small_cl cl" "fat_set s cl v = (r, s')"
  shows "(r = -1 \<and> s' = s) \<or>
    (r = 0 \<and> same_vol s s' \<and> fat_get s' cl = v AND 0x0FFFFFFF \<and> (\<forall>c. small_cl c \<longrightarrow> c \<noteq> cl \<longrightarrow> fat_get s' c = fat_get s c) \<and>
     (\<forall>l. l \<noteq> fat_sec s cl \<longrightarrow> blk s' l = blk s l))"
proof (cases "r = 0")
  case True
  let ?l = "fat_sec s cl"
  obtain m where m: "\<not> bad_read (disk_of s) ?l" "m = blk s ?l" "read_abs s ?l = Some m"
    using assms(3) True by (auto simp: fat_set_def read_abs_def split: if_splits)
  define neu where "neu = (rd32 m (fat_idx s cl) AND 0xF0000000) OR (v AND 0x0FFFFFFF)"
  have "write_abs s ?l (wr32 m (fat_idx s cl) neu) = (0, s')"
    using assms(3) m True by (simp add: fat_set_def neu_def Let_def)
  then have w: "same_vol s s'" "blk s' = (blk s)(?l := wr32 m (fat_idx s cl) neu)" using write_abs_cases by fastforce+
  have "fat_get s' cl = v AND 0x0FFFFFFF"
    using w m(1) by (simp add: fat_get_def read_abs_def same_vol_simps neu_def mask28)
  moreover have "fat_get s' c = fat_get s c" if "small_cl c" "c \<noteq> cl" for c
  proof (cases "fat_sec s c = ?l")
    case True
    have "rd32 (wr32 m (fat_idx s cl) neu) (fat_idx s c) = rd32 m (fat_idx s c)"
      by (rule rd32_wr32_other) (use entry_disjoint[OF assms(1) that(1) assms(2) that(2) True] in auto)
    then show ?thesis using w m True by (simp add: fat_get_def read_abs_def same_vol_simps)
  qed (use w in \<open>simp add: fat_get_def read_abs_def same_vol_simps\<close>)
  ultimately show ?thesis using True w by simp
next
  case False
  then show ?thesis using assms(3) write_abs_cases[of s "fat_sec s cl"]
    by (fastforce simp: fat_set_def Let_def split: option.splits)
qed

section \<open>Freeing a chain\<close>

definition used_entries :: "fat \<Rightarrow> u32 set" where "used_entries s = {c. small_cl c \<and> fat_get s c \<noteq> 0}"

lemma chain_cl_small: "chain_cl cl \<Longrightarrow> small_cl cl"
  using word_less_nat_alt[of cl "0x0FFFFFF8"] by simp

lemma fat_get_small: "small_cl (fat_get s c)"
proof -
  have "unat (x AND 0x0FFFFFFF :: u32) < 2 ^ 28" for x
  proof -
    have "x AND 0x0FFFFFFF = take_bit 28 x" by (simp add: take_bit_eq_mask mask_eq_exp_minus_1)
    then show ?thesis using take_bit_nat_less_exp[of 28 "unat x"] by (simp add: unsigned_take_bit_eq)
  qed
  then show ?thesis by (simp add: fat_get_def split: option.split)
qed

lemma fat_free_chain_returns:
  assumes "bytes_per_sec s = 512"
  shows "\<exists>r s'. fat_free_chain s cl = Some (r, s') \<and> same_vol s s'"
  using assms
proof (induction "card (used_entries s)" arbitrary: s cl rule: less_induct)
  case less
  show ?case
  proof (cases "chain_cl cl")
    case True
    obtain r s1 where st: "fat_set s cl 0 = (r, s1)" by fastforce
    note c = fat_set_cases[OF less.prems chain_cl_small[OF True] st]
    show ?thesis
    proof (cases "r = 0 \<and> fat_get s cl \<noteq> 0")
      case nz: True
      then have s1: "same_vol s s1" "fat_get s1 cl = 0" "\<forall>c. small_cl c \<longrightarrow> c \<noteq> cl \<longrightarrow> fat_get s1 c = fat_get s c" using c by auto
      have "used_entries s1 \<subset> used_entries s"
        using s1 nz chain_cl_small[OF True] by (auto simp: used_entries_def)
      then have "card (used_entries s1) < card (used_entries s)" by (simp add: psubset_card_mono)
      from less.hyps[OF this, of "fat_get s cl"] s1(1) less.prems
      obtain r' s' where "fat_free_chain s1 (fat_get s cl) = Some (r', s')" "same_vol s1 s'" by (auto simp: same_vol_simps)
      then show ?thesis using True st nz same_vol_trans[OF s1(1)] by (simp add: fat_free_chain.simps[of s])
    next
      case False
      then show ?thesis using True st c by (auto simp: fat_free_chain.simps[of s] fat_free_chain.simps[of s1 0])
    qed
  qed (auto simp: fat_free_chain.simps)
qed

section \<open>Layout of a volume\<close>

definition in_vol :: "fat \<Rightarrow> u32 \<Rightarrow> bool" where "in_vol s c \<longleftrightarrow> 2 \<le> unat c \<and> unat c < unat (total_clusters s) + 2"

text \<open>
  The layout \<open>fat_mount\<close> computes for a regular volume: the table entries of all clusters lie in front of the data
  area and the data area within the 32-bit block numbers; and no transfer fails.
\<close>

definition geom :: "fat \<Rightarrow> bool" where
  "geom s \<longleftrightarrow> bytes_per_sec s = 512 \<and> sec_per_cluster s \<noteq> 0 \<and> unat (total_clusters s) + 2 \<le> 0x0FFFFFF0 \<and>
     unat (fat_start s) + (unat (total_clusters s) + 129) div 128 \<le> unat (data_start s) \<and>
     unat (data_start s) + unat (total_clusters s) * unat (sec_per_cluster s) \<le> 2 ^ 32 \<and>
     (\<forall>l. \<not> bad_read (disk_of s) l \<and> \<not> bad_write (disk_of s) l)"

lemma geom_same: "same_vol s s' \<Longrightarrow> geom s' \<longleftrightarrow> geom s"
  by (simp add: geom_def same_vol_simps)

lemma in_vol_same: "same_vol s s' \<Longrightarrow> in_vol s' c \<longleftrightarrow> in_vol s c"
  by (simp add: in_vol_def same_vol_simps)

lemma in_vol_chain: "geom s \<Longrightarrow> in_vol s c \<Longrightarrow> chain_cl c"
  by (auto simp: geom_def in_vol_def word_le_nat_alt word_less_nat_alt)

lemma in_vol_small: "geom s \<Longrightarrow> in_vol s c \<Longrightarrow> small_cl c"
  by (auto simp: geom_def in_vol_def)

lemma fat_sec_low:
  assumes "geom s" "in_vol s c"
  shows "unat (fat_sec s c) < unat (data_start s)"
proof -
  have c: "unat c div 128 < (unat (total_clusters s) + 129) div 128"
    using assms(2) div_le_mono[of "unat c + 128" "unat (total_clusters s) + 129" 128] by (simp add: in_vol_def)
  have "unat c div 128 < 2 ^ 32" using in_vol_small[OF assms] by (simp add: div_less_iff_less_mult)
  moreover have "unat (fat_start s) + unat c div 128 < unat (data_start s)" using c assms(1) unfolding geom_def by linarith
  moreover have "unat (data_start s) < 2 ^ 32" using unsigned_less[of "data_start s", where 'a = nat] by simp
  ultimately have "unat (fat_start s + of_nat (unat c div 128)) = unat (fat_start s) + unat c div 128"
    by (simp add: unat_word_ariths unat_of_nat)
  then show ?thesis using c assms(1) fat_pos(1)[of s c] in_vol_small[OF assms] by (simp add: geom_def)
qed

lemma data_sec:
  assumes "geom s" "in_vol s c" "k < unat (sec_per_cluster s)"
  shows "unat (cluster_to_lba s c + of_nat k) = unat (data_start s) + (unat c - 2) * unat (sec_per_cluster s) + k"
proof -
  let ?n = "unat (sec_per_cluster s)"
  have "(unat c - 2 + 1) * ?n \<le> unat (total_clusters s) * ?n" using assms(2) unfolding in_vol_def by (intro mult_le_mono1) linarith
  then have b: "unat (data_start s) + (unat c - 2) * ?n + k < 2 ^ 32" using assms(1,3) by (simp add: geom_def)
  have "unat (c - 2) = unat c - 2" using assms(2) by (simp add: in_vol_def unat_sub_if' word_le_nat_alt)
  moreover have "unat (ucast (sec_per_cluster s) :: u32) = ?n"
    using unsigned_less[of "sec_per_cluster s", where 'a = nat] by (simp add: unsigned_ucast_eq take_bit_nat_eq_self)
  ultimately have "unat ((c - 2) * ucast (sec_per_cluster s)) = (unat c - 2) * ?n"
    using b by (simp add: unat_word_ariths)
  then show ?thesis using b assms(3) by (simp add: cluster_to_lba_def unat_word_ariths unat_of_nat)
qed

lemma mult_add_inj:
  fixes a b k k' n :: nat
  assumes "k < n" "k' < n"
  shows "a * n + k = b * n + k' \<longleftrightarrow> a = b \<and> k = k'"
proof
  assume e: "a * n + k = b * n + k'"
  have "(a * n + k) div n = a" "(b * n + k') div n = b" using assms by simp_all
  with e show "a = b \<and> k = k'" by simp
qed simp

text \<open>Sectors of different clusters are different, and none is a sector of the table.\<close>

lemma data_sec_inj:
  assumes "geom s" "in_vol s c" "in_vol s c'" "k < unat (sec_per_cluster s)" "k' < unat (sec_per_cluster s)"
  shows "cluster_to_lba s c + of_nat k = cluster_to_lba s c' + of_nat k' \<longleftrightarrow> c = c' \<and> k = k'"
proof -
  let ?n = "unat (sec_per_cluster s)"
  have "(unat c - 2) * ?n + k = (unat c' - 2) * ?n + k' \<longleftrightarrow> unat c - 2 = unat c' - 2 \<and> k = k'"
    by (rule mult_add_inj[OF assms(4,5)])
  moreover have "unat c - 2 = unat c' - 2 \<longleftrightarrow> c = c'"
    unfolding word_unat_eq_iff using assms(2,3) unfolding in_vol_def by linarith
  moreover have "cluster_to_lba s c + of_nat k = cluster_to_lba s c' + of_nat k' \<longleftrightarrow> (unat c - 2) * ?n + k = (unat c' - 2) * ?n + k'"
    unfolding word_unat_eq_iff data_sec[OF assms(1,2,4)] data_sec[OF assms(1,3,5)] by simp
  ultimately show ?thesis by simp
qed

lemma data_not_table:
  assumes "geom s" "in_vol s c" "in_vol s c'" "k < unat (sec_per_cluster s)"
  shows "cluster_to_lba s c + of_nat k \<noteq> fat_sec s c'"
  using fat_sec_low[OF assms(1,3)] data_sec[OF assms(1,2,4)] by (intro notI) simp

section \<open>Table updates on a regular volume\<close>

text \<open>\<open>s'\<close> has the table \<open>t\<close> on the clusters of the volume and the data area of \<open>s\<close>.\<close>

definition table_step :: "fat \<Rightarrow> fat \<Rightarrow> (u32 \<Rightarrow> u32) \<Rightarrow> bool" where
  "table_step s s' t \<longleftrightarrow> same_vol s s' \<and> (\<forall>c. in_vol s c \<longrightarrow> fat_get s' c = t c) \<and>
     (\<forall>l. unat (data_start s) \<le> unat l \<longrightarrow> blk s' l = blk s l)"

lemma fat_set_step:
  assumes "geom s" "in_vol s cl" "unat v < 2 ^ 28"
  shows "\<exists>s'. fat_set s cl v = (0, s') \<and> table_step s s' ((fat_get s)(cl := v))"
proof -
  obtain r s' where st: "fat_set s cl v = (r, s')" by fastforce
  have b: "bytes_per_sec s = 512" using assms(1) by (simp add: geom_def)
  have "r = 0" using st assms(1) by (simp add: fat_set_def read_abs_def geom_def Let_def write_abs_def)
  moreover have "v AND 0x0FFFFFFF = v"
  proof -
    have "v AND 0x0FFFFFFF = take_bit 28 v" by (simp add: take_bit_eq_mask mask_eq_exp_minus_1)
    then show ?thesis using assms(3) by (simp add: word_unat_eq_iff unsigned_take_bit_eq take_bit_nat_eq_self)
  qed
  moreover have "l \<noteq> fat_sec s cl" if "unat (data_start s) \<le> unat l" for l
    using fat_sec_low[OF assms(1,2)] that by auto
  ultimately show ?thesis
    using fat_set_cases[OF b in_vol_small[OF assms(1,2)] st] in_vol_small[OF assms(1)] st by (auto simp: table_step_def)
qed

definition free_cl :: "fat \<Rightarrow> u32 \<Rightarrow> bool" where "free_cl s c \<longleftrightarrow> in_vol s c \<and> 3 \<le> unat c \<and> fat_get s c = 0"

lemma alloc_scan_spec:
  assumes "geom s" "unat c + n = unat (total_clusters s) + 2" "3 \<le> unat c"
  shows "(alloc_scan s c n = (0, s) \<and> (\<forall>d. free_cl s d \<longrightarrow> unat d < unat c)) \<or>
    (\<exists>d s'. alloc_scan s c n = (d, s') \<and> free_cl s d \<and> unat c \<le> unat d \<and> (\<forall>e. free_cl s e \<longrightarrow> unat c \<le> unat e \<longrightarrow> unat d \<le> unat e) \<and>
       table_step s s' ((fat_get s)(d := 0x0FFFFFFF)))"
  using assms(2,3)
proof (induction n arbitrary: c)
  case (Suc n)
  have iv: "in_vol s c" using Suc.prems by (simp add: in_vol_def)
  show ?case
  proof (cases "fat_get s c = 0")
    case True
    obtain s' where s': "fat_set s c 0x0FFFFFFF = (0, s')" "table_step s s' ((fat_get s)(c := 0x0FFFFFFF))"
      using fat_set_step[OF assms(1) iv, of "0x0FFFFFFF"] by auto
    then have "alloc_scan s c (Suc n) = (c, s')" using True by simp
    moreover have "free_cl s c" using True iv Suc.prems by (simp add: free_cl_def)
    ultimately show ?thesis using s'(2) by blast
  next
    case False
    have u: "unat (c + 1) = unat c + 1" using Suc.prems assms(1) by (simp add: geom_def unat_word_ariths)
    have "free_cl s e \<Longrightarrow> unat c \<le> unat e \<longleftrightarrow> unat (c + 1) \<le> unat e" for e
      using False u by (auto simp: free_cl_def) (metis Suc_leI le_neq_implies_less word_unat_eq_iff)
    moreover have "free_cl s e \<Longrightarrow> unat e < unat (c + 1) \<Longrightarrow> unat e < unat c" for e
      using calculation[of e] by linarith
    ultimately show ?thesis using Suc.IH[of "c + 1"] Suc.prems False u by (auto 0 4)
  qed
qed (auto simp: free_cl_def in_vol_def)

lemma fat_alloc_spec:
  assumes "geom s" "fat_alloc_cluster s = (c, s')"
  shows "(c = 0 \<and> s' = s \<and> (\<forall>d. \<not> free_cl s d)) \<or>
    (free_cl s c \<and> (\<forall>d. free_cl s d \<longrightarrow> unat c \<le> unat d) \<and> table_step s s' ((fat_get s)(c := 0x0FFFFFFF)))"
proof -
  have n: "unat (total_clusters s + 2) = unat (total_clusters s) + 2" using assms(1) by (simp add: geom_def unat_word_ariths)
  show ?thesis
  proof (cases "total_clusters s = 0")
    case True
    then have "alloc_scan s 3 (unat (total_clusters s + 2) - 3) = (0, s)" by simp
    then show ?thesis using assms(2) True by (auto simp: fat_alloc_cluster_def free_cl_def in_vol_def)
  next
    case False
    then have "0 < unat (total_clusters s)" by (simp add: unat_gt_0)
    then have e: "unat (3 :: u32) + (unat (total_clusters s + 2) - 3) = unat (total_clusters s) + 2" using n by simp
    have "free_cl s d \<Longrightarrow> 3 \<le> unat d" for d by (simp add: free_cl_def)
    then show ?thesis using alloc_scan_spec[OF assms(1) e] assms(2) by (fastforce simp: fat_alloc_cluster_def)
  qed
qed

section \<open>Cluster chains\<close>

text \<open>The clusters of a chain in order; the chain ends at the first number that is no cluster.\<close>

fun chain_of :: "fat \<Rightarrow> u32 \<Rightarrow> u32 list \<Rightarrow> bool" where
  "chain_of s cl [] \<longleftrightarrow> \<not> chain_cl cl"
| "chain_of s cl (c # cs) \<longleftrightarrow> cl = c \<and> chain_cl c \<and> chain_of s (fat_get s c) cs"

lemma chain_unique: "chain_of s cl cs \<Longrightarrow> chain_of s cl ds \<Longrightarrow> cs = ds"
proof (induction cs arbitrary: cl ds)
  case Nil
  then show ?case by (cases ds) auto
next
  case (Cons c cs)
  then show ?case by (cases ds) auto
qed

lemma chain_suffix: "chain_of s cl cs \<Longrightarrow> c \<in> set cs \<Longrightarrow> \<exists>ds. chain_of s c (c # ds) \<and> length ds < length cs"
proof (induction cs arbitrary: cl)
  case (Cons a cs)
  then show ?case by (cases "a = c") (auto, metis less_SucI)
qed simp

lemma chain_distinct: "chain_of s cl cs \<Longrightarrow> distinct cs"
proof (induction cs arbitrary: cl)
  case (Cons c cs)
  have "c \<notin> set cs"
  proof
    assume "c \<in> set cs"
    with Cons.prems obtain ds where "chain_of s c (c # ds)" "length ds < length cs" using chain_suffix[of s "fat_get s c" cs c] by auto
    then show False using chain_unique[of s c "c # ds" "c # cs"] Cons.prems by simp
  qed
  then show ?case using Cons by auto
qed simp

lemma cluster_chain_cong: "chain_of s cl cs \<Longrightarrow> (\<And>c. c \<in> set cs \<Longrightarrow> fat_get s' c = fat_get s c) \<Longrightarrow> chain_of s' cl cs"
  by (induction cs arbitrary: cl) auto

lemma table_stepD:
  assumes "table_step s s' t"
  shows "same_vol s s'" "in_vol s c \<Longrightarrow> fat_get s' c = t c" "unat (data_start s) \<le> unat l \<Longrightarrow> blk s' l = blk s l"
  using assms by (auto simp: table_step_def)

lemma table_step_trans:
  assumes "table_step s s1 t" "table_step s1 s2 t'" "\<And>c. in_vol s c \<Longrightarrow> t' c = t'' c"
  shows "table_step s s2 t''"
  using assms same_vol_trans[of s s1 s2] by (auto simp: table_step_def same_vol_simps in_vol_same)

lemma fat_free_chain_step:
  assumes "geom s" "chain_of s cl cs" "\<forall>c \<in> set cs. in_vol s c"
  shows "\<exists>s'. fat_free_chain s cl = Some (0, s') \<and> table_step s s' (\<lambda>c. if c \<in> set cs then 0 else fat_get s c)"
  using assms
proof (induction cs arbitrary: s cl)
  case Nil
  then show ?case by (auto simp: fat_free_chain.simps[of s] table_step_def)
next
  case (Cons c cs)
  have iv: "in_vol s c" and c: "cl = c" "chain_cl c" "chain_of s (fat_get s c) cs" using Cons.prems by auto
  obtain s1 where s1: "fat_set s c 0 = (0, s1)" "table_step s s1 ((fat_get s)(c := 0))"
    using fat_set_step[OF Cons.prems(1) iv, of 0] by auto
  note sv = table_stepD(1)[OF s1(2)]
  have nc: "c \<notin> set cs" using chain_distinct[OF Cons.prems(2)] by simp
  have "chain_of s1 (fat_get s c) cs"
    by (rule cluster_chain_cong[OF c(3)]) (use table_stepD(2)[OF s1(2)] nc Cons.prems(3) in auto)
  moreover have "geom s1" "\<forall>c \<in> set cs. in_vol s1 c" using Cons.prems(1,3) sv by (simp_all add: geom_same in_vol_same)
  ultimately obtain s' where s': "fat_free_chain s1 (fat_get s c) = Some (0, s')"
    "table_step s1 s' (\<lambda>d. if d \<in> set cs then 0 else fat_get s1 d)" using Cons.IH by blast
  have "table_step s s' (\<lambda>d. if d \<in> set (c # cs) then 0 else fat_get s d)"
    by (rule table_step_trans[OF s1(2) s'(2)]) (use table_stepD(2)[OF s1(2)] in auto)
  then show ?case using s1(1) s'(1) c by (simp add: fat_free_chain.simps[of s])
qed

section \<open>Properties\<close>

text \<open>
  C30. A successful \<open>fat_set\<close> is read back by \<open>fat_get\<close>: the entry has the low 28 bits of the value, its top four bits on
  the disk, all other entries and all other sectors are unchanged. A failing one changes nothing.
\<close>

theorem fat_entry_roundtrip:
  assumes "bytes_per_sec s = 512" "small_cl cl" "fat_set s cl v = (r, s')"
  shows "if r = 0
    then fat_get s' cl = v AND 0x0FFFFFFF \<and> (\<forall>c. small_cl c \<and> c \<noteq> cl \<longrightarrow> fat_get s' c = fat_get s c) \<and>
      (\<forall>l. l \<noteq> fat_sec s cl \<longrightarrow> blk s' l = blk s l) \<and>
      rd32 (blk s' (fat_sec s cl)) (fat_idx s cl) AND 0xF0000000 = rd32 (blk s (fat_sec s cl)) (fat_idx s cl) AND 0xF0000000
    else r = -1 \<and> s' = s"
proof -
  have top: "((a AND 0xF0000000) OR (b AND 0x0FFFFFFF)) AND 0xF0000000 = (a AND 0xF0000000 :: u32)" for a b
    by (simp add: bit.conj_disj_distrib2 and.assoc)
  have "rd32 (blk s' (fat_sec s cl)) (fat_idx s cl) AND 0xF0000000 = rd32 (blk s (fat_sec s cl)) (fat_idx s cl) AND 0xF0000000"
    if "r = 0"
    using assms(3) that write_abs_cases[of s "fat_sec s cl" _ r s']
    by (auto simp: fat_set_def read_abs_def Let_def top split: if_splits)
  then show ?thesis using fat_set_cases[OF assms] by auto
qed

definition demo_disk :: disk where
  "demo_disk = \<lparr>blocks = (\<lambda>l. if l = 32 then wr32 zero_sector 8 0x0FFFFFFF else zero_sector), bad_read = (\<lambda>_. False),
     bad_write = (\<lambda>_. False), present = True\<rparr>"

definition demo_fat :: fat where
  "demo_fat = \<lparr>nvme = demo_disk\<lparr>present := False\<rparr>, ahci = demo_disk\<lparr>present := False\<rparr>, ata = demo_disk, use_nvme = False, use_ahci = False,
     part_lba = 0, fat_start = 32, data_start = 40, root_cluster = 2, bytes_per_sec = 512, sec_per_cluster = 2, num_fats = 1,
     fat_size_sectors = 8, total_clusters = 100, mounted = True, cwd_cluster = 2, cwd_path = 47 # replicate 127 0\<rparr>"

lemma demo_fat_geom: "geom demo_fat"
  by (simp add: geom_def demo_fat_def disk_of_def demo_disk_def)

theorem fat_entry_roundtrip_witness:
  "\<exists>s'. fat_set demo_fat 7 0xA0000009 = (0, s') \<and> fat_get s' 7 = 9 \<and> fat_get s' 2 = 0x0FFFFFFF"
proof -
  obtain r s' where st: "fat_set demo_fat 7 0xA0000009 = (r, s')" by fastforce
  moreover have "r = 0" using st by (simp add: fat_set_def read_abs_def write_abs_def demo_fat_def disk_of_def demo_disk_def Let_def)
  moreover have "fat_get demo_fat 2 = 0x0FFFFFFF"
    by (simp add: fat_get_def read_abs_def fat_sec_def fat_idx_def demo_fat_def disk_of_def demo_disk_def)
  moreover have "bytes_per_sec demo_fat = 512" by (simp add: demo_fat_def)
  ultimately show ?thesis using fat_entry_roundtrip[of demo_fat 7 "0xA0000009" r s'] by auto
qed

text \<open>
  C20. On a regular volume \<open>fat_alloc_cluster\<close> returns the lowest free cluster from 3 on, marks it as the end of a chain
  and changes no other entry and nothing in the data area; it returns 0, changing nothing, exactly when no cluster is free.
\<close>

theorem fat_alloc_lowest:
  assumes "geom s" "fat_alloc_cluster s = (c, s')"
  shows "if \<exists>d. free_cl s d
    then free_cl s c \<and> (\<forall>d. free_cl s d \<longrightarrow> unat c \<le> unat d) \<and> fat_get s' c = 0x0FFFFFFF \<and>
      (\<forall>d. in_vol s d \<and> d \<noteq> c \<longrightarrow> fat_get s' d = fat_get s d) \<and> (\<forall>l. unat (data_start s) \<le> unat l \<longrightarrow> blk s' l = blk s l)
    else c = 0 \<and> s' = s"
proof -
  have "\<not> free_cl s 0" by (simp add: free_cl_def)
  then show ?thesis using fat_alloc_spec[OF assms] by (auto simp: table_step_def free_cl_def)
qed

theorem fat_alloc_lowest_witness:
  "\<exists>c s'. fat_alloc_cluster demo_fat = (c, s') \<and> unat c = 3 \<and> fat_get s' c = 0x0FFFFFFF"
proof -
  obtain c s' where a: "fat_alloc_cluster demo_fat = (c, s')" by fastforce
  have "fat_get demo_fat 3 = 0"
    by (simp add: fat_get_def read_abs_def fat_sec_def fat_idx_def demo_fat_def disk_of_def demo_disk_def wr32_def rd32_def)
  then have f: "free_cl demo_fat 3" by (simp add: free_cl_def in_vol_def) (simp add: demo_fat_def)
  then have "free_cl demo_fat c" "unat c \<le> unat (3 :: u32)" "fat_get s' c = 0x0FFFFFFF"
    using fat_alloc_lowest[OF demo_fat_geom a] by (auto split: if_splits)
  then show ?thesis using a by (intro exI[of _ c] exI[of _ s']) (simp add: free_cl_def)
qed

text \<open>
  C18. Freeing a chain always returns, whatever the table contains, cycles and failing sectors included. On
  a regular volume and a proper chain it succeeds and frees exactly the clusters of the chain.
\<close>

theorem fat_free_chain_total:
  assumes "bytes_per_sec s = 512"
  shows "\<exists>r s'. fat_free_chain s cl = Some (r, s') \<and>
    (\<forall>cs. geom s \<and> chain_of s cl cs \<and> (\<forall>c \<in> set cs. in_vol s c) \<longrightarrow>
      r = 0 \<and> (\<forall>c. in_vol s c \<longrightarrow> fat_get s' c = (if c \<in> set cs then 0 else fat_get s c)))"
proof -
  obtain r s' where f: "fat_free_chain s cl = Some (r, s')" using fat_free_chain_returns[OF assms] by blast
  have "r = 0 \<and> (\<forall>c. in_vol s c \<longrightarrow> fat_get s' c = (if c \<in> set cs then 0 else fat_get s c))"
    if "geom s \<and> chain_of s cl cs \<and> (\<forall>c \<in> set cs. in_vol s c)" for cs
  proof -
    have t: "r = 0" "table_step s s' (\<lambda>c. if c \<in> set cs then 0 else fat_get s c)"
      using fat_free_chain_step[of s cl cs] that f by auto
    then show ?thesis using table_stepD(2)[OF t(2)] by blast
  qed
  then show ?thesis using f by blast
qed

text \<open>The witness frees a chain on a table whose only entry points to itself.\<close>

theorem fat_free_chain_total_witness:
  "\<exists>r s'. fat_free_chain (snd (fat_set demo_fat 5 5)) 5 = Some (r, s')"
proof -
  have "bytes_per_sec (snd (fat_set demo_fat 5 5)) = 512"
    by (simp add: fat_set_def read_abs_def write_abs_def demo_fat_def disk_of_def demo_disk_def Let_def)
  from fat_free_chain_total[OF this, of 5] show ?thesis by blast
qed

end
