(* ===== verification/Fat_Chain.thy ===== *)
theory Fat_Chain
  imports Fat_Table
begin

text \<open>
  File contents along cluster chains: what a sector-wise write of a cluster leaves, the chain \<open>fat_write_file\<close> builds
  for its data, and what \<open>fat_read_file\<close> collects from a chain.
\<close>

abbreviation sec_of :: "fat \<Rightarrow> u32 \<Rightarrow> nat \<Rightarrow> u32" where "sec_of s c k \<equiv> cluster_to_lba s c + of_nat k"

abbreviation spc :: "fat \<Rightarrow> nat" where "spc s \<equiv> unat (sec_per_cluster s)"

definition sector_bytes :: "mem \<Rightarrow> u8 list" where "sector_bytes m = map m [0..<512]"

definition cluster_bytes :: "fat \<Rightarrow> u32 \<Rightarrow> u8 list" where
  "cluster_bytes s c = concat (map (\<lambda>k. sector_bytes (blk s (sec_of s c k))) [0..<spc s])"

lemma length_sector_bytes [simp]: "length (sector_bytes m) = 512" by (simp add: sector_bytes_def)

lemma concat_length: "\<forall>x \<in> set xs. length (f x) = n \<Longrightarrow> length (concat (map f xs)) = length xs * n"
  by (induction xs) auto

lemma length_cluster_bytes [simp]: "length (cluster_bytes s c) = 512 * spc s"
  by (simp add: cluster_bytes_def concat_length[where n = 512])

lemma fill_sector_bytes: "length bs \<le> 512 \<Longrightarrow> sector_bytes (fill_sector bs) = bs @ replicate (512 - length bs) 0"
  by (rule nth_equalityI) (auto simp: sector_bytes_def fill_sector_def nth_append)

section \<open>Writing one cluster\<close>

text \<open>\<open>s'\<close> has new contents in the sectors \<open>ks\<close> of cluster \<open>c\<close> and is otherwise \<open>s\<close>.\<close>

definition cluster_step :: "fat \<Rightarrow> u32 \<Rightarrow> nat set \<Rightarrow> (nat \<Rightarrow> mem) \<Rightarrow> fat \<Rightarrow> bool" where
  "cluster_step s c ks f s' \<longleftrightarrow> same_vol s s' \<and> (\<forall>k \<in> ks. blk s' (sec_of s c k) = f k) \<and>
     (\<forall>l. l \<notin> (\<lambda>k. sec_of s c k) ` ks \<longrightarrow> blk s' l = blk s l)"

lemma cluster_step_insert:
  assumes "same_vol s s1" "blk s1 = (blk s)(sec_of s c k0 := m)" "cluster_step s1 c K f s'" "sec_of s c k0 \<notin> (\<lambda>k. sec_of s c k) ` K" "f k0 = m"
  shows "cluster_step s c (insert k0 K) f s'"
proof -
  have lba: "cluster_to_lba s1 = cluster_to_lba s" using assms(1) by (simp add: same_vol_simps)
  have "blk s' (sec_of s c k0) = m" using assms(2-4) lba by (simp add: cluster_step_def)
  then show ?thesis using assms same_vol_trans[OF assms(1)] lba unfolding cluster_step_def by auto
qed

lemma zero_rest_step:
  assumes "geom s" "in_vol s c" "set ks \<subseteq> {..<spc s}" "distinct ks"
  shows "cluster_step s c (set ks) (\<lambda>_. zero_sector)
    (fold (\<lambda>z t. snd (write_abs t (cluster_to_lba t c + of_nat z) zero_sector)) ks s)"
  using assms
proof (induction ks arbitrary: s)
  case (Cons k ks)
  obtain s1 where s1: "write_abs s (sec_of s c k) zero_sector = (0, s1)" "same_vol s s1" "blk s1 = (blk s)(sec_of s c k := zero_sector)"
    using write_abs_ok[of s "sec_of s c k" zero_sector] Cons.prems(1) by (auto simp: geom_def)
  have "cluster_step s1 c (set ks) (\<lambda>_. zero_sector) (fold (\<lambda>z t. snd (write_abs t (cluster_to_lba t c + of_nat z) zero_sector)) ks s1)"
    using Cons.IH[of s1] Cons.prems s1(2) by (simp add: geom_same in_vol_same same_vol_simps)
  moreover have "sec_of s c k \<notin> (\<lambda>k. sec_of s c k) ` set ks"
    using data_sec_inj[OF Cons.prems(1,2,2), of k] Cons.prems(3,4) by (auto simp del: add_left_cancel)
  ultimately show ?case using s1 cluster_step_insert[OF s1(2,3)] by simp
qed (auto simp: cluster_step_def)

lemma write_cluster_step:
  assumes "geom s" "in_vol s c" "k0 \<le> spc s"
  shows "\<exists>s'. write_cluster c [k0..<spc s] rem s = (Some (drop (512 * (spc s - k0)) rem), s') \<and>
    cluster_step s c {k0..<spc s} (\<lambda>k. fill_sector (take 512 (drop (512 * (k - k0)) rem))) s'"
  using assms
proof (induction "spc s - k0" arbitrary: k0 rem s)
  case 0
  then show ?case by (auto simp: cluster_step_def)
next
  case (Suc n)
  let ?w = "\<lambda>m. write_abs s (sec_of s c k0) m" and ?m = "fill_sector (take 512 rem)"
  have k: "k0 < spc s" "[k0..<spc s] = k0 # [Suc k0..<spc s]" using Suc.hyps(2) by (simp_all add: upt_conv_Cons)
  obtain s1 where s1: "?w ?m = (0, s1)" "same_vol s s1" "blk s1 = (blk s)(sec_of s c k0 := ?m)"
    using write_abs_ok[of s "sec_of s c k0" ?m] Suc.prems(1) by (auto simp: geom_def)
  have g1: "geom s1" "in_vol s1 c" "spc s1 = spc s" "cluster_to_lba s1 = cluster_to_lba s"
    using Suc.prems s1(2) by (simp_all add: geom_same in_vol_same same_vol_simps)
  have ne: "sec_of s c k0 \<notin> (\<lambda>k. sec_of s c k) ` {Suc k0..<spc s}"
  proof
    assume "sec_of s c k0 \<in> (\<lambda>k. sec_of s c k) ` {Suc k0..<spc s}"
    then obtain k where "sec_of s c k0 = sec_of s c k" "Suc k0 \<le> k" "k < spc s" by (auto simp del: add_left_cancel)
    then show False using data_sec_inj[OF Suc.prems(1,2,2) k(1), of k] by simp
  qed
  have ins: "{k0..<spc s} = insert k0 {Suc k0..<spc s}" using k(1) by auto
  have join: "cluster_step s c {k0..<spc s} f s'" if "cluster_step s1 c {Suc k0..<spc s} f s'" "f k0 = ?m" for f s'
    unfolding ins by (rule cluster_step_insert[OF s1(2,3) that(1) ne that(2)])
  have d: "drop (512 * (k - k0)) rem = drop (512 * (k - Suc k0)) (drop 512 rem)" if "Suc k0 \<le> k" for k
  proof -
    have "512 * (k - k0) = 512 * (k - Suc k0) + 512" using that by simp
    then show ?thesis by simp
  qed
  show ?case
  proof (cases "drop 512 rem = []")
    case True
    let ?s' = "fold (\<lambda>z t. snd (write_abs t (cluster_to_lba t c + of_nat z) zero_sector)) [Suc k0..<spc s] s1"
    have "cluster_step s1 c {Suc k0..<spc s} (\<lambda>_. zero_sector) ?s'"
      using zero_rest_step[of s1 c "[Suc k0..<spc s]"] g1 by (simp add: subset_iff)
    moreover have "fill_sector (take 512 (drop (512 * (k - k0)) rem)) = zero_sector" if "k \<in> {Suc k0..<spc s}" for k
    proof -
      have "Suc k0 \<le> k" using that by simp
      then show ?thesis unfolding d[OF \<open>Suc k0 \<le> k\<close>] True by (simp add: fill_sector_def)
    qed
    ultimately have "cluster_step s1 c {Suc k0..<spc s} (\<lambda>k. fill_sector (take 512 (drop (512 * (k - k0)) rem))) ?s'"
      by (simp add: cluster_step_def)
    moreover have "drop (512 * (spc s - k0)) rem = []" using True k(1) d[of "spc s"] by simp
    ultimately show ?thesis using join k(2) s1(1) True by simp
  next
    case False
    have n: "n = spc s1 - Suc k0" "Suc k0 \<le> spc s1" using Suc.hyps(2) g1(3) by simp_all
    obtain s' where s': "write_cluster c [Suc k0..<spc s] (drop 512 rem) s1 = (Some (drop (512 * (spc s - Suc k0)) (drop 512 rem)), s')"
      "cluster_step s1 c {Suc k0..<spc s} (\<lambda>k. fill_sector (take 512 (drop (512 * (k - Suc k0)) (drop 512 rem)))) s'"
      using Suc.hyps(1)[OF n(1) g1(1,2) n(2), of "drop 512 rem"] g1(3) by auto
    have "cluster_step s1 c {Suc k0..<spc s} (\<lambda>k. fill_sector (take 512 (drop (512 * (k - k0)) rem))) s'"
      using s'(2) d by (auto simp: cluster_step_def)
    then show ?thesis using join s'(1) k s1(1) False d[of "spc s"] by (intro exI[of _ s']) simp
  qed
qed

text \<open>The bytes of the cluster after the write: the data, filled up with zeros.\<close>

lemma chunks_concat:
  "concat (map (\<lambda>k. sector_bytes (fill_sector (take 512 (drop (512 * k) xs)))) [0..<n]) = take (512 * n) xs @ replicate (512 * n - length xs) 0"
proof (induction n)
  case (Suc n)
  have "take (512 * Suc n) xs = take (512 * n) xs @ take 512 (drop (512 * n) xs)" by (simp add: take_add[symmetric] add.commute)
  moreover have "replicate (512 * n - length xs) (0 :: u8) @ take 512 (drop (512 * n) xs) @ replicate (512 - min 512 (length xs - 512 * n)) 0 =
      take 512 (drop (512 * n) xs) @ replicate (512 * Suc n - length xs) 0"
  proof (cases "length xs \<le> 512 * n")
    case True
    then have "512 * Suc n - length xs = (512 * n - length xs) + 512" by simp
    then show ?thesis using True unfolding \<open>512 * Suc n - length xs = (512 * n - length xs) + 512\<close> replicate_add by simp
  qed simp
  ultimately show ?case using Suc by (simp add: fill_sector_bytes min.commute del: mult_Suc_right)
qed simp

lemma cluster_step_bytes:
  assumes "cluster_step s c {0..<spc s} (\<lambda>k. fill_sector (take 512 (drop (512 * k) rem))) s'"
  shows "cluster_bytes s' c = take (512 * spc s) rem @ replicate (512 * spc s - length rem) 0"
proof -
  have "cluster_bytes s' c = concat (map (\<lambda>k. sector_bytes (fill_sector (take 512 (drop (512 * k) rem)))) [0..<spc s])"
    unfolding cluster_bytes_def using assms same_vol_simps[of s s'] by (auto simp: cluster_step_def intro!: arg_cong[of _ _ concat])
  then show ?thesis by (simp only: chunks_concat)
qed

section \<open>Building a chain\<close>

definition secs :: "fat \<Rightarrow> u32 set \<Rightarrow> u32 set" where "secs s C = {sec_of s c k | c k. c \<in> C \<and> k < spc s}"

lemma cluster_step_fat:
  assumes "geom s" "in_vol s c" "cluster_step s c {0..<spc s} f s'" "in_vol s x"
  shows "fat_get s' x = fat_get s x"
proof -
  have "fat_sec s x \<notin> (\<lambda>k. sec_of s c k) ` {0..<spc s}" using data_not_table[OF assms(1,2,4)]
    by (metis (no_types, lifting) atLeastLessThan_iff imageE)
  then have "blk s' (fat_sec s x) = blk s (fat_sec s x)" using assms(3) by (simp add: cluster_step_def)
  moreover have "same_vol s s'" using assms(3) by (simp add: cluster_step_def)
  ultimately show ?thesis by (simp add: fat_get_def read_abs_def same_vol_simps)
qed

lemma secs_disjoint:
  assumes "geom s" "in_vol s c" "\<forall>x \<in> C. in_vol s x" "c \<notin> C" "k < spc s"
  shows "sec_of s c k \<notin> secs s C"
proof
  assume "sec_of s c k \<in> secs s C"
  then obtain c' k' where c': "sec_of s c k = sec_of s c' k'" "c' \<in> C" "k' < spc s" unfolding secs_def by blast
  have "c = c'" using data_sec_inj[OF assms(1,2) _ assms(5) c'(3)] assms(3) c'(1,2) by blast
  then show False using assms(4) c'(2) by simp
qed

text \<open>The allocation of one cluster, its link from the previous one, and its contents.\<close>

definition grow :: "fat \<Rightarrow> u32 option \<Rightarrow> u32 \<Rightarrow> u8 list \<Rightarrow> fat \<Rightarrow> bool" where
  "grow s prev c rem s' \<longleftrightarrow> same_vol s s' \<and> free_cl s c \<and> fat_get s' c = 0x0FFFFFFF \<and>
     (\<forall>x. in_vol s x \<and> x \<noteq> c \<longrightarrow> fat_get s' x = (if prev = Some x then c else fat_get s x)) \<and>
     cluster_bytes s' c = take (512 * spc s) rem @ replicate (512 * spc s - length rem) 0 \<and>
     (\<forall>l. unat (data_start s) \<le> unat l \<and> l \<notin> secs s {c} \<longrightarrow> blk s' l = blk s l)"

lemma alloc_link:
  assumes "geom s" "\<And>p. prev = Some p \<Longrightarrow> in_vol s p \<and> fat_get s p \<noteq> 0" "fat_alloc_cluster s = (c, s1)" "c \<noteq> 0"
  shows "free_cl s c" "\<exists>s2. (case prev of None \<Rightarrow> (0, s1) | Some p \<Rightarrow> fat_set s1 p c) = (0, s2) \<and>
    table_step s s2 (\<lambda>x. if x = c then 0x0FFFFFFF else if prev = Some x then c else fat_get s x)"
proof -
  show a1: "free_cl s c" using fat_alloc_spec[OF assms(1,3)] assms(4) by auto
  have a: "table_step s s1 ((fat_get s)(c := 0x0FFFFFFF))" using fat_alloc_spec[OF assms(1,3)] assms(4) by auto
  have iv: "in_vol s c" using a1 by (simp add: free_cl_def)
  note sv1 = table_stepD(1)[OF a]
  have g1: "geom s1" "\<And>x. in_vol s1 x = in_vol s x" using assms(1) sv1 by (simp_all add: geom_same in_vol_same)
  have np: "prev \<noteq> Some c" using assms(2) a1 by (auto simp: free_cl_def)
  show "\<exists>s2. (case prev of None \<Rightarrow> (0, s1) | Some p \<Rightarrow> fat_set s1 p c) = (0, s2) \<and>
    table_step s s2 (\<lambda>x. if x = c then 0x0FFFFFFF else if prev = Some x then c else fat_get s x)"
  proof (cases prev)
    case None
    have "table_step s s1 (\<lambda>x. if x = c then 0x0FFFFFFF else if prev = Some x then c else fat_get s x)"
      using a None by (auto simp: table_step_def)
    then show ?thesis using None by simp
  next
    case (Some p)
    obtain s2 where f: "fat_set s1 p c = (0, s2)" "table_step s1 s2 ((fat_get s1)(p := c))"
      using fat_set_step[of s1 p c] g1 assms(2)[OF Some] in_vol_small[OF assms(1) iv] by auto
    have "table_step s s2 (\<lambda>x. if x = c then 0x0FFFFFFF else if prev = Some x then c else fat_get s x)"
      by (rule table_step_trans[OF a f(2)]) (use table_stepD(2)[OF a] np Some in auto)
    then show ?thesis using f(1) Some by simp
  qed
qed

lemma grow_intro:
  assumes "geom s" "free_cl s c" "table_step s s2 (\<lambda>x. if x = c then 0x0FFFFFFF else if prev = Some x then c else fat_get s x)"
    "cluster_step s2 c {0..<spc s2} (\<lambda>k. fill_sector (take 512 (drop (512 * k) rem))) s3"
  shows "grow s prev c rem s3"
proof -
  have iv: "in_vol s c" using assms(2) by (simp add: free_cl_def)
  note sv2 = table_stepD(1)[OF assms(3)]
  have g2: "geom s2" "\<And>x. in_vol s2 x = in_vol s x" "spc s2 = spc s" "cluster_to_lba s2 = cluster_to_lba s"
    using assms(1) sv2 by (simp_all add: geom_same in_vol_same same_vol_simps)
  have fat: "fat_get s3 x = (if x = c then 0x0FFFFFFF else if prev = Some x then c else fat_get s x)" if "in_vol s x" for x
    using cluster_step_fat[OF g2(1) _ assms(4)] g2(2) iv that table_stepD(2)[OF assms(3) that] by simp
  have "blk s3 l = blk s l" if "unat (data_start s) \<le> unat l" "l \<notin> secs s {c}" for l
  proof -
    have "l \<notin> (\<lambda>k. sec_of s2 c k) ` {0..<spc s2}" using that(2) g2(3,4) unfolding secs_def by auto
    then show ?thesis using assms(4) table_stepD(3)[OF assms(3) that(1)] by (simp add: cluster_step_def)
  qed
  moreover have "cluster_bytes s3 c = take (512 * spc s) rem @ replicate (512 * spc s - length rem) 0"
    using cluster_step_bytes[OF assms(4)] g2(3) by simp
  moreover have "same_vol s s3" using same_vol_trans[OF sv2] assms(4) by (simp add: cluster_step_def)
  ultimately show ?thesis using fat iv assms(2) by (simp add: grow_def)
qed

lemma write_round:
  assumes "geom s" "\<And>p. prev = Some p \<Longrightarrow> in_vol s p \<and> fat_get s p = 0x0FFFFFFF" "fat_alloc_cluster s = (c, s1)" "c \<noteq> 0"
  shows "\<exists>s2 s3. (case prev of None \<Rightarrow> (0, s1) | Some p \<Rightarrow> fat_set s1 p c) = (0, s2) \<and>
    write_cluster c (sectors s2) rem s2 = (Some (drop (512 * spc s) rem), s3) \<and> grow s prev c rem s3"
proof -
  have pv: "\<And>p. prev = Some p \<Longrightarrow> in_vol s p \<and> fat_get s p \<noteq> 0" using assms(2) by fastforce
  note al = alloc_link[OF assms(1) pv assms(3,4)]
  obtain s2 where s2: "(case prev of None \<Rightarrow> (0, s1) | Some p \<Rightarrow> fat_set s1 p c) = (0, s2)"
    "table_step s s2 (\<lambda>x. if x = c then 0x0FFFFFFF else if prev = Some x then c else fat_get s x)" using al(2) by blast
  have iv: "geom s2" "in_vol s2 c" "spc s2 = spc s"
    using assms(1) al(1) table_stepD(1)[OF s2(2)] by (simp_all add: geom_same in_vol_same same_vol_simps free_cl_def)
  obtain s3 where s3: "write_cluster c [0..<spc s2] rem s2 = (Some (drop (512 * spc s2) rem), s3)"
    "cluster_step s2 c {0..<spc s2} (\<lambda>k. fill_sector (take 512 (drop (512 * k) rem))) s3"
    using write_cluster_step[of s2 c 0 rem] iv by auto
  show ?thesis using s2(1) s3(1) iv(3) grow_intro[OF assms(1) al(1) s2(2) s3(2)] by auto
qed

text \<open>The chain that holds \<open>data\<close>, made of clusters that were free before.\<close>

definition stored :: "fat \<Rightarrow> u32 option \<Rightarrow> u32 list \<Rightarrow> u8 list \<Rightarrow> fat \<Rightarrow> bool" where
  "stored s prev cs data s' \<longleftrightarrow> same_vol s s' \<and> cs \<noteq> [] \<and> chain_of s' (hd cs) cs \<and> (\<forall>c \<in> set cs. free_cl s c) \<and>
     (\<forall>x. in_vol s x \<and> x \<notin> set cs \<longrightarrow> fat_get s' x = (if prev = Some x then hd cs else fat_get s x)) \<and>
     (\<forall>l. unat (data_start s) \<le> unat l \<and> l \<notin> secs s (set cs) \<longrightarrow> blk s' l = blk s l) \<and>
     take (length data) (concat (map (cluster_bytes s') cs)) = data"

lemma cluster_bytes_cong:
  assumes "same_vol s s'" "\<And>k. k < spc s \<Longrightarrow> blk s' (sec_of s c k) = blk s (sec_of s c k)"
  shows "cluster_bytes s' c = cluster_bytes s c"
  unfolding cluster_bytes_def using assms same_vol_simps[OF assms(1)] by (auto intro!: arg_cong[of _ _ concat])

lemma stored_single:
  assumes "geom s" "grow s prev c rem s'" "length rem \<le> 512 * spc s"
  shows "stored s prev [c] rem s'"
proof -
  have "in_vol s c" using assms(2) by (simp add: grow_def free_cl_def)
  then have "chain_of s' c [c]" using in_vol_chain[OF assms(1)] assms(2) by (simp add: grow_def)
  then show ?thesis using assms(2,3) by (auto simp: stored_def grow_def)
qed

lemma data_sec_high: "geom s \<Longrightarrow> in_vol s c \<Longrightarrow> k < spc s \<Longrightarrow> unat (data_start s) \<le> unat (sec_of s c k)"
  using data_sec[of s c k] by simp

lemma stored_more:
  assumes g: "geom s" and gr: "grow s prev c rem s1" and len: "512 * spc s \<le> length rem"
    and st: "stored s1 (Some c) cs (drop (512 * spc s) rem) s'" and prev: "\<And>p. prev = Some p \<Longrightarrow> in_vol s p \<and> fat_get s p \<noteq> 0"
  shows "stored s prev (c # cs) rem s'"
proof -
  have sv: "same_vol s s1" "same_vol s1 s'" and f: "free_cl s c" using gr st by (simp_all add: grow_def stored_def)
  have iv: "in_vol s c" using f by (simp add: free_cl_def)
  have eq: "\<And>x. in_vol s1 x = in_vol s x" "data_start s1 = data_start s" "secs s1 = secs s" "geom s1" "spc s1 = spc s"
    "cluster_to_lba s1 = cluster_to_lba s" using sv(1) g by (simp_all add: in_vol_same same_vol_simps secs_def[abs_def] geom_same)
  have fat1: "in_vol s x \<Longrightarrow> x \<noteq> c \<Longrightarrow> fat_get s1 x = (if prev = Some x then c else fat_get s x)" "fat_get s1 c = 0x0FFFFFFF" for x
    using gr by (simp_all add: grow_def)
  have c0: "c \<noteq> 0" using f by (auto simp: free_cl_def)
  have nin: "c \<notin> set cs" using st fat1(2) by (auto simp: stored_def free_cl_def)
  have free: "\<forall>x \<in> set cs. free_cl s x"
  proof
    fix x assume x: "x \<in> set cs"
    then have "free_cl s1 x" using st by (simp add: stored_def)
    then have "in_vol s x" "3 \<le> unat x" "fat_get s1 x = 0" by (simp_all add: free_cl_def eq)
    moreover have "x \<noteq> c" using x nin by blast
    ultimately show "free_cl s x" using fat1(1)[of x] c0 by (auto simp: free_cl_def split: if_splits)
  qed
  have cs: "cs \<noteq> []" "chain_of s' (hd cs) cs" "fat_get s' c = hd cs"
    using st nin eq(1) iv by (simp_all add: stored_def)
  have other: "fat_get s' x = (if prev = Some x then c else fat_get s x)" if "in_vol s x" "x \<notin> set (c # cs)" for x
    using st that eq(1) fat1(1)[of x] by (auto simp: stored_def)
  have "cluster_bytes s' c = cluster_bytes s1 c"
  proof (rule cluster_bytes_cong[OF sv(2)])
    fix k assume k: "k < spc s1"
    have "\<forall>x \<in> set cs. in_vol s x" using free by (simp add: free_cl_def)
    then have "sec_of s c k \<notin> secs s (set cs)" using secs_disjoint[OF g iv _ nin] k eq(5) by simp
    then show "blk s' (sec_of s1 c k) = blk s1 (sec_of s1 c k)"
      using st data_sec_high[OF g iv] k eq by (simp add: stored_def)
  qed
  then have "cluster_bytes s' c = take (512 * spc s) rem" using gr len by (simp add: grow_def)
  then have bytes: "take (length rem) (concat (map (cluster_bytes s') (c # cs))) = rem"
    using st len by (simp add: stored_def min_def)
  have "blk s' l = blk s l" if l: "unat (data_start s) \<le> unat l" "l \<notin> secs s (set (c # cs))" for l
  proof -
    have "l \<notin> secs s (set cs)" "l \<notin> secs s {c}" using l(2) by (auto simp: secs_def)
    then show ?thesis using st gr l(1) eq by (simp add: stored_def grow_def)
  qed
  moreover have "chain_of s' c (c # cs)" using cs in_vol_chain[OF g iv] by simp
  ultimately show ?thesis
    unfolding stored_def using same_vol_trans[OF sv] free f other bytes by auto
qed

section \<open>Enough space\<close>

definition nfree :: "fat \<Rightarrow> nat" where "nfree s = card {c. free_cl s c}"

definition need :: "fat \<Rightarrow> u8 list \<Rightarrow> nat" where "need s rem = (length rem + 512 * spc s - 1) div (512 * spc s)"

lemma need_pos:
  assumes "geom s" "rem \<noteq> []"
  shows "0 < need s rem"
proof -
  have "0 < length rem" "0 < 512 * spc s" using assms by (simp_all add: geom_def unat_gt_0)
  moreover from this have "512 * spc s \<le> length rem + 512 * spc s - 1" by linarith
  ultimately show ?thesis by (simp add: need_def div_greater_zero_iff)
qed

lemma need_drop:
  assumes "geom s" "512 * spc s < length rem"
  shows "need s rem = Suc (need s (drop (512 * spc s) rem))"
proof -
  have "0 < 512 * spc s" using assms(1) by (simp add: geom_def unat_gt_0)
  moreover have "length rem + 512 * spc s - 1 = (length rem - 1) + 512 * spc s" using assms(2) by simp
  moreover have "length (drop (512 * spc s) rem) + 512 * spc s - 1 = length rem - 1" using assms(2) by simp
  ultimately show ?thesis unfolding need_def by (simp only: div_add_self2)
qed

lemma nfree_grow:
  assumes "grow s prev c rem s'" "\<And>p. prev = Some p \<Longrightarrow> fat_get s p \<noteq> 0"
  shows "nfree s = Suc (nfree s')"
proof -
  have c: "free_cl s c" "same_vol s s'" using assms(1) by (simp_all add: grow_def)
  have "c \<noteq> 0" using c by (auto simp: free_cl_def)
  have "free_cl s' x \<longleftrightarrow> free_cl s x \<and> x \<noteq> c" for x
    using assms \<open>c \<noteq> 0\<close> in_vol_same[OF c(2)] by (cases "x = c") (auto simp: grow_def free_cl_def split: if_splits)
  then have "{x. free_cl s' x} = {x. free_cl s x} - {c}" by auto
  moreover have "finite {x. free_cl s x}" by simp
  ultimately show ?thesis using c(1) card_Suc_Diff1[of "{x. free_cl s x}" c] by (simp add: nfree_def)
qed

lemma write_chain_step:
  assumes "geom s" "rem \<noteq> []" "prev = None \<longleftrightarrow> first_cl = 0" "\<And>p. prev = Some p \<Longrightarrow> in_vol s p \<and> fat_get s p = 0x0FFFFFFF"
  shows "(\<exists>s'. write_chain s first_cl (case prev of None \<Rightarrow> 0 | Some p \<Rightarrow> p) rem = Some (None, s') \<and> nfree s < need s rem) \<or>
    (\<exists>cs s'. write_chain s first_cl (case prev of None \<Rightarrow> 0 | Some p \<Rightarrow> p) rem =
       Some (Some (if first_cl = 0 then hd cs else first_cl), s') \<and> stored s prev cs rem s')"
  using assms
proof (induction "length rem" arbitrary: s first_cl prev rem rule: less_induct)
  case less
  let ?p = "case prev of None \<Rightarrow> 0 | Some p \<Rightarrow> p"
  obtain c s1 where al: "fat_alloc_cluster s = (c, s1)" by fastforce
  show ?case
  proof (cases "c = 0")
    case True
    then have "{x. free_cl s x} = {}" using fat_alloc_spec[OF less.prems(1) al] by (auto simp: free_cl_def)
    then have "nfree s < need s rem" using need_pos[OF less.prems(1,2)] by (simp add: nfree_def)
    then show ?thesis using al True less.prems(2) by (simp add: write_chain.simps[of s])
  next
    case False
    obtain s2 s3 where r: "(case prev of None \<Rightarrow> (0, s1) | Some p \<Rightarrow> fat_set s1 p c) = (0, s2)"
      "write_cluster c (sectors s2) rem s2 = (Some (drop (512 * spc s) rem), s3)" "grow s prev c rem s3"
      using write_round[OF less.prems(1,4) al False] by blast
    have "(if first_cl = 0 then (0, s1) else fat_set s1 ?p c) = (0, s2)" using r(1) less.prems(3) by (cases prev) auto
    then have w: "write_chain s first_cl ?p rem =
        (if drop (512 * spc s) rem = [] then Some (Some (if first_cl = 0 then c else first_cl), s3)
         else write_chain s3 (if first_cl = 0 then c else first_cl) c (drop (512 * spc s) rem))"
      using al False less.prems(2) r(2) by (simp add: write_chain.simps[of s] Let_def)
    show ?thesis
    proof (cases "drop (512 * spc s) rem = []")
      case True
      then show ?thesis using w stored_single[OF less.prems(1) r(3)] by (intro disjI2 exI[of _ "[c]"]) auto
    next
      case more: False
      let ?rem = "drop (512 * spc s) rem" and ?first = "if first_cl = 0 then c else first_cl"
      have sv: "same_vol s s3" and f: "free_cl s c" using r(3) by (simp_all add: grow_def)
      have g3: "geom s3" "in_vol s3 c" "fat_get s3 c = 0x0FFFFFFF" "spc s3 = spc s"
        using sv less.prems(1) f r(3) by (simp_all add: geom_same in_vol_same free_cl_def grow_def same_vol_simps)
      have pos: "0 < spc s" using less.prems(1) by (simp add: geom_def unat_gt_0)
      then have "length ?rem < length rem" using more by simp
      from less.hyps[OF this g3(1) more, of "Some c" ?first] g3 False
      have ih: "(\<exists>s'. write_chain s3 ?first c ?rem = Some (None, s') \<and> nfree s3 < need s3 ?rem) \<or>
        (\<exists>cs s'. write_chain s3 ?first c ?rem = Some (Some ?first, s') \<and> stored s3 (Some c) cs ?rem s')" by (simp split: if_splits)
      have pv: "\<And>p. prev = Some p \<Longrightarrow> in_vol s p \<and> fat_get s p \<noteq> 0" using less.prems(4) by fastforce
      have "nfree s = Suc (nfree s3)" by (rule nfree_grow[OF r(3)]) (use pv in blast)
      moreover have "need s rem = Suc (need s3 ?rem)" using need_drop[OF less.prems(1), of rem] more g3(4) by (simp add: need_def)
      moreover have "stored s prev (c # cs) rem s'" if "stored s3 (Some c) cs ?rem s'" for cs s'
        by (rule stored_more[OF less.prems(1) r(3) _ that pv]) (use more in auto)
      ultimately show ?thesis using ih w more by fastforce
    qed
  qed
qed

section \<open>Reading a chain\<close>

lemma read_sectors_spec:
  assumes "\<forall>l. \<not> bad_read (disk_of s) l"
  shows "read_sectors s cl ks limit acc =
    Some (acc @ take (limit - length acc) (concat (map (\<lambda>k. sector_bytes (blk s (sec_of s cl k))) ks)))"
proof (induction ks arbitrary: acc)
  case (Cons k ks)
  have "map m [0..<min 512 n] = take n (sector_bytes m)" for m :: mem and n
    by (rule nth_equalityI) (auto simp: sector_bytes_def)
  then show ?case using Cons[of "acc @ take (limit - length acc) (sector_bytes (blk s (sec_of s cl k)))"] assms
    by (auto simp: read_abs_def min_def)
qed simp

lemma read_chain_spec:
  assumes "\<forall>l. \<not> bad_read (disk_of s) l" "chain_of s cl cs"
  shows "read_chain s cl limit acc = Some (Some (acc @ take (limit - length acc) (concat (map (cluster_bytes s) cs))))"
  using assms(2)
proof (induction cs arbitrary: cl acc)
  case Nil
  then show ?case by (subst read_chain.simps) auto
next
  case (Cons c cs)
  show ?case
  proof (cases "length acc < limit")
    case True
    have "read_sectors s c (sectors s) limit acc = Some (acc @ take (limit - length acc) (cluster_bytes s c))"
      using read_sectors_spec[OF assms(1), of c "sectors s" limit acc] by (simp add: cluster_bytes_def)
    then have "read_chain s cl limit acc = read_chain s (fat_get s c) limit (acc @ take (limit - length acc) (cluster_bytes s c))"
      using Cons.prems True by (subst read_chain.simps) simp
    then show ?thesis using Cons.IH[of "fat_get s c"] Cons.prems by (auto simp: min_def)
  qed (subst read_chain.simps, use Cons.prems in simp)
qed

end
