(* ===== verification/Fat_File.thy ===== *)
theory Fat_File
  imports Fat_Chain
begin

text \<open>
  Directories as lists of entry slots, what finding a name and allocating a slot do on them, and the round trip of
  \<open>fat_write_file\<close> and \<open>fat_read_file\<close>.
\<close>

section \<open>8.3 names\<close>

lemma length_to_83 [simp]: "length (to_83 a) = 11"
proof -
  have "length (takeWhile P (take n xs)) \<le> n" for P n and xs :: "u8 list"
    by (metis length_takeWhile_le length_take min.bounded_iff order_trans)
  from this[of "\<lambda>c. c \<noteq> 46 \<and> \<not> is_sep c" 8 a] this[of _ 3] show ?thesis by (simp add: to_83_def Let_def)
qed

lemma upper_cases: "upper c = c \<or> 65 \<le> unat (upper c) \<and> unat (upper c) \<le> 90"
proof (cases "97 \<le> c \<and> c \<le> 122")
  case True
  then have "97 \<le> unat c" "unat c \<le> 122" by (simp_all add: word_le_nat_alt)
  then show ?thesis using True by (simp add: upper_def unat_sub_if' word_le_nat_alt) linarith
qed (auto simp: upper_def)

lemma to_83_first:
  assumes "a \<noteq> []" "hd a \<noteq> 0" "hd a \<noteq> 0xE5"
  shows "to_83 a ! 0 \<noteq> 0" "to_83 a ! 0 \<noteq> 0xE5"
proof -
  have "to_83 a ! 0 = upper (hd a) \<or> to_83 a ! 0 = 32"
    using assms(1) by (cases a) (auto simp: to_83_def Let_def nth_append)
  moreover have "upper (hd a) \<noteq> 0" "upper (hd a) \<noteq> 0xE5" using upper_cases[of "hd a"] assms(2,3) by auto
  ultimately show "to_83 a ! 0 \<noteq> 0" "to_83 a ! 0 \<noteq> 0xE5" by auto
qed

section \<open>Slots\<close>

type_synonym slot_pos = "u32 \<times> nat"

definition cluster_slots :: "fat \<Rightarrow> u32 \<Rightarrow> nat list \<Rightarrow> slot_pos list" where
  "cluster_slots s c ks = concat (map (\<lambda>k. map (Pair (sec_of s c k)) ent_offsets) ks)"

definition slots :: "fat \<Rightarrow> u32 list \<Rightarrow> slot_pos list" where
  "slots s cs = concat (map (\<lambda>c. cluster_slots s c (sectors s)) cs)"

fun scan_slots :: "(u32 \<Rightarrow> mem) \<Rightarrow> u8 list \<Rightarrow> slot_pos list \<Rightarrow> scan" where
  "scan_slots b name [] = More"
| "scan_slots b name ((l, i) # xs) =
     (if b l i = 0 then Stop
      else if ent_skip (b l) i \<or> \<not> eq83 name (ent_name (b l) i) then scan_slots b name xs
      else Hit \<lparr>d_cl = ent_cl (b l) i, d_sz = rd32 (b l) (i + 28), d_dir = ent_dir (b l) i, d_lba = l, d_off = i\<rparr>)"

lemma scan_append: "scan_slots b name (xs @ ys) = (case scan_slots b name xs of More \<Rightarrow> scan_slots b name ys | r \<Rightarrow> r)"
  by (induction xs rule: scan_slots.induct[of _ b name]) auto

lemma scan_sector_slots: "scan_sector name l m is = scan_slots b name (map (Pair l) is)" if "b l = m"
  using that by (induction "is") auto

lemma scan_cluster_slots:
  assumes "\<forall>l. \<not> bad_read (disk_of s) l"
  shows "scan_cluster s name c ks = scan_slots (blk s) name (cluster_slots s c ks)"
  using assms
  by (induction ks) (auto simp: cluster_slots_def read_abs_def scan_append scan_sector_slots[of "blk s"] Let_def split: scan.split)

definition found :: "scan \<Rightarrow> dirent option" where "found r = (case r of Hit e \<Rightarrow> Some e | _ \<Rightarrow> None)"

lemma dir_find_slots:
  assumes "\<forall>l. \<not> bad_read (disk_of s) l" "chain_of s cl cs"
  shows "dir_find s cl name = Some (found (scan_slots (blk s) name (slots s cs)))"
  using assms(2)
proof (induction cs arbitrary: cl)
  case Nil
  then show ?case by (subst dir_find.simps) (auto simp: slots_def found_def)
next
  case (Cons c cs)
  have "dir_find s cl name = (case scan_slots (blk s) name (cluster_slots s c (sectors s)) of Stop \<Rightarrow> Some None | Hit e \<Rightarrow> Some (Some e)
      | More \<Rightarrow> dir_find s (fat_get s c) name)"
    using Cons.prems by (subst dir_find.simps) (auto simp: scan_cluster_slots[OF assms(1)] split: scan.split)
  then show ?case using Cons by (auto simp: slots_def scan_append found_def split: scan.splits)
qed

definition free_slot :: "(u32 \<Rightarrow> mem) \<Rightarrow> slot_pos \<Rightarrow> bool" where "free_slot b p = free_ent (b (fst p)) (snd p)"

definition first_free :: "(u32 \<Rightarrow> mem) \<Rightarrow> slot_pos list \<Rightarrow> slot" where
  "first_free b xs = (case filter (free_slot b) xs of p # _ \<Rightarrow> Slot_at (fst p) (snd p) | [] \<Rightarrow> Slot_none)"

lemma slot_cluster_slots:
  assumes "\<forall>l. \<not> bad_read (disk_of s) l"
  shows "slot_cluster s c ks = first_free (blk s) (cluster_slots s c ks)"
proof (induction ks)
  case (Cons k ks)
  let ?l = "sec_of s c k"
  have "filter (free_slot (blk s)) (map (Pair ?l) ent_offsets) = map (Pair ?l) (filter (free_ent (blk s ?l)) ent_offsets)"
    by (simp add: filter_map o_def free_slot_def)
  then show ?case using Cons assms
    by (auto simp: cluster_slots_def first_free_def read_abs_def Let_def split: list.splits)
qed (simp add: cluster_slots_def first_free_def)

text \<open>Where the slots of a directory lie.\<close>

lemma slots_in:
  assumes "(l, i) \<in> set (slots s cs)"
  shows "\<exists>c \<in> set cs. \<exists>k < spc s. l = sec_of s c k" "\<exists>n < 16. i = 32 * n"
  using assms by (fastforce simp: slots_def cluster_slots_def ent_offsets_def)+

lemma slots_distinct:
  assumes "geom s" "\<forall>c \<in> set cs. in_vol s c" "distinct cs"
  shows "distinct (slots s cs)"
proof -
  have off: "distinct ent_offsets" by (simp add: ent_offsets_def distinct_map inj_on_def)
  have one: "distinct (cluster_slots s c ks)" if "in_vol s c" "distinct ks" "set ks \<subseteq> {..<spc s}" for c ks
    using that(2,3)
  proof (induction ks)
    case (Cons k ks)
    have "sec_of s c k \<noteq> sec_of s c k'" if "k' \<in> set ks" for k'
      using data_sec_inj[OF assms(1) \<open>in_vol s c\<close> \<open>in_vol s c\<close>, of k k'] Cons.prems that by auto
    then show ?case using Cons off by (auto simp: cluster_slots_def distinct_map inj_on_def)
  qed (simp add: cluster_slots_def)
  show ?thesis using assms(2,3)
  proof (induction cs)
    case (Cons c cs)
    have "set (cluster_slots s c (sectors s)) \<inter> set (slots s cs) = {}"
    proof (rule ccontr)
      assume "\<not> ?thesis"
      then obtain l i where li: "(l, i) \<in> set (cluster_slots s c (sectors s))" "(l, i) \<in> set (slots s cs)" by auto
      obtain k where k: "k < spc s" "l = sec_of s c k" using li(1) by (auto simp: cluster_slots_def)
      obtain c' k' where c': "c' \<in> set cs" "k' < spc s" "l = sec_of s c' k'" using slots_in(1)[OF li(2)] by blast
      have "c = c'" using data_sec_inj[OF assms(1), of c c' k k'] Cons.prems(1) c' k by auto
      then show False using c'(1) Cons.prems(2) by simp
    qed
    moreover have "distinct (cluster_slots s c (sectors s))" by (rule one) (use Cons.prems in auto)
    ultimately show ?case using Cons by (auto simp: slots_def)
  qed (simp add: slots_def)
qed

lemma scan_cong:
  assumes "\<And>l i j. (l, i) \<in> set xs \<Longrightarrow> j < 32 \<Longrightarrow> b' l (i + j) = b l (i + j)"
  shows "scan_slots b' name xs = scan_slots b name xs"
  using assms
proof (induction xs)
  case (Cons p xs)
  obtain l i where p: "p = (l, i)" by fastforce
  have e: "b' l (i + j) = b l (i + j)" if "j < 32" for j using Cons.prems[of l i j] that p by simp
  have "ent_name (b' l) i = ent_name (b l) i" "ent_cl (b' l) i = ent_cl (b l) i" "ent_dir (b' l) i = ent_dir (b l) i"
    "ent_skip (b' l) i = ent_skip (b l) i" "b' l i = b l i"
    using e[of 0] e by (auto simp: ent_name_def ent_cl_def ent_dir_def ent_skip_def)
  moreover have "rd32 (b' l) (i + 28) = rd32 (b l) (i + 28)"
    using e[of 28] e[of 29] e[of 30] e[of 31] by (simp add: rd32_def add.commute)
  moreover have "scan_slots b' name xs = scan_slots b name xs" by (rule Cons.IH) (use Cons.prems in auto)
  ultimately show ?case by (simp add: p)
qed simp

section \<open>Directory entries\<close>

lemma make_entry_other: "j < off \<or> off + 32 \<le> j \<Longrightarrow> make_entry name attr cl sz off m j = m j"
  by (auto simp: make_entry_def wr32_def mem_store_other mem_set_other)

lemma ent_cl_bytes: "ucast (ucast w :: u8) OR push_bit 8 (ucast (ucast (drop_bit 8 w) :: u8)) OR
    push_bit 16 (ucast (ucast (drop_bit 16 w) :: u8)) OR push_bit 24 (ucast (ucast (drop_bit 24 w) :: u8)) = (w :: u32)"
proof (rule bit_word_eqI)
  fix n assume "n < LENGTH(32)"
  then consider "n < 8" | "8 \<le> n" "n < 16" | "16 \<le> n" "n < 24" | "24 \<le> n" "n < 32" by fastforce
  then show "bit (ucast (ucast w :: u8) OR push_bit 8 (ucast (ucast (drop_bit 8 w) :: u8)) OR
    push_bit 16 (ucast (ucast (drop_bit 16 w) :: u8)) OR push_bit 24 (ucast (ucast (drop_bit 24 w) :: u8)) :: u32) n \<longleftrightarrow> bit w n"
    by cases (auto simp: bit_simps)
qed

lemma make_entry_fields:
  fixes m :: mem and name :: "u8 list" and attr :: u8 and cl sz :: u32 and off :: nat
  defines "e \<equiv> make_entry name attr cl sz off m"
  shows "ent_name e off = to_83 name" "e (off + 11) = attr" "ent_cl e off = cl" "rd32 e (off + 28) = sz" "e off = to_83 name ! 0"
proof -
  have low: "e (off + j) = to_83 name ! j" if "j < 11" for j
    using that by (simp add: e_def make_entry_def wr32_def mem_store_def)
  then show "ent_name e off = to_83 name" by (intro nth_equalityI) (simp_all add: ent_name_def)
  show "e off = to_83 name ! 0" using low[of 0] by simp
  show "e (off + 11) = attr" by (simp add: e_def make_entry_def wr32_def)
  show "ent_cl e off = cl" by (simp add: ent_cl_def e_def make_entry_def wr32_def ent_cl_bytes)
  show "rd32 e (off + 28) = sz" by (simp add: e_def make_entry_def)
qed

text \<open>After the entry has been written into the slot behind \<open>pre\<close>, the search finds it.\<close>

lemma scan_new_entry:
  assumes "distinct (pre @ (l, i) # post)" "\<And>l' i'. (l', i') \<in> set (pre @ (l, i) # post) \<Longrightarrow> \<exists>n. i' = 32 * n"
    "scan_slots b name pre = More" "name \<noteq> []" "hd name \<noteq> 0" "hd name \<noteq> 0xE5"
  shows "scan_slots (b(l := make_entry name 0x20 cl sz i (b l))) name (pre @ (l, i) # post) =
    Hit \<lparr>d_cl = cl, d_sz = sz, d_dir = False, d_lba = l, d_off = i\<rparr>"
proof -
  let ?b = "b(l := make_entry name 0x20 cl sz i (b l))"
  have "scan_slots ?b name pre = scan_slots b name pre"
  proof (rule scan_cong)
    fix l' i' j assume x: "(l', i') \<in> set pre" "j < (32 :: nat)"
    show "?b l' (i' + j) = b l' (i' + j)"
    proof (cases "l' = l")
      case True
      then have "i' \<noteq> i" using x(1) assms(1) by auto
      moreover obtain n n' where "i = 32 * n" "i' = 32 * n'" using assms(2)[of l i] assms(2)[of l' i'] x(1) by auto
      ultimately have "i' + j < i \<or> i + 32 \<le> i' + j" using x(2) by auto
      then show ?thesis using True make_entry_other by simp
    qed simp
  qed
  moreover have "\<not> ent_skip (?b l) i" "\<not> ent_dir (?b l) i" "?b l i \<noteq> 0" "eq83 name (ent_name (?b l) i)"
    using make_entry_fields[of name "0x20" cl sz i "b l"] to_83_first[OF assms(4-6)]
    by (simp_all add: ent_skip_def ent_dir_def eq83_def)
  ultimately show ?thesis using assms(3) make_entry_fields[of name "0x20" cl sz i "b l"] by (simp add: scan_append)
qed

section \<open>Allocating a slot\<close>

definition dir_chain :: "fat \<Rightarrow> u32 \<Rightarrow> u32 list \<Rightarrow> bool" where
  "dir_chain s d cs \<longleftrightarrow> chain_of s d cs \<and> cs \<noteq> [] \<and> (\<forall>c \<in> set cs. in_vol s c) \<and> 0x0FFFFFF8 \<le> fat_get s (last cs)"

lemma dir_chain_nonzero: "dir_chain s d cs \<Longrightarrow> c \<in> set cs \<Longrightarrow> fat_get s c \<noteq> 0"
proof -
  have "chain_of s d cs \<Longrightarrow> cs \<noteq> [] \<Longrightarrow> 0x0FFFFFF8 \<le> fat_get s (last cs) \<Longrightarrow> c \<in> set cs \<Longrightarrow> fat_get s c \<noteq> 0"
  proof (induction cs arbitrary: d)
    case (Cons a cs)
    show ?case
    proof (cases "cs = []")
      case False
      then have "chain_cl (fat_get s a)" using Cons.prems(1) by (cases cs) auto
      then show ?thesis using Cons False by (auto split: if_splits)
    qed (use Cons.prems in auto)
  qed simp
  then show "dir_chain s d cs \<Longrightarrow> c \<in> set cs \<Longrightarrow> fat_get s c \<noteq> 0" by (simp add: dir_chain_def)
qed

lemma write_all_zero:
  assumes "geom s" "in_vol s c" "set ks \<subseteq> {..<spc s}" "distinct ks"
  shows "\<exists>s'. write_all (map (\<lambda>k. (sec_of s c k, zero_sector)) ks) s = (0, s') \<and> cluster_step s c (set ks) (\<lambda>_. zero_sector) s'"
  using assms
proof (induction ks arbitrary: s)
  case (Cons k ks)
  obtain s1 where s1: "write_abs s (sec_of s c k) zero_sector = (0, s1)" "same_vol s s1" "blk s1 = (blk s)(sec_of s c k := zero_sector)"
    using write_abs_ok[of s "sec_of s c k" zero_sector] Cons.prems(1) by (auto simp: geom_def)
  have "cluster_to_lba s1 = cluster_to_lba s" using s1(2) by (simp add: same_vol_simps)
  then obtain s' where s': "write_all (map (\<lambda>k. (sec_of s c k, zero_sector)) ks) s1 = (0, s')" "cluster_step s1 c (set ks) (\<lambda>_. zero_sector) s'"
    using Cons.IH[of s1] Cons.prems s1(2) by (auto simp: geom_same in_vol_same same_vol_simps)
  moreover have "sec_of s c k \<notin> (\<lambda>k. sec_of s c k) ` set ks"
    using data_sec_inj[OF Cons.prems(1,2,2), of k] Cons.prems(3,4) by (auto simp del: add_left_cancel)
  ultimately show ?case using s1 cluster_step_insert[OF s1(2,3)] by simp
qed (auto simp: cluster_step_def)

lemma chain_extend:
  assumes "chain_of s d cs" "cs \<noteq> []" "\<And>c. c \<in> set cs \<Longrightarrow> c \<noteq> last cs \<Longrightarrow> fat_get s' c = fat_get s c"
    "chain_of s' (fat_get s' (last cs)) ys"
  shows "chain_of s' d (cs @ ys)"
proof -
  have "chain_of s d cs \<Longrightarrow> cs \<noteq> [] \<Longrightarrow> distinct cs \<Longrightarrow> (\<And>c. c \<in> set cs \<Longrightarrow> c \<noteq> last cs \<Longrightarrow> fat_get s' c = fat_get s c) \<Longrightarrow>
      chain_of s' (fat_get s' (last cs)) ys \<Longrightarrow> chain_of s' d (cs @ ys)" for cs d
  proof (induction cs arbitrary: d)
    case (Cons c cs)
    show ?case
    proof (cases "cs = []")
      case False
      then have "last (c # cs) \<noteq> c" using Cons.prems(3) last_in_set[of cs] by auto
      then have "fat_get s' c = fat_get s c" using Cons.prems(4)[of c] by simp
      then show ?thesis using Cons False by simp
    qed (use Cons.prems in simp)
  qed simp
  then show ?thesis using assms chain_distinct[OF assms(1)] by blast
qed

lemma slots_Cons: "slots s (c # cs) = cluster_slots s c (sectors s) @ slots s cs"
  by (simp add: slots_def)

lemma alloc_slot_found:
  assumes h: "\<forall>l. \<not> bad_read (disk_of s) l"
  shows "chain_of s d cs \<Longrightarrow> filter (free_slot (blk s)) (slots s cs) = (l, i) # xs \<Longrightarrow> dir_alloc_slot s d = Some (Some (l, i), s)"
proof (induction cs arbitrary: d)
  case (Cons c cs)
  note sc = slot_cluster_slots[OF h, of c "sectors s"]
  show ?case
  proof (cases "filter (free_slot (blk s)) (cluster_slots s c (sectors s))")
    case Nil
    then have rest: "filter (free_slot (blk s)) (slots s cs) = (l, i) # xs" using Cons.prems(2) by (simp add: slots_Cons)
    then have "cs \<noteq> []" by (auto simp: slots_def)
    then have "\<not> 0x0FFFFFF8 \<le> fat_get s c" using Cons.prems(1) by (cases cs) auto
    then have "dir_alloc_slot s d = dir_alloc_slot s (fat_get s c)"
      using Cons.prems(1) sc Nil by (subst dir_alloc_slot.simps) (simp add: first_free_def)
    then show ?thesis using Cons rest by simp
  next
    case (Cons p ps)
    then have "p = (l, i)" using Cons.prems(2) by (simp add: slots_Cons)
    then show ?thesis using Cons Cons.prems(1) sc by (subst dir_alloc_slot.simps) (simp add: first_free_def)
  qed
qed (simp add: slots_def)

lemma alloc_slot_end:
  assumes h: "\<forall>l. \<not> bad_read (disk_of s) l"
  shows "chain_of s d cs \<Longrightarrow> cs \<noteq> [] \<Longrightarrow> filter (free_slot (blk s)) (slots s cs) = [] \<Longrightarrow>
    dir_alloc_slot s d = dir_alloc_slot s (last cs) \<and> slot_cluster s (last cs) (sectors s) = Slot_none"
proof (induction cs arbitrary: d)
  case (Cons c cs)
  have none: "slot_cluster s c (sectors s) = Slot_none"
    using slot_cluster_slots[OF h, of c "sectors s"] Cons.prems(3) by (simp add: first_free_def slots_Cons)
  show ?case
  proof (cases "cs = []")
    case False
    then have "\<not> 0x0FFFFFF8 \<le> fat_get s c" using Cons.prems(1) by (cases cs) auto
    then have "dir_alloc_slot s d = dir_alloc_slot s (fat_get s c)"
      using Cons.prems(1) none by (subst dir_alloc_slot.simps) simp
    then show ?thesis using Cons.IH[of "fat_get s c"] Cons.prems False by (simp add: slots_Cons)
  qed (use Cons.prems none in simp)
qed simp

text \<open>The state in which the entry can be written into slot \<open>(l, i)\<close>: no entry before it has the name.\<close>

definition ready :: "fat \<Rightarrow> u32 \<Rightarrow> u8 list \<Rightarrow> slot_pos \<Rightarrow> fat \<Rightarrow> bool" where
  "ready s d name p s1 \<longleftrightarrow> same_vol s s1 \<and>
     (\<exists>cs pre post. dir_chain s1 d cs \<and> slots s1 cs = pre @ p # post \<and> scan_slots (blk s1) name pre = More)"

lemma scan_no_free: "\<forall>p \<in> set xs. \<not> free_slot b p \<Longrightarrow> scan_slots b name xs \<noteq> Stop"
  by (induction xs rule: scan_slots.induct[of _ b name]) (auto simp: free_slot_def free_ent_def)

lemma slot_sector:
  assumes "geom s" "\<forall>c \<in> set cs. in_vol s c" "(l, i) \<in> set (slots s cs)"
  shows "unat (data_start s) \<le> unat l" "\<forall>c \<in> C. in_vol s c \<Longrightarrow> C \<inter> set cs = {} \<Longrightarrow> l \<notin> secs s C"
proof -
  obtain c k where c: "c \<in> set cs" "k < spc s" "l = sec_of s c k" using slots_in(1)[OF assms(3)] by blast
  show "unat (data_start s) \<le> unat l" using data_sec_high[OF assms(1)] assms(2) c by simp
  show "l \<notin> secs s C" if "\<forall>c \<in> C. in_vol s c" "C \<inter> set cs = {}"
    using secs_disjoint[OF assms(1) _ that(1)] assms(2) that(2) c by blast
qed

lemma slots_same: "same_vol s s' \<Longrightarrow> slots s' = slots s"
  by (simp add: fun_eq_iff slots_def cluster_slots_def same_vol_simps)

lemma scan_same:
  assumes "\<And>l i. (l, i) \<in> set xs \<Longrightarrow> b' l = b l"
  shows "scan_slots b' name xs = scan_slots b name xs"
  by (rule scan_cong) (use assms in auto)

lemma extend_ready:
  assumes g: "geom s" and dc: "dir_chain s d cs" and full: "filter (free_slot (blk s)) (slots s cs) = []"
    and nf: "found (scan_slots (blk s) name (slots s cs)) = None"
  shows "(dir_alloc_slot s d = Some (None, s) \<and> nfree s = 0) \<or>
    (\<exists>s1 p. dir_alloc_slot s d = Some (Some p, s1) \<and> ready s d name p s1 \<and> nfree s \<le> Suc (nfree s1))"
proof -
  have h: "\<forall>l. \<not> bad_read (disk_of s) l" using g by (simp add: geom_def)
  have ch: "chain_of s d cs" "cs \<noteq> []" "\<forall>c \<in> set cs. in_vol s c" "0x0FFFFFF8 \<le> fat_get s (last cs)" using dc by (simp_all add: dir_chain_def)
  note e = alloc_slot_end[OF h ch(1,2) full]
  obtain nc s1 where al: "fat_alloc_cluster s = (nc, s1)" by fastforce
  show ?thesis
  proof (cases "nc = 0")
    case True
    then have z: "s1 = s" "{x. free_cl s x} = {}" using fat_alloc_spec[OF g al] by (auto simp: free_cl_def)
    then have "dir_alloc_slot s (last cs) = Some (None, s)" using True e ch(4) al by (subst dir_alloc_slot.simps) simp
    then show ?thesis using e z by (simp add: nfree_def)
  next
    case False
    have pv: "\<And>p. Some (last cs) = Some p \<Longrightarrow> in_vol s p \<and> fat_get s p \<noteq> 0" using ch(2,3) dir_chain_nonzero[OF dc] by simp
    have lk: "free_cl s nc" "\<exists>s2. (case Some (last cs) of None \<Rightarrow> (0, s1) | Some p \<Rightarrow> fat_set s1 p nc) = (0, s2) \<and>
        table_step s s2 (\<lambda>x. if x = nc then 0x0FFFFFFF else if Some (last cs) = Some x then nc else fat_get s x)"
      using alloc_link[OF g _ al False, of "Some (last cs)"] pv by blast+
    obtain s2 where s2: "fat_set s1 (last cs) nc = (0, s2)"
      "table_step s s2 (\<lambda>x. if x = nc then 0x0FFFFFFF else if Some (last cs) = Some x then nc else fat_get s x)" using lk(2) by auto
    note sv2 = table_stepD(1)[OF s2(2)]
    have g2: "geom s2" "in_vol s2 nc" "spc s2 = spc s" using g lk(1) sv2 by (simp_all add: geom_same in_vol_same same_vol_simps free_cl_def)
    obtain s3 where s3: "write_all (map (\<lambda>k. (sec_of s2 nc k, zero_sector)) (sectors s2)) s2 = (0, s3)"
      "cluster_step s2 nc {0..<spc s2} (\<lambda>_. zero_sector) s3"
      using write_all_zero[OF g2(1,2), of "sectors s2"] by (auto simp: subset_iff)
    have z: "fill_sector [] = zero_sector" by (simp add: fill_sector_def)
    have gr: "grow s (Some (last cs)) nc [] s3" by (rule grow_intro[OF g lk(1) s2(2)]) (unfold take_Nil drop_Nil z, rule s3(2))
    have step: "dir_alloc_slot s d = dir_alloc_slot s3 nc"
      using e ch(4) al False s2(1) s3(1) by (simp add: dir_alloc_slot.simps[of s "last cs"])
    have sv: "same_vol s s3" using gr by (simp add: grow_def)
    have g3: "geom s3" "in_vol s3 nc" "spc s3 = spc s" "cluster_to_lba s3 = cluster_to_lba s"
      using g lk(1) sv by (simp_all add: geom_same in_vol_same same_vol_simps free_cl_def)
    have pos: "0 < spc s" using g by (simp add: geom_def unat_gt_0)
    let ?p = "(sec_of s3 nc 0, 0 :: nat)"
    obtain rest where first: "cluster_slots s3 nc (sectors s3) = ?p # rest"
      using pos g3(3) by (simp add: cluster_slots_def ent_offsets_def upt_conv_Cons)
    have "\<forall>k \<in> {0..<spc s2}. blk s3 (sec_of s2 nc k) = zero_sector" using s3(2) by (simp add: cluster_step_def)
    then have "blk s3 (sec_of s2 nc 0) = zero_sector" using pos g2(3) by (metis atLeastLessThan_iff le0)
    then have "blk s3 (sec_of s3 nc 0) = zero_sector" using same_vol_simps(1)[OF sv] same_vol_simps(1)[OF sv2] by simp
    then have "free_slot (blk s3) ?p" by (simp add: free_slot_def free_ent_def)
    moreover have "\<forall>l. \<not> bad_read (disk_of s3) l" using g3(1) by (simp add: geom_def)
    ultimately have "dir_alloc_slot s3 nc = Some (Some ?p, s3)"
      using slot_cluster_slots[of s3 nc "sectors s3"] first by (subst dir_alloc_slot.simps) (simp add: first_free_def)
    moreover have "ready s d name ?p s3"
    proof -
      have nin: "{nc} \<inter> set cs = {}" using lk(1) dir_chain_nonzero[OF dc] by (auto simp: free_cl_def)
      have iv: "\<forall>c \<in> {nc}. in_vol s c" using lk(1) by (simp add: free_cl_def)
      have fat: "fat_get s3 c = (if c = last cs then nc else fat_get s c)" if "c \<in> set cs" for c
        using gr that nin ch(3) by (auto simp: grow_def)
      have "chain_of s3 (fat_get s3 (last cs)) [nc]"
        using fat[of "last cs"] ch(2) in_vol_chain[OF g3(1,2)] gr by (simp add: grow_def)
      then have "chain_of s3 d (cs @ [nc])" by (rule chain_extend[OF ch(1,2), rotated]) (use fat in simp)
      moreover have "\<forall>c \<in> set (cs @ [nc]). in_vol s3 c" "0x0FFFFFF8 \<le> fat_get s3 (last (cs @ [nc]))"
        using ch(3) g3(2) in_vol_same[OF sv] gr by (simp_all add: grow_def)
      ultimately have "dir_chain s3 d (cs @ [nc])" by (simp add: dir_chain_def)
      moreover have "slots s3 (cs @ [nc]) = slots s3 cs @ cluster_slots s3 nc (sectors s3)" by (simp add: slots_def)
      then have "slots s3 (cs @ [nc]) = slots s cs @ ?p # rest" unfolding first slots_same[OF sv] .
      moreover have "scan_slots (blk s3) name (slots s cs) = More"
      proof -
        have "blk s3 l = blk s l" if "(l, i) \<in> set (slots s cs)" for l i
          using slot_sector[OF g ch(3) that] iv nin gr by (simp add: grow_def)
        then have "scan_slots (blk s3) name (slots s cs) = scan_slots (blk s) name (slots s cs)" by (rule scan_same)
        moreover have "\<forall>p \<in> set (slots s cs). \<not> free_slot (blk s) p" using full by (simp add: filter_empty_conv)
        ultimately show ?thesis using nf scan_no_free by (cases "scan_slots (blk s) name (slots s cs)") (auto simp: found_def)
      qed
      ultimately show ?thesis using sv unfolding ready_def by blast
    qed
    moreover have "nfree s = Suc (nfree s3)" by (rule nfree_grow[OF gr]) (use pv in auto)
    ultimately show ?thesis using step by auto
  qed
qed

lemma filter_split: "filter P xs = y # ys \<Longrightarrow> \<exists>pre post. xs = pre @ y # post \<and> (\<forall>x \<in> set pre. \<not> P x)"
  by (auto simp: filter_eq_Cons_iff)

lemma alloc_ready:
  assumes g: "geom s" and dc: "dir_chain s d cs" and nf: "found (scan_slots (blk s) name (slots s cs)) = None"
  shows "(dir_alloc_slot s d = Some (None, s) \<and> nfree s = 0) \<or>
    (\<exists>s1 p. dir_alloc_slot s d = Some (Some p, s1) \<and> ready s d name p s1 \<and> nfree s \<le> Suc (nfree s1))"
proof (cases "filter (free_slot (blk s)) (slots s cs)")
  case Nil
  then show ?thesis by (rule extend_ready[OF g dc _ nf])
next
  case (Cons p ps)
  obtain l i where p: "p = (l, i)" by fastforce
  obtain pre post where sp: "slots s cs = pre @ p # post" "\<forall>q \<in> set pre. \<not> free_slot (blk s) q" using filter_split[OF Cons] by blast
  have "dir_alloc_slot s d = Some (Some p, s)"
    using alloc_slot_found[of s d cs l i ps] g dc Cons p by (simp add: geom_def dir_chain_def)
  moreover have "scan_slots (blk s) name pre = More"
    using nf sp scan_no_free[OF sp(2)] by (cases "scan_slots (blk s) name pre") (auto simp: scan_append found_def)
  ultimately show ?thesis using dc sp(1) unfolding ready_def by auto
qed

lemma hit_split: "scan_slots b name xs = Hit e \<Longrightarrow> \<exists>pre post. xs = pre @ (d_lba e, d_off e) # post \<and> scan_slots b name pre = More"
proof (induction xs)
  case (Cons p xs)
  obtain l i where p: "p = (l, i)" by fastforce
  show ?case
  proof (cases "ent_skip (b l) i \<or> \<not> eq83 name (ent_name (b l) i)")
    case True
    then have "scan_slots b name xs = Hit e" "b l i \<noteq> 0" using Cons.prems p by (auto split: if_splits)
    then obtain pre post where "xs = pre @ (d_lba e, d_off e) # post" "scan_slots b name pre = More" using Cons.IH by blast
    then show ?thesis using True \<open>b l i \<noteq> 0\<close> p by (intro exI[of _ "p # pre"] exI[of _ post]) auto
  next
    case False
    then have "(l, i) = (d_lba e, d_off e)" using Cons.prems p by (auto split: if_splits)
    then show ?thesis using p by (intro exI[of _ "[]"] exI[of _ xs]) auto
  qed
qed simp

lemma reuse_ready:
  assumes g: "geom s" and dc: "dir_chain s d cs" and hit: "scan_slots (blk s) name (slots s cs) = Hit e"
    and fs: "chain_of s (d_cl e) fs" "\<forall>c \<in> set fs. in_vol s c" "set fs \<inter> set cs = {}"
  shows "\<exists>s1. fat_free_chain s (d_cl e) = Some (0, s1) \<and> ready s d name (d_lba e, d_off e) s1 \<and> nfree s \<le> nfree s1"
proof -
  obtain s1 where s1: "fat_free_chain s (d_cl e) = Some (0, s1)" "table_step s s1 (\<lambda>c. if c \<in> set fs then 0 else fat_get s c)"
    using fat_free_chain_step[OF g fs(1,2)] by blast
  note sv = table_stepD(1)[OF s1(2)]
  have ch: "chain_of s d cs" "cs \<noteq> []" "\<forall>c \<in> set cs. in_vol s c" "0x0FFFFFF8 \<le> fat_get s (last cs)" using dc by (simp_all add: dir_chain_def)
  obtain pre post where sp: "slots s cs = pre @ (d_lba e, d_off e) # post" "scan_slots (blk s) name pre = More" using hit_split[OF hit] by blast
  have fat: "fat_get s1 c = fat_get s c" if "c \<in> set cs" for c using table_stepD(2)[OF s1(2)] ch(3) fs(3) that by auto
  have "dir_chain s1 d cs"
    unfolding dir_chain_def using cluster_chain_cong[OF ch(1), of s1] fat ch in_vol_same[OF sv] by simp
  moreover have "blk s1 l = blk s l" if "(l, i) \<in> set pre" for l i
    using slot_sector(1)[OF g ch(3), of l i] sp(1) that table_stepD(3)[OF s1(2)] by simp
  then have "scan_slots (blk s1) name pre = More" using scan_same[of pre "blk s1" "blk s"] sp(2) by simp
  moreover have "slots s1 cs = pre @ (d_lba e, d_off e) # post" using sp(1) slots_same[OF sv] by simp
  ultimately have "ready s d name (d_lba e, d_off e) s1" using sv unfolding ready_def by blast
  moreover have "{c. free_cl s c} \<subseteq> {c. free_cl s1 c}"
    using table_stepD(2)[OF s1(2)] in_vol_same[OF sv] by (auto simp: free_cl_def)
  then have "nfree s \<le> nfree s1" unfolding nfree_def by (intro card_mono) simp_all
  ultimately show ?thesis using s1(1) by blast
qed

section \<open>Writing the entry\<close>

lemma write_entry_visible:
  assumes g: "geom s1" and rd: "ready s d name (l, i) s1" and nm: "name \<noteq> []" "hd name \<noteq> 0" "hd name \<noteq> 0xE5"
    and sv2: "same_vol s1 s2" and fs: "chain_of s2 first_cl fs" "\<forall>c \<in> set fs. free_cl s1 c"
    and fat: "\<And>x. in_vol s1 x \<Longrightarrow> x \<notin> set fs \<Longrightarrow> fat_get s2 x = fat_get s1 x"
    and blk: "\<And>m. unat (data_start s1) \<le> unat m \<Longrightarrow> m \<notin> secs s1 (set fs) \<Longrightarrow> blk s2 m = blk s1 m"
  shows "\<exists>s3. write_entry s2 l i name 0x20 first_cl sz = (0, s3) \<and> same_vol s1 s3 \<and> chain_of s3 first_cl fs \<and>
    map (cluster_bytes s3) fs = map (cluster_bytes s2) fs \<and>
    dir_find s3 d name = Some (Some \<lparr>d_cl = first_cl, d_sz = sz, d_dir = False, d_lba = l, d_off = i\<rparr>)"
proof -
  obtain cs pre post where dc: "dir_chain s1 d cs" and sl: "slots s1 cs = pre @ (l, i) # post" and sc: "scan_slots (blk s1) name pre = More"
    using rd by (auto simp: ready_def)
  have ch: "chain_of s1 d cs" "\<forall>c \<in> set cs. in_vol s1 c" using dc by (simp_all add: dir_chain_def)
  have fiv: "\<forall>c \<in> set fs. in_vol s1 c" using fs(2) by (simp add: free_cl_def)
  have dj: "set fs \<inter> set cs = {}" using fs(2) dir_chain_nonzero[OF dc] by (auto simp: free_cl_def)
  have sec: "unat (data_start s1) \<le> unat m" "m \<notin> secs s1 (set fs)" if "(m, j) \<in> set (slots s1 cs)" for m j
    using slot_sector[OF g ch(2) that] fiv dj by simp_all
  have same: "blk s2 m = blk s1 m" if "(m, j) \<in> set (slots s1 cs)" for m j by (rule blk[OF sec[OF that]])
  have g2: "geom s2" "\<And>x. in_vol s2 x = in_vol s1 x" using g sv2 by (simp_all add: geom_same in_vol_same)
  let ?e = "make_entry name 0x20 first_cl sz i (blk s2 l)"
  obtain s3 where s3: "write_abs s2 l ?e = (0, s3)" "same_vol s2 s3" "blk s3 = (blk s2)(l := ?e)"
    using write_abs_ok[of s2 l ?e] g2(1) by (auto simp: geom_def)
  have w: "write_entry s2 l i name 0x20 first_cl sz = (0, s3)" using s3(1) g2(1) by (simp add: write_entry_def read_abs_def geom_def)
  have sv: "same_vol s1 s3" using same_vol_trans[OF sv2 s3(2)] .
  have lin: "(l, i) \<in> set (slots s1 cs)" using sl by simp
  obtain c k where ck: "c \<in> set cs" "k < spc s1" "l = sec_of s1 c k" using slots_in(1)[OF lin] by blast
  have fat3: "fat_get s3 x = fat_get s2 x" if "in_vol s1 x" for x
  proof -
    have "fat_sec s2 x \<noteq> l" using data_not_table[OF g _ that ck(2), of c] ch(2) ck same_vol_simps(2)[OF sv2] by auto
    then show ?thesis using s3(2,3) by (simp add: fat_get_def read_abs_def same_vol_simps)
  qed
  have cf: "chain_of s3 first_cl fs" by (rule cluster_chain_cong[OF fs(1)]) (use fat3 fiv in simp)
  have bytes: "cluster_bytes s3 x = cluster_bytes s2 x" if "x \<in> set fs" for x
  proof (rule cluster_bytes_cong[OF s3(2)])
    fix j assume j: "j < spc s2"
    have "sec_of s2 x j \<in> secs s1 (set fs)" using j that same_vol_simps[OF sv2] by (auto simp: secs_def)
    then have "sec_of s2 x j \<noteq> l" using sec(2)[OF lin] by auto
    then show "blk s3 (sec_of s2 x j) = blk s2 (sec_of s2 x j)" using s3(3) by simp
  qed
  have cd: "chain_of s3 d cs" by (rule cluster_chain_cong[OF ch(1)]) (use fat3 fat ch(2) dj in auto)
  have "scan_slots (blk s2) name pre = More" using scan_same[of pre "blk s2" "blk s1" name] same sl sc by auto
  moreover have "distinct (slots s1 cs)" using slots_distinct[OF g ch(2)] chain_distinct[OF ch(1)] by simp
  ultimately have "scan_slots (blk s3) name (slots s1 cs) = Hit \<lparr>d_cl = first_cl, d_sz = sz, d_dir = False, d_lba = l, d_off = i\<rparr>"
    unfolding s3(3) sl by (intro scan_new_entry[OF _ _ _ nm]) (use slots_in(2)[of _ _ s1 cs] sl in auto)
  then have "dir_find s3 d name = Some (Some \<lparr>d_cl = first_cl, d_sz = sz, d_dir = False, d_lba = l, d_off = i\<rparr>)"
    using dir_find_slots[OF _ cd, of name] geom_same[OF sv] g slots_same[OF sv] by (simp add: geom_def found_def)
  then show ?thesis using w sv cf bytes by auto
qed

section \<open>Simple paths\<close>

text \<open>A file name of at most 15 characters, in the current directory or, after a slash, in the root directory.\<close>

definition simple_name :: "u8 list \<Rightarrow> bool" where
  "simple_name nm \<longleftrightarrow> nm \<noteq> [] \<and> length nm \<le> 15 \<and> (\<forall>c \<in> set nm. \<not> is_sep c \<and> c \<noteq> 0) \<and> hd nm \<noteq> 0xE5"

lemma resolve_loop_simple:
  assumes "simple_name nm"
  shows "resolve_loop s cl nm = Some (Some (cl, nm))"
proof -
  have "\<not> is_sep (hd nm)" "nm \<noteq> []" using assms by (auto simp: simple_name_def)
  then have d: "dropWhile is_sep nm = nm" by (cases nm) auto
  have t: "takeWhile (\<lambda>c. \<not> is_sep c) (take 15 nm) = nm" using assms by (auto simp: simple_name_def)
  show ?thesis unfolding resolve_loop.simps[of s cl nm] Let_def d t using \<open>nm \<noteq> []\<close> by simp
qed

lemma resolve_simple:
  assumes "simple_name nm" "path = nm \<and> d = cwd_cluster s \<or> path = 47 # nm \<and> d = root_cluster s"
  shows "resolve_parent s path = Some (Some (d, nm))"
    "resolve_full s path = do { f \<leftarrow> dir_find s d nm; Some (map_option (\<lambda>e. (d_cl e, d_sz e, d_dir e)) f) }"
proof -
  have n: "nm \<noteq> []" "\<not> is_sep (hd nm)" using assms(1) by (auto simp: simple_name_def)
  have "is_sep 47" by (simp add: is_sep_def)
  then show p: "resolve_parent s path = Some (Some (d, nm))"
    using assms n resolve_loop_simple[OF assms(1)] by (auto simp: resolve_parent_def)
  have "\<not> (length path = 1 \<and> is_sep (hd path))" "path \<noteq> []" using assms(2) n by auto
  then show "resolve_full s path = do { f \<leftarrow> dir_find s d nm; Some (map_option (\<lambda>e. (d_cl e, d_sz e, d_dir e)) f) }"
    using p n unfolding resolve_full_def by (simp only: if_False if_not_P) auto
qed

section \<open>Write, then read\<close>

lemma write_data_then_read:
  assumes g: "geom s1" and rd: "ready s d nm (l, i) s1" and mo: "mounted s1" and nm: "simple_name nm"
    and path: "path = nm \<and> d = cwd_cluster s1 \<or> path = 47 # nm \<and> d = root_cluster s1" and len: "length data \<le> 32768"
  shows "\<exists>c s2. (if data = [] then Some (Some 0, s1) else write_chain s1 0 0 data) = Some (c, s2) \<and>
    (case c of None \<Rightarrow> nfree s1 < need s1 data
     | Some first_cl \<Rightarrow> \<exists>s3. write_entry s2 l i nm 0x20 first_cl (of_nat (length data)) = (0, s3) \<and>
         (\<forall>n. fat_read_file s3 path n = Some (Some (take n data))))"
proof -
  have nm': "nm \<noteq> []" "hd nm \<noteq> 0" "hd nm \<noteq> 0xE5" using nm by (auto simp: simple_name_def)
  have goal: "\<exists>s3. write_entry s2 l i nm 0x20 first_cl (of_nat (length data)) = (0, s3) \<and>
         (\<forall>n. fat_read_file s3 path n = Some (Some (take n data)))"
    if st: "same_vol s1 s2" "chain_of s2 first_cl fs" "\<forall>c \<in> set fs. free_cl s1 c"
      "\<And>x. in_vol s1 x \<Longrightarrow> x \<notin> set fs \<Longrightarrow> fat_get s2 x = fat_get s1 x"
      "\<And>m. unat (data_start s1) \<le> unat m \<Longrightarrow> m \<notin> secs s1 (set fs) \<Longrightarrow> blk s2 m = blk s1 m"
      "take (length data) (concat (map (cluster_bytes s2) fs)) = data" for s2 first_cl fs
  proof -
    let ?e = "\<lparr>d_cl = first_cl, d_sz = of_nat (length data), d_dir = False, d_lba = l, d_off = i\<rparr>"
    obtain s3 where s3: "write_entry s2 l i nm 0x20 first_cl (of_nat (length data)) = (0, s3)" "same_vol s1 s3" "chain_of s3 first_cl fs"
      "map (cluster_bytes s3) fs = map (cluster_bytes s2) fs" "dir_find s3 d nm = Some (Some ?e)"
      using write_entry_visible[OF g rd nm' st(1-5), of "of_nat (length data)"] by blast
    have "unat (of_nat (length data) :: u32) = length data" using len by (simp add: unat_of_nat)
    moreover have "path = nm \<and> d = cwd_cluster s3 \<or> path = 47 # nm \<and> d = root_cluster s3" using path s3(2) by (simp add: same_vol_simps)
    ultimately have "fat_read_file s3 path n = read_chain s3 first_cl (min (length data) n) []" for n
      using resolve_simple(2)[OF nm, of path d s3] s3(5) mo s3(2) by (simp add: fat_read_file_def same_vol_simps)
    moreover have "\<forall>l. \<not> bad_read (disk_of s3) l" using g geom_same[OF s3(2)] by (simp add: geom_def)
    ultimately have "fat_read_file s3 path n = Some (Some (take (min (length data) n) (concat (map (cluster_bytes s2) fs))))" for n
      using read_chain_spec[OF _ s3(3), of "min (length data) n" "[]"] s3(4) by simp
    moreover have "take (min (length data) n) xs = take n (take (length data) xs)" for n and xs :: "u8 list" by (simp add: min.commute)
    ultimately show ?thesis using s3(1) st(6) by simp
  qed
  show ?thesis
  proof (cases "data = []")
    case True
    then show ?thesis using goal[of s1 0 "[]"] by auto
  next
    case False
    from write_chain_step[OF g False, of None 0] consider
      (full) s2 where "write_chain s1 0 0 data = Some (None, s2)" "nfree s1 < need s1 data"
      | (ok) cs s2 where "write_chain s1 0 0 data = Some (Some (hd cs), s2)" "stored s1 None cs data s2" by auto
    then show ?thesis
    proof cases
      case ok
      then show ?thesis using False goal[of s2 "hd cs" cs] by (auto simp: stored_def)
    qed (use False in auto)
  qed
qed

text \<open>The directory \<open>d\<close> is a proper chain; an entry of the name is a file whose chain does not touch the directory.\<close>

definition target_ok :: "fat \<Rightarrow> u32 \<Rightarrow> u8 list \<Rightarrow> bool" where
  "target_ok s d nm \<longleftrightarrow> (\<exists>cs. dir_chain s d cs \<and> (\<forall>e. dir_find s d nm = Some (Some e) \<longrightarrow> \<not> d_dir e \<and>
     (\<exists>fs. chain_of s (d_cl e) fs \<and> (\<forall>c \<in> set fs. in_vol s c) \<and> set fs \<inter> set cs = {})))"

definition place :: "fat \<Rightarrow> u32 \<Rightarrow> dirent option \<Rightarrow> ((u32 \<times> nat) option \<times> fat) option" where
  "place s d f = (case f of None \<Rightarrow> dir_alloc_slot s d
     | Some e \<Rightarrow> do { (_, s1) \<leftarrow> (if 2 \<le> d_cl e then fat_free_chain s (d_cl e) else Some (0, s)); Some (Some (d_lba e, d_off e), s1) })"

lemma place_ready:
  assumes "geom s" "target_ok s d nm" "dir_find s d nm = Some f"
  shows "(place s d f = Some (None, s) \<and> nfree s = 0) \<or>
    (\<exists>s1 p. place s d f = Some (Some p, s1) \<and> ready s d nm p s1 \<and> nfree s \<le> Suc (nfree s1))"
proof -
  obtain cs where dc: "dir_chain s d cs" and ent: "\<And>e. f = Some e \<Longrightarrow> \<exists>fs. chain_of s (d_cl e) fs \<and> (\<forall>c \<in> set fs. in_vol s c) \<and> set fs \<inter> set cs = {}"
    using assms(2,3) by (auto simp: target_ok_def)
  have f: "f = found (scan_slots (blk s) nm (slots s cs))"
    using dir_find_slots[of s d cs nm] assms(1,3) dc by (simp add: geom_def dir_chain_def)
  show ?thesis
  proof (cases f)
    case None
    then show ?thesis using alloc_ready[OF assms(1) dc, of nm] f by (simp add: place_def)
  next
    case (Some e)
    then have hit: "scan_slots (blk s) nm (slots s cs) = Hit e" using f by (auto simp: found_def split: scan.splits)
    obtain s1 where s1: "fat_free_chain s (d_cl e) = Some (0, s1)" "ready s d nm (d_lba e, d_off e) s1" "nfree s \<le> nfree s1"
      using reuse_ready[OF assms(1) dc hit] ent[OF Some] by blast
    have "\<not> 2 \<le> d_cl e \<Longrightarrow> s1 = s" using s1(1) by (simp add: fat_free_chain.simps)
    then show ?thesis using s1 Some by (auto simp: place_def)
  qed
qed

text \<open>
  C9. Write, then read. On a regular volume, writing a file of at most 32 KiB under a simple name in the current or
  the root directory returns: either -1, and then there are not enough free clusters for the data and one for the directory, or
  the length, and then reading the path returns the data, cut to the size of the buffer. The file may be new or
  replace an old one, the directory may have to grow.
\<close>

theorem fat_write_read:
  assumes "geom s" "mounted s" "simple_name nm" "path = nm \<and> d = cwd_cluster s \<or> path = 47 # nm \<and> d = root_cluster s"
    "target_ok s d nm" "length data \<le> 32768"
  shows "\<exists>r s'. fat_write_file s path data = Some (r, s') \<and>
    (r = -1 \<and> nfree s \<le> need s data \<or>
     r = int (length data) \<and> (\<forall>n. fat_read_file s' path n = Some (Some (take n data))))"
proof -
  obtain cs where cs: "dir_chain s d cs" using assms(5) by (auto simp: target_ok_def)
  then obtain f where f: "dir_find s d nm = Some f"
    using dir_find_slots[of s d cs nm] assms(1) by (auto simp: geom_def dir_chain_def)
  have nd: "\<not> (case f of None \<Rightarrow> False | Some e \<Rightarrow> d_dir e)" using assms(5) f by (auto simp: target_ok_def split: option.split)
  have ne: "nm \<noteq> []" "path \<noteq> []" using assms(3,4) by (auto simp: simple_name_def)
  have w: "fat_write_file s path data = do { (at, s1) \<leftarrow> place s d f;
      case at of None \<Rightarrow> Some (-1, s1)
      | Some (elba, eoff) \<Rightarrow>
          do { (c, s2) \<leftarrow> (if data = [] then Some (Some 0, s1) else write_chain s1 0 0 data);
            case c of None \<Rightarrow> Some (-1, s2)
            | Some first_cl \<Rightarrow>
                (case write_entry s2 elba eoff nm 0x20 first_cl (of_nat (length data)) of (r, s3) \<Rightarrow>
                   Some (if r \<noteq> 0 then -1 else int (length data), s3)) } }"
    using assms(2,6) ne nd f resolve_simple(1)[OF assms(3,4)] by (simp add: fat_write_file_def place_def)
  show ?thesis
  proof (cases "place s d f = Some (None, s) \<and> nfree s = 0")
    case True
    then show ?thesis using w by auto
  next
    case False
    then obtain s1 l i where p: "place s d f = Some (Some (l, i), s1)" "ready s d nm (l, i) s1" "nfree s \<le> Suc (nfree s1)"
      using place_ready[OF assms(1,5) f] by auto
    have sv: "same_vol s s1" using p(2) by (simp add: ready_def)
    have g1: "geom s1" "mounted s1" "need s1 data = need s data" "path = nm \<and> d = cwd_cluster s1 \<or> path = 47 # nm \<and> d = root_cluster s1"
      using assms(1,2,4) sv by (simp_all add: geom_same same_vol_simps need_def)
    from write_data_then_read[OF g1(1) p(2) g1(2) assms(3) g1(4) assms(6)] obtain c s2 where
      c: "(if data = [] then Some (Some 0, s1) else write_chain s1 0 0 data) = Some (c, s2)"
      "case c of None \<Rightarrow> nfree s1 < need s1 data
       | Some first_cl \<Rightarrow> \<exists>s3. write_entry s2 l i nm 0x20 first_cl (of_nat (length data)) = (0, s3) \<and>
         (\<forall>n. fat_read_file s3 path n = Some (Some (take n data)))" by blast
    show ?thesis using w p(1,3) c g1(3) by (cases c) auto
  qed
qed

lemma demo_free: "free_cl demo_fat 3" "free_cl demo_fat 4"
proof -
  have "fat_get demo_fat 3 = 0" "fat_get demo_fat 4 = 0"
    by (simp_all add: fat_get_def read_abs_def fat_sec_def fat_idx_def demo_fat_def disk_of_def demo_disk_def wr32_def rd32_def)
  then show "free_cl demo_fat 3" "free_cl demo_fat 4" by (simp_all add: free_cl_def in_vol_def) (simp_all add: demo_fat_def)
qed

lemma demo_dir: "dir_chain demo_fat 2 [2]"
proof -
  have "fat_get demo_fat 2 = 0x0FFFFFFF"
    by (simp add: fat_get_def read_abs_def fat_sec_def fat_idx_def demo_fat_def disk_of_def demo_disk_def)
  moreover have "in_vol demo_fat 2" by (simp add: in_vol_def) (simp add: demo_fat_def)
  ultimately show ?thesis by (simp add: dir_chain_def)
qed

lemma demo_target: "target_ok demo_fat 2 nm"
proof -
  have "\<forall>l. \<not> bad_read (disk_of demo_fat) l" "chain_of demo_fat 2 [2]" using demo_fat_geom demo_dir by (simp_all add: geom_def dir_chain_def)
  note f = dir_find_slots[OF this, of nm]
  have "blk demo_fat 40 = zero_sector" by (simp add: demo_fat_def disk_of_def demo_disk_def)
  moreover have "\<exists>xs. slots demo_fat [2] = (40, 0) # xs"
    by (simp add: slots_def cluster_slots_def ent_offsets_def upt_conv_Cons cluster_to_lba_def) (simp add: demo_fat_def upt_conv_Cons)
  ultimately have "dir_find demo_fat 2 nm = Some None" using f by (auto simp: found_def)
  then show ?thesis using demo_dir by (auto simp: target_ok_def)
qed

theorem fat_write_read_witness:
  "\<exists>s'. fat_write_file demo_fat [97, 46, 116] [1, 2, 3] = Some (3, s') \<and> fat_read_file s' [97, 46, 116] 512 = Some (Some [1, 2, 3])"
proof -
  have "{3, 4} \<subseteq> {c. free_cl demo_fat c}" using demo_free by simp
  then have "card {3 :: u32, 4} \<le> nfree demo_fat" unfolding nfree_def by (intro card_mono) simp_all
  then have n: "2 \<le> nfree demo_fat" by simp
  have nd: "need demo_fat [1, 2, 3] = 1" by (simp add: need_def demo_fat_def)
  have nm: "simple_name [97, 46, 116]" by (simp add: simple_name_def is_sep_def)
  have st: "mounted demo_fat" "cwd_cluster demo_fat = 2" by (simp_all add: demo_fat_def)
  obtain r s' where w: "fat_write_file demo_fat [97, 46, 116] [1, 2, 3] = Some (r, s')"
    "r = -1 \<and> nfree demo_fat \<le> need demo_fat [1, 2, 3] \<or> r = int (length [1, 2, 3 :: u8]) \<and>
      (\<forall>n. fat_read_file s' [97, 46, 116] n = Some (Some (take n [1, 2, 3])))"
    using fat_write_read[OF demo_fat_geom st(1) nm, of "[97, 46, 116]" 2 "[1, 2, 3]"] demo_target st(2) by auto
  moreover have "take 512 [1, 2, 3 :: u8] = [1, 2, 3]" by simp
  ultimately show ?thesis using n nd by fastforce
qed

text \<open>
  C37. Names on the disk. The stored form of any name has eleven bytes and none of them is a lower-case letter; names that differ only in case
  are stored alike; and a proper name with extension is printed back in capitals.
\<close>

theorem name_83_type:
  "length (to_83 a) = 11 \<and> (\<forall>c \<in> set (to_83 a). \<not> (97 \<le> c \<and> c \<le> 122)) \<and> eq83 (map upper a) (to_83 a) \<and>
   (length b \<le> 8 \<and> 1 \<le> length e \<and> length e \<le> 3 \<and> (\<forall>c \<in> set (b @ e). \<not> is_sep c \<and> c \<noteq> 46 \<and> c \<noteq> 32) \<longrightarrow>
     print_83 (to_83 (b @ [46] @ e)) = map upper (b @ [46] @ e))"
proof (intro conjI impI)
  have up: "\<not> (97 \<le> upper c \<and> upper c \<le> 122)" for c
    using upper_cases[of c] by (auto simp: upper_def word_le_nat_alt split: if_splits)
  show "\<forall>c \<in> set (to_83 a). \<not> (97 \<le> c \<and> c \<le> 122)"
    by (auto simp: to_83_def Let_def word_le_nat_alt) (use up in \<open>auto simp: word_le_nat_alt\<close>)
  have idem: "upper (upper c) = upper c" for c using up[of c] by (subst upper_def) simp
  have keep: "(upper c = 46) = (c = 46)" "is_sep (upper c) = is_sep c" for c
    using upper_cases[of c] by (auto simp: upper_def is_sep_def split: if_splits)
  have tw: "takeWhile P (map upper xs) = map upper (takeWhile P xs)" if "\<And>c. P (upper c) = P c" for P xs
    using that by (induction xs) auto
  show "eq83 (map upper a) (to_83 a)"
    unfolding eq83_def to_83_def Let_def
    by (simp add: take_map drop_map tw keep idem o_def) (auto simp: hd_map keep)
next
  assume h: "length b \<le> 8 \<and> 1 \<le> length e \<and> length e \<le> 3 \<and> (\<forall>c \<in> set (b @ e). \<not> is_sep c \<and> c \<noteq> 46 \<and> c \<noteq> 32)"
  have ns: "c \<noteq> 32 \<Longrightarrow> upper c \<noteq> 32" for c using upper_cases[of c] by auto
  have b: "takeWhile (\<lambda>c. c \<noteq> 46 \<and> \<not> is_sep c) (take 8 (b @ [46] @ e)) = b"
    using h by (cases "8 - length b") (auto simp: takeWhile_append)
  have e: "takeWhile (\<lambda>c. \<not> is_sep c) (take 3 e) = e" using h by (auto simp: takeWhile_eq_all_conv)
  have t: "to_83 (b @ [46] @ e) = map upper b @ replicate (8 - length b) 32 @ map upper e @ replicate (3 - length e) 32"
    unfolding to_83_def Let_def b using e by simp
  have w: "takeWhile (\<lambda>c. c \<noteq> 32) (map upper xs @ replicate n 32) = map upper xs" if "\<forall>c \<in> set xs. c \<noteq> 32" for xs n
    using that ns by (auto simp: takeWhile_append takeWhile_eq_all_conv split: if_splits)
  have "take 8 (to_83 (b @ [46] @ e)) = map upper b @ replicate (8 - length b) 32"
    "drop 8 (to_83 (b @ [46] @ e)) = map upper e @ replicate (3 - length e) 32" unfolding t using h by simp_all
  moreover have "to_83 (b @ [46] @ e) ! 8 = upper (hd e)" unfolding t using h by (cases e) (auto simp: nth_append)
  moreover have "upper 46 = 46" by (simp add: upper_def)
  moreover have "hd e \<noteq> 32" using h by (cases e) auto
  ultimately show "print_83 (to_83 (b @ [46] @ e)) = map upper (b @ [46] @ e)"
    using w[of b "8 - length b"] w[of e "3 - length e"] h ns[of "hd e"] unfolding print_83_def by simp
qed simp

theorem name_83_type_witness: "print_83 (to_83 [97, 46, 116, 120]) = [65, 46, 84, 88]"
  using name_83_type[of "[]" "[97]" "[116, 120]"] by (simp add: is_sep_def upper_def)

section \<open>Mounting and the working directory\<close>

text \<open>What a refused operation returns: nothing has changed.\<close>

definition refuses :: "fat \<Rightarrow> bool" where
  "refuses s \<longleftrightarrow> (\<forall>path data n. fat_chdir s path = Some (-1, s) \<and> fat_mkdir s path = Some (-1, s) \<and>
     fat_write_file s path data = Some (-1, s) \<and> fat_unlink s path = Some (-1, s) \<and> fat_read_file s path n = Some None)"

lemma unmounted_refuses: "\<not> mounted s \<Longrightarrow> refuses s"
  by (simp add: refuses_def fat_chdir_def fat_mkdir_def fat_write_file_def fat_unlink_def fat_read_file_def)

lemma mount_disk_result:
  assumes "\<not> mounted s" "mount_disk s m = (r, s')"
  shows "nvme s' = nvme s \<and> ahci s' = ahci s \<and> ata s' = ata s \<and>
    (if r = 0 then mounted s' \<and> bytes_per_sec s' = 512 \<and> cwd_cluster s' = root_cluster s' \<and> take 2 (cwd_path s') = [47, 0]
     else r = -1 \<and> \<not> mounted s')"
proof -
  have v: "nvme u' = nvme u \<and> ahci u' = ahci u \<and> ata u' = ata u \<and>
    (if r = 0 then mounted u' \<and> bytes_per_sec u' = 512 \<and> cwd_cluster u' = root_cluster u' \<and> take 2 (cwd_path u') = [47, 0]
     else r = -1 \<and> \<not> mounted u')" if "\<not> mounted u" "mount_volume u v = (r, u')" for u u' v
    using that by (cases "rd16 v 11 = 512") (auto simp: mount_volume_def Let_def)
  show ?thesis
  proof (cases "m 510 = 0x55 \<and> m 511 = 0xAA")
    case True
    let ?l = "if m 0x1C2 = 0xEE then do { h \<leftarrow> read_abs s 1; pe \<leftarrow> read_abs s (rd32 h 72); Some (rd32 pe 32) } else Some (rd32 m 0x1C6)"
    show ?thesis
    proof (cases ?l)
      case None
      then show ?thesis using assms True by (auto simp: mount_disk_def)
    next
      case (Some lba)
      let ?s = "s\<lparr>part_lba := lba\<rparr>"
      have "(case read_abs ?s lba of None \<Rightarrow> (-1, ?s) | Some w \<Rightarrow> mount_volume ?s w) = (r, s')"
        using assms(2) True Some by (simp add: mount_disk_def Let_def)
      then show ?thesis using assms(1) v[of ?s _ s'] by (auto split: option.splits)
    qed
  qed (use assms in \<open>auto simp: mount_disk_def\<close>)
qed



text \<open>
  C39. The path buffer stays within its 128 bytes and terminated by changing to any directory, by any name of any
  length; and only the current directory and this buffer change.
\<close>

theorem fat_chdir_bounded:
  assumes "length (cwd_path s) = 128" "cwd_path s ! 127 = 0" "fat_chdir s path = Some (r, s')"
  shows "length (cwd_path s') = 128 \<and> cwd_path s' ! 127 = 0 \<and> length (fat_getcwd s' 128) \<le> 127 \<and>
    s' = s\<lparr>cwd_cluster := cwd_cluster s', cwd_path := cwd_path s'\<rparr>"
proof -
  have put: "length (buf_put b i xs) = 128 \<and> buf_put b i xs ! 127 = 0"
    if "length b = 128" "b ! 127 = 0" "i + length xs \<le> 127 \<or> (i + length xs = 128 \<and> xs \<noteq> [] \<and> last xs = 0)" for b i and xs :: "u8 list"
  proof -
    have "length (buf_put b i xs) = 128" using that by (auto simp: buf_put_def)
    moreover have "i + length xs = 128 \<Longrightarrow> length xs - 1 = 127 - i" by simp
    then have "buf_put b i xs ! 127 = 0"
      using that by (auto simp: buf_put_def nth_append last_conv_nth)
    ultimately show ?thesis by simp
  qed
  have cd: "length (chdir_path path b) = 128 \<and> chdir_path path b ! 127 = 0" if b: "length b = 128" "b ! 127 = 0" for b
  proof -
    define n where "n = length (cstr b)"
    define sl where "sl \<longleftrightarrow> 1 < n \<and> b ! (n - 1) \<noteq> 47 \<and> n + 1 < 128"
    define b1 where "b1 = (if sl then buf_put b n [47] else b)"
    have b1: "length b1 = 128" "b1 ! 127 = 0" using put[OF b, of n "[47]"] b by (auto simp: b1_def sl_def)
    have "chdir_path path b = (if (if sl then n + 1 else n) + length path < 128 then buf_put b1 (if sl then n + 1 else n) (path @ [0]) else b1)"
      by (simp add: chdir_path_def Let_def n_def sl_def b1_def)
    moreover have "length (buf_put b1 k (path @ [0])) = 128 \<and> buf_put b1 k (path @ [0]) ! 127 = 0" if "k + length path < 128" for k
      using that by (intro put[OF b1]) auto
    ultimately show ?thesis using b1 by simp
  qed
  have "cwd_path s' \<in> {cwd_path s, buf_put (cwd_path s) 0 (take 127 path @ [0]), buf_put (cwd_path s) 0 [47, 0], chdir_path path (cwd_path s)} \<and>
      s' = s\<lparr>cwd_cluster := cwd_cluster s', cwd_path := cwd_path s'\<rparr>"
  proof (cases "s' = s")
    case False
    obtain f where f: "resolve_full s path = Some f" "mounted s" using assms(3) False by (cases "resolve_full s path") (auto simp: fat_chdir_def split: if_splits)
    obtain cl x where "f = Some (cl, x, True)" using assms(3) False f by (cases f) (auto simp: fat_chdir_def split: if_splits)
    then have "fat_chdir s path = Some (0, if path \<noteq> [] \<and> is_sep (hd path) then s\<lparr>cwd_cluster := cl, cwd_path := buf_put (cwd_path s) 0 (take 127 path @ [0])\<rparr>
        else if path = [46, 46] then s\<lparr>cwd_cluster := cl, cwd_path := buf_put (cwd_path s) 0 [47, 0], cwd_cluster := root_cluster s\<rparr>
        else if path \<noteq> [] then s\<lparr>cwd_cluster := cl, cwd_path := chdir_path path (cwd_path s)\<rparr> else s\<lparr>cwd_cluster := cl\<rparr>)"
      using f unfolding fat_chdir_def Let_def by simp
    then have "s' = s\<lparr>cwd_cluster := cl, cwd_path := buf_put (cwd_path s) 0 (take 127 path @ [0])\<rparr> \<or>
        s' = s\<lparr>cwd_cluster := cl, cwd_path := buf_put (cwd_path s) 0 [47, 0], cwd_cluster := root_cluster s\<rparr> \<or>
        s' = s\<lparr>cwd_cluster := cl, cwd_path := chdir_path path (cwd_path s)\<rparr> \<or> s' = s\<lparr>cwd_cluster := cl\<rparr>"
      unfolding assms(3) option.inject prod.inject by metis
    then show ?thesis by (elim disjE) (simp only:, simp)+
  qed simp
  moreover have "length (buf_put (cwd_path s) 0 (take 127 path @ [0])) = 128 \<and> buf_put (cwd_path s) 0 (take 127 path @ [0]) ! 127 = 0"
    by (rule put[OF assms(1,2)]) auto
  moreover have "length (buf_put (cwd_path s) 0 [47, 0]) = 128 \<and> buf_put (cwd_path s) 0 [47, 0] ! 127 = 0"
    by (rule put[OF assms(1,2)]) simp
  ultimately have "length (cwd_path s') = 128 \<and> cwd_path s' ! 127 = 0" "s' = s\<lparr>cwd_cluster := cwd_cluster s', cwd_path := cwd_path s'\<rparr>"
    using cd[OF assms(1,2)] assms(1,2) by auto
  then show ?thesis by (simp add: fat_getcwd_def)
qed

theorem fat_chdir_bounded_witness:
  "\<exists>r s'. fat_chdir demo_fat [47] = Some (r, s') \<and> length (cwd_path s') = 128 \<and> cwd_path s' ! 127 = 0"
proof -
  obtain r s' where c: "fat_chdir demo_fat [47] = Some (r, s')"
    by (simp add: fat_chdir_def resolve_full_def is_sep_def demo_fat_def)
  have p: "cwd_path demo_fat = 47 # replicate 127 0" by (simp add: demo_fat_def)
  have "(47 # replicate 127 (0 :: u8)) ! 127 = 0" by (simp add: nth_Cons')
  then show ?thesis using fat_chdir_bounded[OF _ _ c] c p by auto
qed

end
