(* ===== verification/Vfs.thy ===== *)
theory Vfs
  imports Heap_Session Fat_File
begin

text \<open>
  The virtual file system (\<open>kernel/vfs/vfs.c\<close>): drive C: is a tree of nodes in memory, whose file contents lie in
  blocks of the kernel heap, drive D: is the FAT volume. A node pointer is an index into \<open>nodes\<close>. Paths and
  names are byte lists without the terminating zero. Walks along the links of a damaged tree, or along a cyclic FAT chain, need
  not end: the outer option of a result is \<open>None\<close> then.
\<close>

abbreviation VFS_NAME_MAX :: nat where "VFS_NAME_MAX \<equiv> 64"
abbreviation VFS_PATH_MAX :: nat where "VFS_PATH_MAX \<equiv> 256"
abbreviation VFS_MAX_NODES :: nat where "VFS_MAX_NODES \<equiv> 128"
abbreviation VFS_MAX_FILE_SIZE :: nat where "VFS_MAX_FILE_SIZE \<equiv> 16384"

section \<open>State\<close>

text \<open>\<open>TYPE_NONE\<close> is the value 0 a removed node has.\<close>

datatype vfs_type = TYPE_NONE | TYPE_DIR | TYPE_FILE
datatype vfs_drive = DRIVE_C | DRIVE_D

record vfs_node =
  vname :: "u8 list"
  vtype :: vfs_type
  parent :: "nat option"
  child :: "nat option"
  sibling :: "nat option"
  vdata :: u64
  vsize :: nat
  capacity :: nat

record vfs =
  nodes :: "nat \<Rightarrow> vfs_node"
  node_count :: nat
  root :: nat
  cwd :: nat
  cur_drive :: vfs_drive
  vheap :: heap
  vfat :: fat

abbreviation upd_node :: "nat \<Rightarrow> (vfs_node \<Rightarrow> vfs_node) \<Rightarrow> vfs \<Rightarrow> vfs" where
  "upd_node i f s \<equiv> s\<lparr>nodes := (nodes s)(i := f (nodes s i))\<rparr>"

section \<open>Nodes\<close>

definition strcpy_l :: "u8 list \<Rightarrow> nat \<Rightarrow> u8 list" where "strcpy_l src n = take (n - 1) src"

definition alloc_node :: "u8 list \<Rightarrow> vfs_type \<Rightarrow> nat option \<Rightarrow> vfs \<Rightarrow> nat option \<times> vfs" where
  "alloc_node name type par s =
     (if node_count s \<ge> VFS_MAX_NODES then (None, s)
      else
        let n = node_count s;
            node = \<lparr>vname = strcpy_l name VFS_NAME_MAX, vtype = type, parent = par,
              child = None, sibling = (case par of None \<Rightarrow> None | Some p \<Rightarrow> child (nodes s p)), vdata = 0, vsize = 0, capacity = 0\<rparr>;
            s1 = s\<lparr>node_count := n + 1, nodes := (nodes s)(n := node)\<rparr>
        in (Some n, case par of None \<Rightarrow> s1 | Some p \<Rightarrow> upd_node p (\<lambda>x. x\<lparr>child := Some n\<rparr>) s1))"

section \<open>Paths\<close>

definition on_drive :: "u8 \<Rightarrow> u8 \<Rightarrow> u8 list \<Rightarrow> bool" where
  "on_drive up low path \<longleftrightarrow> (case path of a # b # _ \<Rightarrow> (a = up \<or> a = low) \<and> b = 58 | _ \<Rightarrow> False)"

abbreviation on_c :: "u8 list \<Rightarrow> bool" where "on_c \<equiv> on_drive 67 99"
abbreviation on_d :: "u8 list \<Rightarrow> bool" where "on_d \<equiv> on_drive 68 100"

definition parse_drive :: "vfs \<Rightarrow> u8 list \<Rightarrow> vfs_drive \<times> u8 list" where
  "parse_drive s path =
     (if on_c path then (DRIVE_C, dropWhile is_sep (drop 2 path))
      else if on_d path then (DRIVE_D, dropWhile is_sep (drop 2 path))
      else (cur_drive s, path))"

definition strip_c :: "u8 list \<Rightarrow> u8 list" where
  "strip_c path = dropWhile is_sep (if on_c path then drop 2 path else path)"

partial_function (option) find_child :: "vfs \<Rightarrow> nat option \<Rightarrow> u8 list \<Rightarrow> nat option option" where
  "find_child s c part =
     (case c of None \<Rightarrow> Some None
      | Some i \<Rightarrow> if vname (nodes s i) = part then Some (Some i) else find_child s (sibling (nodes s i)) part)"

function lookup_loop :: "vfs \<Rightarrow> nat \<Rightarrow> u8 list \<Rightarrow> nat option option" where
  "lookup_loop s cur path =
     (if path = [] then Some (Some cur)
      else let part = takeWhile (\<lambda>c. \<not> is_sep c) (take (VFS_NAME_MAX - 1) path);
               rest = dropWhile is_sep (drop (length part) path)
      in if part = [] \<or> part = [46] then lookup_loop s cur rest
         else if part = [46, 46] then lookup_loop s (case parent (nodes s cur) of None \<Rightarrow> cur | Some p \<Rightarrow> p) rest
         else if vtype (nodes s cur) \<noteq> TYPE_DIR then Some None
         else case find_child s (child (nodes s cur)) part of None \<Rightarrow> None | Some None \<Rightarrow> Some None
            | Some (Some c) \<Rightarrow> lookup_loop s c rest)"
  by pat_completeness auto

lemma lookup_shorter:
  assumes "path \<noteq> []" "part = takeWhile (\<lambda>c. \<not> is_sep c) (take 63 path)"
  shows "length (dropWhile is_sep (drop (length part) path)) < length path"
proof (cases "part = []")
  case True
  then have "is_sep (hd path)" using assms by (cases path) (auto split: if_splits)
  then have "length (dropWhile is_sep path) < length path"
    using assms(1) length_dropWhile_le[of is_sep "tl path"] by (cases path) auto
  then show ?thesis using True by simp
next
  case False
  have "length (dropWhile is_sep (drop (length part) path)) \<le> length (drop (length part) path)" by (rule length_dropWhile_le)
  also have "\<dots> < length path" using False assms(1) by simp
  finally show ?thesis .
qed

termination lookup_loop
  by (relation "measure (\<lambda>(s, cur, path). length path)") (use lookup_shorter in auto)

declare lookup_loop.simps [simp del]

definition lookup_rel :: "vfs \<Rightarrow> nat \<Rightarrow> u8 list \<Rightarrow> nat option option" where
  "lookup_rel s base path = (if path = [] then Some (Some base) else lookup_loop s base (strip_c path))"

definition vfs_lookup :: "vfs \<Rightarrow> u8 list \<Rightarrow> nat option option" where
  "vfs_lookup s path =
     (if path = [] then Some (Some (cwd s))
      else if fst (parse_drive s path) = DRIVE_D then Some None
      else if on_c path then lookup_rel s (root s) path
      else if is_sep (hd path) then lookup_rel s (root s) path
      else if cur_drive s = DRIVE_D then Some None
      else lookup_rel s (cwd s) path)"

section \<open>Working directory\<close>

partial_function (option) cwd_parts :: "vfs \<Rightarrow> nat option \<Rightarrow> nat \<Rightarrow> u8 list list option" where
  "cwd_parts s p n =
     (case p of None \<Rightarrow> Some []
      | Some i \<Rightarrow>
          if n \<ge> 8 then Some []
          else let name = vname (nodes s i)
          in if name \<noteq> [] then do { ps \<leftarrow> cwd_parts s (parent (nodes s i)) (n + 1); Some (strcpy_l name VFS_NAME_MAX # ps) }
             else cwd_parts s (parent (nodes s i)) n)"

fun join_parts :: "u8 list list \<Rightarrow> u8 list" where
  "join_parts [] = []"
| "join_parts [p] = p"
| "join_parts (p # ps) = p @ [47] @ join_parts ps"

definition vfs_getcwd :: "vfs \<Rightarrow> nat \<Rightarrow> u8 list option" where
  "vfs_getcwd s maxlen =
     (if cur_drive s = DRIVE_D then Some (take (maxlen - 1) ([68, 58] @ fat_getcwd (vfat s) 128))
      else do { ps \<leftarrow> cwd_parts s (Some (cwd s)) 0; Some (take (maxlen - 1) ([67, 58, 47] @ join_parts (rev ps))) })"

definition with_fat :: "vfs \<Rightarrow> (int \<times> fat) option \<Rightarrow> (int \<times> vfs) option" where
  "with_fat s r = map_option (\<lambda>(v, f). (v, s\<lparr>vfat := f\<rparr>)) r"

definition set_cwd :: "vfs \<Rightarrow> nat option option \<Rightarrow> (int \<times> vfs) option" where
  "set_cwd s r = do { n \<leftarrow> r;
     case n of None \<Rightarrow> Some (-1, s)
     | Some i \<Rightarrow> Some (if vtype (nodes s i) \<noteq> TYPE_DIR then (-1, s) else (0, s\<lparr>cwd := i, cur_drive := DRIVE_C\<rparr>)) }"

definition vfs_chdir :: "u8 list \<Rightarrow> vfs \<Rightarrow> (int \<times> vfs) option" where
  "vfs_chdir path s =
     (case parse_drive s path of (d, p) \<Rightarrow>
        if d = DRIVE_D \<or> on_d path then
          do { (r1, s1) \<leftarrow> with_fat s (fat_chdir (vfat s) (if p \<noteq> [] then p else [47]));
               if r1 = 0 then Some (0, s1\<lparr>cur_drive := DRIVE_D\<rparr>)
               else do { (r2, s2) \<leftarrow> with_fat s1 (fat_chdir (vfat s1) p);
                         if r2 = 0 then Some (0, s2\<lparr>cur_drive := DRIVE_D\<rparr>) else Some (-1, s2) } }
        else if on_c path then set_cwd s (lookup_rel s (root s) path)
        else if cur_drive s = DRIVE_D then
          do { (r, s1) \<leftarrow> with_fat s (fat_chdir (vfat s) path); Some (if r \<noteq> 0 then -1 else 0, s1) }
        else set_cwd s (vfs_lookup s path))"

section \<open>Creating nodes\<close>

definition split_parent :: "u8 list \<Rightarrow> u8 list \<times> u8 list" where
  "split_parent path =
     (let tmp = strcpy_l path VFS_PATH_MAX;
          name = rev (takeWhile (\<lambda>c. \<not> is_sep c) (rev tmp))
      in if length name = length tmp then ([], strcpy_l tmp VFS_NAME_MAX)
         else (strcpy_l (take (length tmp - length name - 1) tmp) VFS_PATH_MAX, strcpy_l name VFS_NAME_MAX))"

text \<open>The directory in which a new node may be made, and its name; the inner \<open>None\<close> for the early error returns.\<close>

definition new_place :: "vfs \<Rightarrow> u8 list \<Rightarrow> (nat \<times> u8 list) option option" where
  "new_place s path =
     (case split_parent path of (par_path, name) \<Rightarrow>
        if name = [] then Some None
        else do { par \<leftarrow> (if par_path \<noteq> [] then vfs_lookup s par_path else Some (Some (cwd s)));
          case par of None \<Rightarrow> Some None
          | Some p \<Rightarrow>
              if vtype (nodes s p) \<noteq> TYPE_DIR then Some None
              else do { old \<leftarrow> lookup_rel s p name; Some (if old \<noteq> None then None else Some (p, name)) } })"

definition vfs_mkdir :: "u8 list \<Rightarrow> vfs \<Rightarrow> (int \<times> vfs) option" where
  "vfs_mkdir path s =
     (case parse_drive s path of (d, p) \<Rightarrow>
        if d = DRIVE_D \<or> cur_drive s = DRIVE_D then with_fat s (fat_mkdir (vfat s) (if on_d path then p else path))
        else do { at \<leftarrow> new_place s path;
          case at of None \<Rightarrow> Some (-1, s)
          | Some (par, name) \<Rightarrow>
              (case alloc_node name TYPE_DIR (Some par) s of (None, s1) \<Rightarrow> Some (-1, s1) | (Some _, s1) \<Rightarrow> Some (0, s1)) })"

definition vfs_create_file :: "u8 list \<Rightarrow> vfs \<Rightarrow> (int \<times> vfs) option" where
  "vfs_create_file path s =
     (case parse_drive s path of (d, p) \<Rightarrow>
        if d = DRIVE_D \<or> cur_drive s = DRIVE_D then with_fat s (fat_write_file (vfat s) (if d = DRIVE_D then p else path) [])
        else do { at \<leftarrow> new_place s path;
          case at of None \<Rightarrow> Some (-1, s)
          | Some (par, name) \<Rightarrow>
              (case alloc_node name TYPE_FILE (Some par) s of (None, s1) \<Rightarrow> Some (-1, s1)
               | (Some f, s1) \<Rightarrow>
                   do { (ptr, h) \<leftarrow> kmalloc 512 (vheap s1);
                        let s2 = upd_node f (\<lambda>x. x\<lparr>capacity := 512, vdata := ptr\<rparr>) s1\<lparr>vheap := h\<rparr>
                        in if ptr = 0 then Some (-1, s2) else Some (0, upd_node f (\<lambda>x. x\<lparr>vsize := 0\<rparr>) s2) }) })"

section \<open>Files\<close>

text \<open>Makes room for \<open>len\<close> bytes: a larger buffer with the old contents if the capacity is too small.\<close>

definition grow_file :: "nat \<Rightarrow> nat \<Rightarrow> vfs \<Rightarrow> (bool \<times> vfs) option" where
  "grow_file n len s =
     (if len > capacity (nodes s n) then
        let nc = min (len + 256) VFS_MAX_FILE_SIZE
        in do { (nd, h) \<leftarrow> kmalloc (of_nat nc) (vheap s);
             if nd = 0 then Some (False, s\<lparr>vheap := h\<rparr>)
             else Some (True, upd_node n (\<lambda>x. x\<lparr>vdata := nd, capacity := nc\<rparr>)
               s\<lparr>vheap := on_mem (\<lambda>m. mem_store m (unat nd) (mem_load m (unat (vdata (nodes s n))) (vsize (nodes s n)))) h\<rparr>) }
      else Some (True, s))"

definition store_file :: "nat \<Rightarrow> u8 list \<Rightarrow> vfs \<Rightarrow> vfs" where
  "store_file n bs s = upd_node n (\<lambda>x. x\<lparr>vsize := length bs\<rparr>)
     s\<lparr>vheap := on_mem (\<lambda>m. mem_store m (unat (vdata (nodes s n))) bs) (vheap s)\<rparr>"

definition write_node :: "nat option \<Rightarrow> u8 list \<Rightarrow> vfs \<Rightarrow> (int \<times> vfs) option" where
  "write_node n data s =
     (case n of None \<Rightarrow> Some (-1, s)
      | Some i \<Rightarrow>
          if vtype (nodes s i) \<noteq> TYPE_FILE then Some (-1, s)
          else let bs = take VFS_MAX_FILE_SIZE data
          in do { (ok, s1) \<leftarrow> grow_file i (length bs) s;
                  if \<not> ok then Some (-1, s1) else Some (int (length bs), store_file i bs s1) })"

definition vfs_write :: "u8 list \<Rightarrow> u8 list \<Rightarrow> vfs \<Rightarrow> (int \<times> vfs) option" where
  "vfs_write path data s =
     (case parse_drive s path of (d, p) \<Rightarrow>
        if d = DRIVE_D then with_fat s (fat_write_file (vfat s) p data)
        else if cur_drive s = DRIVE_D \<and> \<not> on_c path then with_fat s (fat_write_file (vfat s) path data)
        else do { n \<leftarrow> vfs_lookup s path;
          if n = None then
            do { (r, s1) \<leftarrow> vfs_create_file path s;
                 if r \<noteq> 0 then Some (-1, s1) else do { n1 \<leftarrow> vfs_lookup s1 path; write_node n1 data s1 } }
          else write_node n data s })"

text \<open>The bytes read; the inner \<open>None\<close> stands for -1.\<close>

definition vfs_read :: "u8 list \<Rightarrow> nat \<Rightarrow> vfs \<Rightarrow> u8 list option option" where
  "vfs_read path maxlen s =
     (case parse_drive s path of (d, p) \<Rightarrow>
        if d = DRIVE_D then fat_read_file (vfat s) p maxlen
        else if cur_drive s = DRIVE_D \<and> \<not> on_c path then fat_read_file (vfat s) path maxlen
        else do { n \<leftarrow> vfs_lookup s path;
          Some (case n of None \<Rightarrow> None
            | Some i \<Rightarrow> if vtype (nodes s i) \<noteq> TYPE_FILE then None
                else Some (mem_load (hmem (vheap s)) (unat (vdata (nodes s i))) (min (vsize (nodes s i)) maxlen))) })"

section \<open>Removing\<close>

text \<open>A \<open>vfs_node_t **\<close> of the removal loop: the \<open>child\<close> field of the parent or the \<open>sibling\<close> field of a node.\<close>

datatype node_link = Child_of nat | Sibling_of nat

fun link_get :: "vfs \<Rightarrow> node_link \<Rightarrow> nat option" where
  "link_get s (Child_of i) = child (nodes s i)"
| "link_get s (Sibling_of i) = sibling (nodes s i)"

fun link_set :: "node_link \<Rightarrow> nat option \<Rightarrow> vfs \<Rightarrow> vfs" where
  "link_set (Child_of i) v s = upd_node i (\<lambda>x. x\<lparr>child := v\<rparr>) s"
| "link_set (Sibling_of i) v s = upd_node i (\<lambda>x. x\<lparr>sibling := v\<rparr>) s"

partial_function (option) unlink_loop :: "vfs \<Rightarrow> node_link \<Rightarrow> nat \<Rightarrow> vfs option" where
  "unlink_loop s pp n =
     (case link_get s pp of None \<Rightarrow> Some s
      | Some c \<Rightarrow> if c = n then Some (link_set pp (sibling (nodes s n)) s) else unlink_loop s (Sibling_of c) n)"

definition vfs_unlink :: "u8 list \<Rightarrow> vfs \<Rightarrow> (int \<times> vfs) option" where
  "vfs_unlink path s =
     (case parse_drive s path of (d, p) \<Rightarrow>
        if d = DRIVE_D then with_fat s (fat_unlink (vfat s) p)
        else if cur_drive s = DRIVE_D \<and> \<not> on_c path then with_fat s (fat_unlink (vfat s) path)
        else do { n \<leftarrow> vfs_lookup s path;
          case n of None \<Rightarrow> Some (-1, s)
          | Some i \<Rightarrow>
              if i = root s \<or> vtype (nodes s i) = TYPE_DIR \<and> child (nodes s i) \<noteq> None then Some (-1, s)
              else case parent (nodes s i) of None \<Rightarrow> Some (-1, s)
                | Some par \<Rightarrow>
                    do { s1 \<leftarrow> unlink_loop s (Child_of par) i;
                         Some (0, upd_node i (\<lambda>x. x\<lparr>vtype := TYPE_NONE, vname := []\<rparr>) s1) } })"

section \<open>Listing\<close>

partial_function (option) list_children :: "vfs \<Rightarrow> nat option \<Rightarrow> u8 list option" where
  "list_children s c =
     (case c of None \<Rightarrow> Some []
      | Some i \<Rightarrow>
          let n = nodes s i;
              line = (if vtype n = TYPE_DIR then map of_char '' <DIR>  '' else replicate 8 32) @ vname n @
                (if vtype n = TYPE_FILE then [32, 32] @ dec_chars (of_nat (vsize n)) else []) @ [10]
          in do { more \<leftarrow> list_children s (sibling n); Some (line @ more) })"

definition vfs_list :: "u8 list \<Rightarrow> vfs \<Rightarrow> u8 list option" where
  "vfs_list path s =
     (case (if path \<noteq> [] then parse_drive s path else (cur_drive s, path)) of (d, p) \<Rightarrow>
        if d = DRIVE_D then
          do { out \<leftarrow> fat_list (vfat s) p;
               Some (map of_char ''Directory of D:'' @ (if p \<noteq> [] then 47 # p else []) @ [10] @ out) }
        else do { n \<leftarrow> (if path \<noteq> [] then vfs_lookup s path else Some (Some (cwd s)));
          case n of None \<Rightarrow> Some (map of_char ''not found'' @ [10])
          | Some i \<Rightarrow>
              if vtype (nodes s i) = TYPE_FILE
              then Some (vname (nodes s i) @ map of_char ''  (file) '' @ dec_chars (of_nat (vsize (nodes s i))) @ map of_char '' bytes'' @ [10])
              else do { out \<leftarrow> list_children s (child (nodes s i));
                        Some (map of_char ''Directory of C:/'' @ vname (nodes s i) @ [10] @ out) } })"

section \<open>Initialisation\<close>

definition empty_node :: vfs_node where
  "empty_node = \<lparr>vname = [], vtype = TYPE_NONE, parent = None, child = None, sibling = None, vdata = 0, vsize = 0, capacity = 0\<rparr>"

definition vfs_root :: "vfs \<Rightarrow> vfs" where
  "vfs_root s =
     (case alloc_node [] TYPE_DIR None (s\<lparr>node_count := 0, nodes := (\<lambda>_. empty_node)\<rparr>) of (r, s1) \<Rightarrow>
        let i = (case r of None \<Rightarrow> 0 | Some i \<Rightarrow> i) in s1\<lparr>root := i, cwd := i, cur_drive := DRIVE_C\<rparr>)"

definition welcome_text :: "u8 list" where
  "welcome_text = map of_char ''Welcome to GNU/Windows'' @ [10] @ map of_char ''GWKernel RAMFS on C:'' @ [10]"

definition vfs_init :: "vfs \<Rightarrow> vfs option" where
  "vfs_init s =
     do { (_, s1) \<leftarrow> vfs_mkdir (map of_char ''Windows'') (vfs_root s);
          (_, s2) \<leftarrow> vfs_mkdir (map of_char ''Users'') s1;
          (_, s3) \<leftarrow> vfs_mkdir (map of_char ''Users/root'') s2;
          (_, s4) \<leftarrow> vfs_mkdir (map of_char ''Program Files'') s3;
          (_, s5) \<leftarrow> vfs_mkdir (map of_char ''System'') s4;
          (_, s6) \<leftarrow> vfs_mkdir (map of_char ''Temp'') s5;
          (_, s7) \<leftarrow> vfs_chdir (map of_char ''Users/root'') s6;
          (_, s8) \<leftarrow> vfs_write (map of_char ''readme.txt'') (take 44 welcome_text) s7;
          Some s8 }"

end
