(* ===== verification/Vfs_Inv.thy ===== *)
theory Vfs_Inv
  imports Vfs
begin

text \<open>
  Invariants of the virtual file system. The links of the node tree respect the order of
  allocation, so every walk ends; each file owns a block of the kernel heap of its own, so that writing a file
  touches no other file.
\<close>

section \<open>The node tree\<close>

definition tree_ok :: "vfs \<Rightarrow> bool" where
  "tree_ok s \<longleftrightarrow> node_count s \<le> VFS_MAX_NODES \<and> root s < node_count s \<and> cwd s < node_count s \<and>
     (\<forall>i < node_count s. (\<forall>p. parent (nodes s i) = Some p \<longrightarrow> p < i) \<and> (\<forall>j. sibling (nodes s i) = Some j \<longrightarrow> j < i) \<and>
        (\<forall>c. child (nodes s i) = Some c \<longrightarrow> c < node_count s))"

abbreviation valid :: "vfs \<Rightarrow> nat option \<Rightarrow> bool" where "valid s c \<equiv> (\<forall>i. c = Some i \<longrightarrow> i < node_count s)"

lemma find_child_total:
  assumes "tree_ok s" "valid s c"
  shows "\<exists>r. find_child s c part = Some r \<and> valid s r"
proof -
  have "\<exists>r. find_child s (Some i) part = Some r \<and> valid s r" if "i < node_count s" for i
    using that
  proof (induction i rule: less_induct)
    case (less i)
    show ?case
    proof (cases "vname (nodes s i) = part \<or> sibling (nodes s i) = None")
      case True
      then show ?thesis using less.prems by (subst find_child.simps) (auto simp: find_child.simps[of s None])
    next
      case False
      then obtain j where j: "sibling (nodes s i) = Some j" "j < i" using assms(1) less.prems by (auto simp: tree_ok_def)
      then show ?thesis using less.IH[OF j(2)] less.prems False by (subst find_child.simps) auto
    qed
  qed
  then show ?thesis using assms(2) by (cases c) (auto simp: find_child.simps[of s None])
qed

lemma lookup_loop_total:
  assumes "tree_ok s"
  shows "cur < node_count s \<Longrightarrow> \<exists>r. lookup_loop s cur path = Some r \<and> valid s r"
  using assms
proof (induction s cur path rule: lookup_loop.induct)
  case (1 s cur path)
  show ?case
  proof (cases "path = []")
    case False
    let ?part = "takeWhile (\<lambda>c. \<not> is_sep c) (take (VFS_NAME_MAX - 1) path)"
    let ?rest = "dropWhile is_sep (drop (length ?part) path)"
    let ?up = "case parent (nodes s cur) of None \<Rightarrow> cur | Some p \<Rightarrow> p"
    note eq = lookup_loop.simps[of s cur path]
    have up: "?up < node_count s" using "1.prems" by (auto simp: tree_ok_def split: option.split)
    consider (skip) "?part = [] \<or> ?part = [46]" | (dots) "\<not> (?part = [] \<or> ?part = [46])" "?part = [46, 46]"
      | (child) "\<not> (?part = [] \<or> ?part = [46])" "?part \<noteq> [46, 46]" by blast
    then show ?thesis
    proof cases
      case skip
      then have "lookup_loop s cur path = lookup_loop s cur ?rest" using False eq by (simp only: Let_def if_False if_True)
      then show ?thesis using "1.IH"(1)[OF False refl refl skip] "1.prems" by metis
    next
      case dots
      then have "lookup_loop s cur path = lookup_loop s ?up ?rest" using False eq by (simp only: Let_def if_False if_True simp_thms)
      then show ?thesis using "1.IH"(2)[OF False refl refl dots] up "1.prems" by metis
    next
      case child
      have cv: "valid s (child (nodes s cur))" using "1.prems" by (simp add: tree_ok_def)
      obtain r where r: "find_child s (child (nodes s cur)) ?part = Some r" "valid s r"
        using find_child_total[OF "1.prems"(2) cv, of ?part] by blast
      show ?thesis
      proof (cases "vtype (nodes s cur) = TYPE_DIR \<and> r \<noteq> None")
        case True
        then obtain c where c: "r = Some c" "c < node_count s" using r(2) by auto
        then have "lookup_loop s cur path = lookup_loop s c ?rest" using False eq child True r(1) by (simp only: Let_def if_False if_True simp_thms option.case)
        then show ?thesis using "1.IH"(3)[OF False refl refl child _ r(1)[unfolded c(1)] refl] True c(2) "1.prems" by metis
      next
        case no: False
        then have "lookup_loop s cur path = Some None" using False eq child r(1)
          by (cases "vtype (nodes s cur) = TYPE_DIR") (simp_all only: Let_def if_False if_True simp_thms option.case)
        then show ?thesis by simp
      qed
    qed
  qed (use "1.prems" in \<open>simp add: lookup_loop.simps\<close>)
qed

lemma lookup_rel_total: "tree_ok s \<Longrightarrow> base < node_count s \<Longrightarrow> \<exists>r. lookup_rel s base path = Some r \<and> valid s r"
  using lookup_loop_total[of s base "strip_c path"] by (simp add: lookup_rel_def)

lemma vfs_lookup_returns:
  assumes "tree_ok s"
  shows "\<exists>r. vfs_lookup s path = Some r \<and> valid s r"
proof -
  have "root s < node_count s" "cwd s < node_count s" using assms by (simp_all add: tree_ok_def)
  then show ?thesis using lookup_rel_total[OF assms] by (simp add: vfs_lookup_def)
qed

lemma new_place_returns:
  assumes "tree_ok s"
  shows "\<exists>r. new_place s path = Some r \<and> (\<forall>p name. r = Some (p, name) \<longrightarrow> p < node_count s)"
proof -
  obtain pp name where sp: "split_parent path = (pp, name)" by fastforce
  obtain r where r: "(if pp \<noteq> [] then vfs_lookup s pp else Some (Some (cwd s))) = Some r" "valid s r"
    using vfs_lookup_returns[OF assms, of pp] assms by (cases "pp = []") (auto simp: tree_ok_def)
  show ?thesis
  proof (cases r)
    case None
    then show ?thesis using sp r by (simp add: new_place_def)
  next
    case (Some p)
    then obtain q where "lookup_rel s p name = Some q" using lookup_rel_total[OF assms, of p name] r(2) by auto
    then show ?thesis using sp r Some by (simp add: new_place_def)
  qed
qed

lemma alloc_node_tree:
  assumes "tree_ok s" "alloc_node name type (Some p) s = (r, s')" "p < node_count s"
  shows "tree_ok s'" "r = Some i \<Longrightarrow> i = node_count s \<and> node_count s' = Suc i" "r = None \<Longrightarrow> s' = s"
proof -
  show "r = Some i \<Longrightarrow> i = node_count s \<and> node_count s' = Suc i" "r = None \<Longrightarrow> s' = s"
    using assms(2) by (auto simp: alloc_node_def Let_def split: if_splits)
  show "tree_ok s'"
  proof (cases "node_count s \<ge> VFS_MAX_NODES")
    case True
    then show ?thesis using assms(1,2) by (simp add: alloc_node_def)
  next
    case False
    then show ?thesis using assms unfolding tree_ok_def alloc_node_def Let_def
      by (auto simp: less_Suc_eq split: if_splits)
  qed
qed

lemma upd_node_tree:
  assumes "tree_ok s" "parent (f (nodes s i)) = parent (nodes s i)" "sibling (f (nodes s i)) = sibling (nodes s i)"
    "child (f (nodes s i)) = child (nodes s i)"
  shows "tree_ok (upd_node i f s)"
  using assms by (simp add: tree_ok_def)

lemma unlink_loop_total:
  assumes "tree_ok s" "valid s (link_get s pp)" "case pp of Child_of i \<Rightarrow> i < node_count s | Sibling_of i \<Rightarrow> i < node_count s"
  shows "\<exists>s'. unlink_loop s pp n = Some s' \<and> tree_ok s'"
  using assms(2,3)
proof (induction "case link_get s pp of None \<Rightarrow> 0 | Some c \<Rightarrow> Suc c" arbitrary: pp rule: less_induct)
  case less
  show ?case
  proof (cases "link_get s pp")
    case None
    then show ?thesis using assms(1) by (subst unlink_loop.simps) simp
  next
    case (Some c)
    have c: "c < node_count s" using less.prems Some by simp
    then have sib: "\<And>j. sibling (nodes s c) = Some j \<Longrightarrow> j < c" using assms(1) by (simp add: tree_ok_def)
    show ?thesis
    proof (cases "c = n")
      case True
      have "tree_ok (link_set pp (sibling (nodes s n)) s)"
      proof (cases pp)
        case (Child_of i)
        have "\<And>j. sibling (nodes s n) = Some j \<Longrightarrow> j < node_count s" using sib c True by (meson less_trans)
        then show ?thesis using assms(1) Child_of by (simp add: tree_ok_def)
      next
        case (Sibling_of i)
        then have "c < i" using assms(1) Some less.prems by (simp add: tree_ok_def)
        then have "\<And>j. sibling (nodes s n) = Some j \<Longrightarrow> j < i" using sib True by (meson less_trans)
        then show ?thesis using assms(1) Sibling_of by (simp add: tree_ok_def)
      qed
      then show ?thesis using Some True by (subst unlink_loop.simps) simp
    next
      case False
      have "\<exists>s'. unlink_loop s (Sibling_of c) n = Some s' \<and> tree_ok s'"
        by (rule less.hyps) (use Some sib c in \<open>auto split: option.split dest: less_trans\<close>)
      then show ?thesis using Some False by (subst unlink_loop.simps) simp
    qed
  qed
qed

text \<open>Two states with the same tree; file contents, heap and FAT volume may differ.\<close>

definition same_tree :: "vfs \<Rightarrow> vfs \<Rightarrow> bool" where
  "same_tree s s' \<longleftrightarrow> node_count s' = node_count s \<and> root s' = root s \<and> cwd s' = cwd s \<and> cur_drive s' = cur_drive s \<and>
     (\<forall>j. vname (nodes s' j) = vname (nodes s j) \<and> vtype (nodes s' j) = vtype (nodes s j) \<and> parent (nodes s' j) = parent (nodes s j) \<and>
        child (nodes s' j) = child (nodes s j) \<and> sibling (nodes s' j) = sibling (nodes s j))"

lemma same_tree_trans: "same_tree s s1 \<Longrightarrow> same_tree s1 s2 \<Longrightarrow> same_tree s s2"
  by (simp add: same_tree_def)

lemma find_child_same:
  assumes "same_tree s s'" "tree_ok s" "valid s c"
  shows "find_child s' c part = find_child s c part"
proof -
  have "find_child s' (Some i) part = find_child s (Some i) part" if "i < node_count s" for i
    using that
  proof (induction i rule: less_induct)
    case (less i)
    have e: "vname (nodes s' i) = vname (nodes s i)" "sibling (nodes s' i) = sibling (nodes s i)" using assms(1) by (simp_all add: same_tree_def)
    have "find_child s' (sibling (nodes s i)) part = find_child s (sibling (nodes s i)) part"
    proof (cases "sibling (nodes s i)")
      case (Some j)
      then have "j < i" using assms(2) less.prems by (simp add: tree_ok_def)
      then show ?thesis using less Some by simp
    qed (simp add: find_child.simps[of _ None])
    then show ?case using e by (simp add: find_child.simps[of _ "Some i"])
  qed
  then show ?thesis using assms(3) by (cases c) (simp_all add: find_child.simps[of _ None])
qed

lemma lookup_loop_same:
  assumes "same_tree s s'" "tree_ok s"
  shows "cur < node_count s \<Longrightarrow> lookup_loop s' cur path = lookup_loop s cur path"
proof (induction "length path" arbitrary: cur path rule: less_induct)
  case less
  define part where "part = takeWhile (\<lambda>c. \<not> is_sep c) (take (VFS_NAME_MAX - 1) path)"
  define rest where "rest = dropWhile is_sep (drop (length part) path)"
  let ?up = "case parent (nodes s cur) of None \<Rightarrow> cur | Some p \<Rightarrow> p"
  have e: "vtype (nodes s' cur) = vtype (nodes s cur)" "parent (nodes s' cur) = parent (nodes s cur)" "child (nodes s' cur) = child (nodes s cur)"
    using assms(1) by (simp_all add: same_tree_def)
  have cv: "valid s (child (nodes s cur))" using assms(2) less.prems by (simp add: tree_ok_def)
  have up: "?up < node_count s" using assms(2) less.prems by (auto simp: tree_ok_def split: option.split)
  have fc: "find_child s' (child (nodes s cur)) part = find_child s (child (nodes s cur)) part"
    by (rule find_child_same[OF assms cv])
  show ?case
  proof (cases "path = []")
    case False
    have "length rest < length path" using lookup_shorter[OF False, of part] by (simp add: part_def rest_def)
    then have ih: "c < node_count s \<Longrightarrow> lookup_loop s' c rest = lookup_loop s c rest" for c using less.hyps by blast
    obtain r where r: "find_child s (child (nodes s cur)) part = Some r" "valid s r"
      using find_child_total[OF assms(2) cv, of part] by blast
    have "(case r of None \<Rightarrow> Some None | Some c \<Rightarrow> lookup_loop s' c rest) = (case r of None \<Rightarrow> Some None | Some c \<Rightarrow> lookup_loop s c rest)"
      using r(2) ih by (cases r) auto
    then show ?thesis unfolding lookup_loop.simps[of s' cur path] lookup_loop.simps[of s cur path] Let_def part_def[symmetric] rest_def[symmetric] e fc r(1)
      using ih[OF up] ih[OF less.prems] by simp
  qed (simp add: lookup_loop.simps)
qed

lemma lookup_same:
  assumes "same_tree s s'" "tree_ok s"
  shows "vfs_lookup s' path = vfs_lookup s path"
proof -
  have "root s < node_count s" "cwd s < node_count s" using assms(2) by (simp_all add: tree_ok_def)
  then show ?thesis using assms lookup_loop_same[OF assms]
    by (simp add: vfs_lookup_def lookup_rel_def parse_drive_def same_tree_def)
qed

section \<open>Files in the heap\<close>

abbreviation is_file :: "vfs \<Rightarrow> nat \<Rightarrow> bool" where "is_file s i \<equiv> i < node_count s \<and> vtype (nodes s i) = TYPE_FILE"

text \<open>File \<open>i\<close> has the heap block \<open>f i\<close>, of at least its capacity, for itself.\<close>

definition files_in :: "vfs \<Rightarrow> block list \<Rightarrow> (nat \<Rightarrow> block) \<Rightarrow> bool" where
  "files_in s bl f \<longleftrightarrow> inj_on f {i. is_file s i} \<and>
     (\<forall>i. is_file s i \<longrightarrow> f i \<in> set bl \<and> vdata (nodes s i) \<noteq> 0 \<and> vsize (nodes s i) \<le> capacity (nodes s i) \<and>
        owns (hmem (vheap s)) (unat (vdata (nodes s i))) (capacity (nodes s i)) (f i))"

definition vfs_ok :: "vfs \<Rightarrow> bool" where
  "vfs_ok s \<longleftrightarrow> tree_ok s \<and> heap_ready (vheap s) \<and> (\<exists>fl bl f. heap_ok (vheap s) fl bl \<and> files_in s bl f)"

definition content :: "vfs \<Rightarrow> nat \<Rightarrow> u8 list" where
  "content s i = mem_load (hmem (vheap s)) (unat (vdata (nodes s i))) (vsize (nodes s i))"

text \<open>The files of \<open>s\<close> other than \<open>n\<close> are unchanged in \<open>s'\<close>.\<close>

definition others_kept :: "nat \<Rightarrow> vfs \<Rightarrow> vfs \<Rightarrow> bool" where
  "others_kept n s s' \<longleftrightarrow> (\<forall>j. is_file s j \<and> j \<noteq> n \<longrightarrow> is_file s' j \<and> vname (nodes s' j) = vname (nodes s j) \<and>
     parent (nodes s' j) = parent (nodes s j) \<and> content s' j = content s j)"

lemma others_kept_trans: "others_kept n s s1 \<Longrightarrow> others_kept n s1 s2 \<Longrightarrow> others_kept n s s2"
  by (simp add: others_kept_def)

lemma owns_agree:
  assumes "agree (region x) m m'" "owns m p n x"
  shows "owns m' p n x"
proof -
  have e: "m a = m' a" if "fst x \<le> a" "a < fst x + 24 + snd x" for a using assms(1) that by (auto simp: agree_def region_def)
  have "rd64 m (p - 8) = rd64 m' (p - 8)" if "fst x + 32 \<le> p"
    using assms(2) that by (intro rd64_cong e) (auto simp: owns_def)
  then show ?thesis using assms(2) by (auto simp: owns_def)
qed

lemma content_agree:
  assumes "agree (region x) (hmem (vheap s)) (hmem (vheap s'))" "owns (hmem (vheap s)) (unat (vdata (nodes s i))) c x"
    "vsize (nodes s i) \<le> c" "vdata (nodes s' i) = vdata (nodes s i)" "vsize (nodes s' i) = vsize (nodes s i)"
  shows "content s' i = content s i"
  using assms owns_inside[OF assms(2)] unfolding content_def
  by (auto simp: mem_load_def agree_def region_def)

lemma store_in_block:
  assumes "heap_ok h fl bl" "x \<in> set bl" "owns (hmem h) p n x" "length bs \<le> n"
  defines "h' \<equiv> on_mem (\<lambda>m. mem_store m p bs) h"
  shows "heap_ok h' fl bl" "agree (- region x) (hmem h) (hmem h')" "owns (hmem h') p n x"
proof -
  have r: "{p..<p + length bs} \<subseteq> {fst x + 24..<fst x + 24 + snd x}" using owns_inside[OF assms(3)] assms(4) by auto
  have e: "hmem h a = mem_store (hmem h) p bs a" if "a \<notin> {p..<p + length bs}" for a
    using that by (intro mem_store_other[symmetric]) auto
  show "heap_ok h' fl bl" unfolding h'_def
    by (rule heap_ok_user_write[OF assms(1,2)]) (use r e in \<open>auto simp: agree_def\<close>)
  show "agree (- region x) (hmem h) (hmem h')" using r e by (auto simp: agree_def h'_def region_def)
  have "mem_store (hmem h) p bs (p - 8 + i) = hmem h (p - 8 + i)" if "fst x + 32 \<le> p" "i < 8" for i
    by (rule mem_store_other) (use that in linarith)
  then have "rd64 (hmem h') (p - 8) = rd64 (hmem h) (p - 8)" if "fst x + 32 \<le> p"
    using that by (intro rd64_cong) (simp add: h'_def)
  then show "owns (hmem h') p n x" using assms(3) by (auto simp: owns_def)
qed

lemma files_disjoint:
  assumes "heap_ok h fl bl" "files_in s bl f" "is_file s i" "is_file s j" "i \<noteq> j"
  shows "region (f i) \<inter> region (f j) = {}"
proof -
  have "f i \<noteq> f j" using assms(2-5) by (auto simp: files_in_def inj_on_def)
  moreover have "disj bl" using assms(1) by (simp add: heap_ok_def disj_append)
  ultimately show ?thesis using disj_mem[of bl "f i" "f j"] assms(2-4) by (simp add: files_in_def)
qed

lemma store_file_ok:
  assumes ok: "vfs_ok s" and n: "is_file s n" and len: "length bs \<le> capacity (nodes s n)"
  shows "vfs_ok (store_file n bs s)" "others_kept n s (store_file n bs s)" "content (store_file n bs s) n = bs"
proof -
  let ?s = "store_file n bs s"
  obtain fl bl f where h: "heap_ok (vheap s) fl bl" and fi: "files_in s bl f" and tr: "tree_ok s" and hr: "heap_ready (vheap s)"
    using ok by (auto simp: vfs_ok_def)
  have own: "f n \<in> set bl" "owns (hmem (vheap s)) (unat (vdata (nodes s n))) (capacity (nodes s n)) (f n)"
    using fi n by (simp_all add: files_in_def)
  note st = store_in_block[OF h own len]
  have hp: "vheap ?s = on_mem (\<lambda>m. mem_store m (unat (vdata (nodes s n))) bs) (vheap s)" by (simp add: store_file_def)
  have nd: "vtype (nodes ?s j) = vtype (nodes s j)" "vdata (nodes ?s j) = vdata (nodes s j)" "capacity (nodes ?s j) = capacity (nodes s j)"
    "vname (nodes ?s j) = vname (nodes s j)" "parent (nodes ?s j) = parent (nodes s j)"
    "vsize (nodes ?s j) = (if j = n then length bs else vsize (nodes s j))" "node_count ?s = node_count s" for j
    by (simp_all add: store_file_def)
  have ag: "agree (region (f j)) (hmem (vheap s)) (hmem (vheap ?s))" if "is_file s j" "j \<noteq> n" for j
    using files_disjoint[OF h fi that(1) n that(2)] agree_subset[OF st(2)] hp by auto
  have "files_in ?s bl f"
    unfolding files_in_def nd
  proof (intro conjI allI impI)
    show "inj_on f {i. i < node_count s \<and> vtype (nodes s i) = TYPE_FILE}" using fi by (simp add: files_in_def)
    fix j assume j: "is_file s j"
    show "f j \<in> set bl" "vdata (nodes s j) \<noteq> 0" "(if j = n then length bs else vsize (nodes s j)) \<le> capacity (nodes s j)"
      using fi j len by (auto simp: files_in_def)
    show "owns (hmem (vheap ?s)) (unat (vdata (nodes s j))) (capacity (nodes s j)) (f j)"
      using owns_agree[OF ag[OF j]] fi j st(3) hp by (cases "j = n") (auto simp: files_in_def)
  qed
  moreover have "tree_ok ?s" using tr by (simp add: tree_ok_def store_file_def)
  moreover have "heap_ready (vheap ?s)" using hr hp by simp
  ultimately show "vfs_ok ?s" using st(1) hp unfolding vfs_ok_def by metis
  have "content ?s j = content s j" if j: "is_file s j" "j \<noteq> n" for j
    by (rule content_agree[OF ag[OF j]]) (use fi j nd in \<open>auto simp: files_in_def\<close>)
  then show "others_kept n s ?s" using nd by (simp add: others_kept_def)
  show "content ?s n = bs" using hp by (simp add: content_def nd)
qed

section \<open>New blocks\<close>

lemma kmalloc_new:
  assumes "heap_ok h fl bl" "heap_ready h" "0 < n" "n < 2 ^ 32"
  obtains (fail) "kmalloc (of_nat n) h = Some (0, h)"
  | (new) ptr h' fl' x where "kmalloc (of_nat n) h = Some (ptr, h')" "ptr \<noteq> 0" "heap_ok h' fl' (x # bl)" "heap_ready h'"
      "owns (hmem h') (unat ptr) n x" "agree (cover bl) (hmem h) (hmem h')" "agree (foreign h fl) (hmem h) (hmem h')"
      "foreign h' fl' = foreign h fl \<union> region x" "foreign h fl \<inter> region x = {}"
proof -
  have n: "unat (of_nat n :: u64) = n" using assms(4) by (simp add: unat_of_nat_u64)
  have nz: "(of_nat n :: u64) \<noteq> 0" using n assms(3) by auto
  have req: "request_ok (of_nat n) HEAP_ALIGN" using n assms(4) by (simp add: request_ok_def over_aligned_def)
  from assms(1,2) req nz show thesis
  proof (cases rule: kmalloc_aligned_cases)
    case fail
    then show thesis using that(1) by (simp add: kmalloc_def)
  next
    case (success h' ptr)
    then obtain fl' x where A: "heap_ok h' fl' (x # bl)" "ptr \<noteq> 0" "owns (hmem h') (unat ptr) n x"
      "agree (foreign h fl) (hmem h) (hmem h')" "heap_ready h'" "foreign h' fl' = foreign h fl \<union> region x"
      "foreign h fl \<inter> region x = {}" using assms(2) n unfolding allocated_def by auto
    have "agree (cover bl) (hmem h) (hmem h')" using agree_subset[OF A(4)] cover_bl_foreign[OF assms(1)] by simp
    then show thesis using that(2)[of ptr h' fl' x] success(1) A by (simp add: kmalloc_def)
  qed
qed

text \<open>Node \<open>n\<close> of \<open>s'\<close> is given the new block \<open>x\<close>; everything else is as in \<open>s\<close>.\<close>

lemma attach_block:
  assumes fi: "files_in s bl f" and h': "heap_ok (vheap s') fl' (x # bl)" "heap_ready (vheap s')" and tr: "tree_ok s'"
    and ag: "agree (cover bl) (hmem (vheap s)) (hmem (vheap s'))"
    and eq: "\<And>j. j \<noteq> n \<Longrightarrow> is_file s' j = is_file s j \<and> vname (nodes s' j) = vname (nodes s j) \<and> parent (nodes s' j) = parent (nodes s j) \<and>
        vdata (nodes s' j) = vdata (nodes s j) \<and> vsize (nodes s' j) = vsize (nodes s j) \<and> capacity (nodes s' j) = capacity (nodes s j)"
    and n: "vdata (nodes s' n) \<noteq> 0" "vsize (nodes s' n) \<le> capacity (nodes s' n)"
      "owns (hmem (vheap s')) (unat (vdata (nodes s' n))) (capacity (nodes s' n)) x"
  shows "vfs_ok s'" "others_kept n s s'"
proof -
  have reg: "agree (region (f j)) (hmem (vheap s)) (hmem (vheap s'))" if "is_file s j" for j
    using agree_subset[OF ag] fi that by (auto simp: files_in_def cover_def)
  have "region x \<inter> cover bl = {}" using h'(1) by (simp add: heap_ok_def disj_append)
  moreover have "fst x \<in> region x" by (simp add: region_def)
  ultimately have nx: "x \<notin> set bl" by (auto simp: cover_def)
  let ?f = "f(n := x)"
  have "files_in s' (x # bl) ?f"
    unfolding files_in_def
  proof (intro conjI allI impI)
    show "inj_on ?f {i. is_file s' i}"
      using fi eq nx unfolding files_in_def inj_on_def by (auto simp: fun_upd_def)
    fix j assume j: "is_file s' j"
    show "?f j \<in> set (x # bl)" "vdata (nodes s' j) \<noteq> 0" "vsize (nodes s' j) \<le> capacity (nodes s' j)"
      using fi eq[of j] n j by (cases "j = n"; simp add: files_in_def)+
    show "owns (hmem (vheap s')) (unat (vdata (nodes s' j))) (capacity (nodes s' j)) (?f j)"
    proof (cases "j = n")
      case False
      then show ?thesis using owns_agree[OF reg] fi eq[OF False] j by (simp add: files_in_def)
    qed (use n in simp)
  qed
  then show "vfs_ok s'" using h' tr unfolding vfs_ok_def by blast
  have "content s' j = content s j" if "is_file s j" "j \<noteq> n" for j
    by (rule content_agree[OF reg[OF that(1)]]) (use fi eq[OF that(2)] that(1) in \<open>auto simp: files_in_def\<close>)
  then show "others_kept n s s'" using eq by (simp add: others_kept_def)
qed

lemma grow_file_ok:
  assumes ok: "vfs_ok s" and n: "is_file s n" and len: "len \<le> VFS_MAX_FILE_SIZE"
  shows "grow_file n len s = Some (False, s) \<or>
    (\<exists>s'. grow_file n len s = Some (True, s') \<and> vfs_ok s' \<and> others_kept n s s' \<and> len \<le> capacity (nodes s' n) \<and>
      same_tree s s')"
proof (cases "len > capacity (nodes s n)")
  case False
  then show ?thesis using ok by (auto simp: grow_file_def others_kept_def same_tree_def)
next
  case True
  let ?nc = "min (len + 256) VFS_MAX_FILE_SIZE" and ?old = "mem_load (hmem (vheap s)) (unat (vdata (nodes s n))) (vsize (nodes s n))"
  obtain fl bl f where h: "heap_ok (vheap s) fl bl" "heap_ready (vheap s)" and fi: "files_in s bl f" and tr: "tree_ok s"
    using ok by (auto simp: vfs_ok_def)
  have nc: "0 < ?nc" "?nc < 2 ^ 32" "len \<le> ?nc" using len by auto
  from h nc(1,2) show ?thesis
  proof (cases rule: kmalloc_new)
    case fail
    then show ?thesis using True by (simp add: grow_file_def Let_def)
  next
    case (new ptr h' fl' x)
    let ?cp = "mem_load (hmem h') (unat (vdata (nodes s n))) (vsize (nodes s n))"
    define h2 where "h2 = on_mem (\<lambda>m. mem_store m (unat ptr) ?cp) h'"
    have sz: "vsize (nodes s n) \<le> ?nc" using fi n True nc(3) by (auto simp: files_in_def)
    have xin: "x \<in> set (x # bl)" by simp
    note st = store_in_block[OF new(3) xin new(5), of ?cp, folded h2_def]
    have "region x \<inter> cover bl = {}" using new(3) by (simp add: heap_ok_def disj_append)
    then have "cover bl \<subseteq> - region x" by auto
    then have ag: "agree (cover bl) (hmem (vheap s)) (hmem h2)" using agree_trans[OF new(6) agree_subset[OF st(2)]] sz by simp
    let ?s' = "upd_node n (\<lambda>x. x\<lparr>vdata := ptr, capacity := ?nc\<rparr>) s\<lparr>vheap := h2\<rparr>"
    have "grow_file n len s = Some (True, ?s')" using True new(1,2) by (simp add: grow_file_def Let_def h2_def)
    moreover have tr': "tree_ok ?s'" using tr by (auto simp: tree_ok_def)
    have hr: "heap_ready h2" using new(4) by (simp add: h2_def)
    have "vfs_ok ?s'" "others_kept n s ?s'"
      by (rule attach_block[OF fi, where s' = ?s' and n = n and x = x and fl' = fl', OF _ _ tr'];
          use st new(2) sz n ag hr in simp)+
    moreover have "same_tree s ?s'" by (simp add: same_tree_def)
    ultimately show ?thesis using nc(3) by auto
  qed
qed

section \<open>Operations on drive C:\<close>

definition at_c :: "vfs \<Rightarrow> u8 list \<Rightarrow> bool" where "at_c s path \<longleftrightarrow> cur_drive s = DRIVE_C \<and> \<not> on_d path"

lemma at_c_parse: "at_c s path \<Longrightarrow> fst (parse_drive s path) = DRIVE_C"
  by (simp add: at_c_def parse_drive_def)

lemma vfs_okD:
  assumes "vfs_ok s"
  shows "tree_ok s" "heap_ready (vheap s)" "\<exists>fl bl f. heap_ok (vheap s) fl bl \<and> files_in s bl f"
  using assms by (simp_all add: vfs_ok_def)

lemma create_file_ok:
  assumes ok: "vfs_ok s" and c: "at_c s path"
  shows "\<exists>r s'. vfs_create_file path s = Some (r, s') \<and> tree_ok s' \<and>
    (r = 0 \<longrightarrow> vfs_ok s' \<and> others_kept (node_count s) s s' \<and> cur_drive s' = DRIVE_C)"
proof -
  obtain d p where pd: "parse_drive s path = (d, p)" by fastforce
  then have d: "d = DRIVE_C" using at_c_parse[OF c] by simp
  note tr = vfs_okD(1)[OF ok]
  obtain pl where pl: "new_place s path = Some pl" "\<And>q name. pl = Some (q, name) \<Longrightarrow> q < node_count s"
    using new_place_returns[OF tr] by blast
  have cc: "cur_drive s = DRIVE_C" using c by (simp add: at_c_def)
  show ?thesis
  proof (cases pl)
    case None
    then show ?thesis using pd d cc pl(1) tr by (simp add: vfs_create_file_def)
  next
    case (Some qn)
    then obtain q name where qn: "pl = Some (q, name)" "q < node_count s" using pl(2) by (cases qn) auto
    obtain r1 s1 where al: "alloc_node name TYPE_FILE (Some q) s = (r1, s1)" by fastforce
    note t1 = alloc_node_tree[OF tr al qn(2)]
    show ?thesis
    proof (cases r1)
      case None
      then show ?thesis using pd d cc pl(1) qn al t1(1) by (simp add: vfs_create_file_def)
    next
      case (Some n)
      have n: "n = node_count s" "node_count s1 = Suc n" using t1(2)[OF Some] by simp_all
      have s1: "vheap s1 = vheap s" "cur_drive s1 = DRIVE_C" "vtype (nodes s1 n) = TYPE_FILE" "vsize (nodes s1 n) = 0"
        using al Some cc n qn(2) by (auto simp: alloc_node_def Let_def split: if_splits)
      have same: "vname (nodes s1 j) = vname (nodes s j)" "parent (nodes s1 j) = parent (nodes s j)" "vtype (nodes s1 j) = vtype (nodes s j)"
        "vdata (nodes s1 j) = vdata (nodes s j)" "vsize (nodes s1 j) = vsize (nodes s j)" "capacity (nodes s1 j) = capacity (nodes s j)"
        if "j \<noteq> n" for j using al Some n that by (auto simp: alloc_node_def Let_def split: if_splits)
      obtain fl bl f where h: "heap_ok (vheap s) fl bl" "heap_ready (vheap s)" and fi: "files_in s bl f" using ok by (auto simp: vfs_ok_def)
      have eq: "vfs_create_file path s = do { (ptr, h) \<leftarrow> kmalloc 512 (vheap s);
          let s2 = upd_node n (\<lambda>x. x\<lparr>capacity := 512, vdata := ptr\<rparr>) s1\<lparr>vheap := h\<rparr>
          in if ptr = 0 then Some (-1, s2) else Some (0, upd_node n (\<lambda>x. x\<lparr>vsize := 0\<rparr>) s2) }"
        using pd d cc pl(1) qn al Some s1(1) by (simp add: vfs_create_file_def)
      have sz: "(512 :: u64) = of_nat 512" "0 < (512 :: nat)" "(512 :: nat) < 2 ^ 32" by simp_all
      from h sz(2,3) show ?thesis
      proof (cases rule: kmalloc_new)
        case fail
        have "tree_ok (upd_node n (\<lambda>x. x\<lparr>capacity := 512, vdata := 0\<rparr>) s1\<lparr>vheap := vheap s\<rparr>)" using t1(1) by (auto simp: tree_ok_def)
        then show ?thesis using eq fail by (simp add: Let_def)
      next
        case (new ptr h' fl' x)
        let ?s' = "upd_node n (\<lambda>x. x\<lparr>vsize := 0\<rparr>) (upd_node n (\<lambda>x. x\<lparr>capacity := 512, vdata := ptr\<rparr>) s1\<lparr>vheap := h'\<rparr>)"
        have "vfs_create_file path s = Some (0, ?s')" using eq new(1,2) by (simp add: Let_def)
        moreover have tr': "tree_ok ?s'" using t1(1) by (auto simp: tree_ok_def)
        moreover have isf: "is_file s1 j = is_file s j" if "j \<noteq> n" for j using same(3)[OF that] n that by auto
        have "vfs_ok ?s'" "others_kept n s ?s'"
          by (rule attach_block[OF fi, where s' = ?s' and n = n and x = x and fl' = fl', OF _ _ tr'];
              use isf new s1 same n in simp)+
        ultimately show ?thesis using s1(2) n(1) by simp
      qed
    qed
  qed
qed

lemma write_node_ok:
  assumes ok: "vfs_ok s" and v: "valid s n"
  shows "\<exists>r s'. write_node n data s = Some (r, s') \<and> tree_ok s' \<and> same_tree s s' \<and>
    (r \<noteq> -1 \<longrightarrow> r = int (length (take VFS_MAX_FILE_SIZE data)) \<and> vfs_ok s' \<and>
      (\<exists>i. n = Some i \<and> is_file s i \<and> content s' i = take VFS_MAX_FILE_SIZE data \<and> others_kept i s s'))"
proof (cases "\<exists>i. n = Some i \<and> vtype (nodes s i) = TYPE_FILE")
  case True
  then obtain i where i: "n = Some i" "is_file s i" using v by auto
  let ?bs = "take VFS_MAX_FILE_SIZE data"
  have len: "length ?bs \<le> VFS_MAX_FILE_SIZE" by simp
  note tr = vfs_okD(1)[OF ok]
  consider "grow_file i (length ?bs) s = Some (False, s)"
    | s1 where "grow_file i (length ?bs) s = Some (True, s1)" "vfs_ok s1" "others_kept i s s1" "length ?bs \<le> capacity (nodes s1 i)" "same_tree s s1"
    using grow_file_ok[OF ok i(2) len] by blast
  then show ?thesis
  proof cases
    case 1
    then show ?thesis using i tr by (simp add: write_node_def Let_def same_tree_def)
  next
    case 2
    have f1: "is_file s1 i" using i(2) 2(5) by (simp add: same_tree_def)
    note st = store_file_ok[OF 2(2) f1 2(4)]
    have "same_tree s1 (store_file i ?bs s1)" by (simp add: same_tree_def store_file_def)
    then have "same_tree s (store_file i ?bs s1)" by (rule same_tree_trans[OF 2(5)])
    moreover have "write_node n data s = Some (int (length ?bs), store_file i ?bs s1)" using i 2(1) by (simp add: write_node_def Let_def)
    ultimately show ?thesis using st vfs_okD(1)[OF st(1)] others_kept_trans[OF 2(3) st(2)] i by auto
  qed
next
  case False
  then show ?thesis using vfs_okD(1)[OF ok] by (cases n) (auto simp: write_node_def same_tree_def)
qed

lemma vfs_write_result:
  assumes ok: "vfs_ok s" and c: "at_c s path"
  shows "\<exists>r s'. vfs_write path data s = Some (r, s') \<and> tree_ok s' \<and>
    (r \<noteq> -1 \<longrightarrow> r = int (length (take VFS_MAX_FILE_SIZE data)) \<and> vfs_ok s' \<and> at_c s' path \<and>
      (\<exists>i. vfs_lookup s' path = Some (Some i) \<and> is_file s' i \<and> content s' i = take VFS_MAX_FILE_SIZE data \<and> others_kept i s s'))"
proof -
  obtain d p where pd: "parse_drive s path = (d, p)" by fastforce
  then have d: "d = DRIVE_C" "cur_drive s = DRIVE_C" using at_c_parse[OF c] c by (simp_all add: at_c_def)
  note tr = vfs_okD(1)[OF ok]
  obtain n where n: "vfs_lookup s path = Some n" "valid s n" using vfs_lookup_returns[OF tr] by blast
  have fin: "\<exists>r s'. write_node m data u = Some (r, s') \<and> tree_ok s' \<and>
      (r \<noteq> -1 \<longrightarrow> r = int (length (take VFS_MAX_FILE_SIZE data)) \<and> vfs_ok s' \<and> at_c s' path \<and>
        (\<exists>i. vfs_lookup s' path = Some (Some i) \<and> is_file s' i \<and> content s' i = take VFS_MAX_FILE_SIZE data \<and> others_kept i u s'))"
    if u: "vfs_ok u" "cur_drive u = DRIVE_C" "vfs_lookup u path = Some m" "valid u m" for u m
  proof -
    obtain r s' where w: "write_node m data u = Some (r, s')" "tree_ok s'" "same_tree u s'"
      "r \<noteq> -1 \<longrightarrow> r = int (length (take VFS_MAX_FILE_SIZE data)) \<and> vfs_ok s' \<and>
        (\<exists>i. m = Some i \<and> is_file u i \<and> content s' i = take VFS_MAX_FILE_SIZE data \<and> others_kept i u s')"
      using write_node_ok[OF u(1,4)] by blast
    moreover have "at_c s' path" using c u(2) w(3) by (simp add: at_c_def same_tree_def)
    moreover have "vfs_lookup s' path = Some m" using lookup_same[OF w(3) vfs_okD(1)[OF u(1)]] u(3) by simp
    moreover have "is_file s' i = is_file u i" for i using w(3) by (simp add: same_tree_def)
    ultimately show ?thesis by auto
  qed
  show ?thesis
  proof (cases "n = None")
    case False
    then have "vfs_write path data s = write_node n data s" using pd d n(1) by (auto simp: vfs_write_def)
    then show ?thesis using fin[OF ok d(2) n] by simp
  next
    case True
    obtain r1 s1 where cr: "vfs_create_file path s = Some (r1, s1)" "tree_ok s1"
      "r1 = 0 \<longrightarrow> vfs_ok s1 \<and> others_kept (node_count s) s s1 \<and> cur_drive s1 = DRIVE_C" using create_file_ok[OF ok c] by blast
    show ?thesis
    proof (cases "r1 = 0")
      case False
      then show ?thesis using True pd d n(1) cr by (simp add: vfs_write_def)
    next
      case z: True
      obtain n1 where n1: "vfs_lookup s1 path = Some n1" "valid s1 n1" using vfs_lookup_returns[OF cr(2)] by blast
      obtain r s' where w: "write_node n1 data s1 = Some (r, s')" "tree_ok s'"
        "r \<noteq> -1 \<longrightarrow> r = int (length (take VFS_MAX_FILE_SIZE data)) \<and> vfs_ok s' \<and> at_c s' path \<and>
        (\<exists>i. vfs_lookup s' path = Some (Some i) \<and> is_file s' i \<and> content s' i = take VFS_MAX_FILE_SIZE data \<and> others_kept i s1 s')"
        using fin[of s1 n1] z cr(3) n1 by blast
      have "others_kept i s s'" if "others_kept i s1 s'" for i
        using that cr(3) z by (auto simp: others_kept_def)
      moreover have "vfs_write path data s = Some (r, s')" using True pd d n(1) cr(1) z n1(1) w(1) by (simp add: vfs_write_def)
      ultimately show ?thesis using w by blast
    qed
  qed
qed

section \<open>The other operations return\<close>

lemma mkdir_returns:
  assumes "tree_ok s" "at_c s path"
  shows "\<exists>r s'. vfs_mkdir path s = Some (r, s') \<and> tree_ok s'"
proof -
  obtain d p where pd: "parse_drive s path = (d, p)" "d = DRIVE_C" "cur_drive s = DRIVE_C"
    using at_c_parse[OF assms(2)] assms(2) by (cases "parse_drive s path") (simp add: at_c_def)
  obtain pl where pl: "new_place s path = Some pl" "\<And>q name. pl = Some (q, name) \<Longrightarrow> q < node_count s"
    using new_place_returns[OF assms(1)] by blast
  show ?thesis
  proof (cases pl)
    case (Some qn)
    obtain q name where qn: "pl = Some (q, name)" "q < node_count s" using pl(2) Some by (cases qn) auto
    obtain r1 s1 where al: "alloc_node name TYPE_DIR (Some q) s = (r1, s1)" by fastforce
    then show ?thesis using alloc_node_tree(1)[OF assms(1) al qn(2)] pd pl(1) qn(1) by (cases r1) (simp_all add: vfs_mkdir_def)
  qed (use pd pl assms in \<open>simp add: vfs_mkdir_def\<close>)
qed

lemma unlink_returns:
  assumes "tree_ok s" "at_c s path"
  shows "\<exists>r s'. vfs_unlink path s = Some (r, s') \<and> tree_ok s'"
proof -
  obtain d p where pd: "parse_drive s path = (d, p)" "d = DRIVE_C" "cur_drive s = DRIVE_C"
    using at_c_parse[OF assms(2)] assms(2) by (cases "parse_drive s path") (simp add: at_c_def)
  obtain n where n: "vfs_lookup s path = Some n" "valid s n" using vfs_lookup_returns[OF assms(1)] by blast
  show ?thesis
  proof (cases "\<exists>i q. n = Some i \<and> \<not> (i = root s \<or> vtype (nodes s i) = TYPE_DIR \<and> child (nodes s i) \<noteq> None) \<and> parent (nodes s i) = Some q")
    case True
    then obtain i q where i: "n = Some i" "\<not> (i = root s \<or> vtype (nodes s i) = TYPE_DIR \<and> child (nodes s i) \<noteq> None)" "parent (nodes s i) = Some q"
      by blast
    have "q < node_count s" using assms(1) n(2) i by (fastforce simp: tree_ok_def)
    then obtain s1 where s1: "unlink_loop s (Child_of q) i = Some s1" "tree_ok s1"
      using unlink_loop_total[OF assms(1), of "Child_of q" i] assms(1) by (auto simp: tree_ok_def)
    then have "tree_ok (upd_node i (\<lambda>x. x\<lparr>vtype := TYPE_NONE, vname := []\<rparr>) s1)" by (intro upd_node_tree) simp_all
    then show ?thesis using pd n(1) i s1(1) by (auto simp: vfs_unlink_def)
  next
    case False
    then have "vfs_unlink path s = Some (-1, s)" using pd n(1) by (auto simp: vfs_unlink_def split: option.split)
    then show ?thesis using assms(1) by simp
  qed
qed

lemma chdir_returns:
  assumes "tree_ok s" "at_c s path"
  shows "\<exists>r s'. vfs_chdir path s = Some (r, s') \<and> tree_ok s'"
proof -
  obtain d p where pd: "parse_drive s path = (d, p)" "d = DRIVE_C" "cur_drive s = DRIVE_C" "\<not> on_d path"
    using at_c_parse[OF assms(2)] assms(2) by (cases "parse_drive s path") (simp add: at_c_def)
  have "\<exists>r s'. set_cwd s q = Some (r, s') \<and> tree_ok s'" if "q = Some n" "valid s n" for q n
    using that assms(1) by (cases n) (auto simp: set_cwd_def tree_ok_def)
  moreover obtain n where "vfs_lookup s path = Some n" "valid s n" using vfs_lookup_returns[OF assms(1)] by blast
  moreover obtain m where "lookup_rel s (root s) path = Some m" "valid s m"
    using lookup_rel_total[OF assms(1), of "root s" path] assms(1) by (auto simp: tree_ok_def)
  ultimately show ?thesis using pd by (simp add: vfs_chdir_def)
qed

lemma list_children_returns:
  assumes "tree_ok s" "valid s c"
  shows "\<exists>out. list_children s c = Some out"
proof -
  have "\<exists>out. list_children s (Some i) = Some out" if "i < node_count s" for i
    using that
  proof (induction i rule: less_induct)
    case (less i)
    have "\<exists>out. list_children s (sibling (nodes s i)) = Some out"
    proof (cases "sibling (nodes s i)")
      case (Some j)
      then have "j < i" using assms(1) less.prems by (simp add: tree_ok_def)
      then show ?thesis using less Some by simp
    qed (simp add: list_children.simps)
    then show ?case by (subst list_children.simps) (auto simp: Let_def)
  qed
  then show ?thesis using assms(2) by (cases c) (simp_all add: list_children.simps[of _ None])
qed

lemma cwd_parts_returns:
  assumes "tree_ok s"
  shows "i < node_count s \<Longrightarrow> \<exists>ps. cwd_parts s (Some i) n = Some ps"
proof (induction i arbitrary: n rule: less_induct)
  case (less i)
  have "\<exists>ps. cwd_parts s (parent (nodes s i)) m = Some ps" for m
  proof (cases "parent (nodes s i)")
    case (Some j)
    then have "j < i" using assms less.prems by (simp add: tree_ok_def)
    then show ?thesis using less Some by simp
  qed (simp add: cwd_parts.simps)
  from this[of n] this[of "n + 1"] show ?case by (subst cwd_parts.simps) (auto simp: Let_def)
qed

section \<open>Properties\<close>

text \<open>
  C19. Every operation on drive C: returns, and keeps the tree well formed: all links lead to nodes in use, parents and
  siblings to older ones.
\<close>

theorem vfs_returns:
  assumes "vfs_ok s" "at_c s path"
  shows "(\<forall>oper \<in> {vfs_mkdir path, vfs_create_file path, vfs_write path data, vfs_unlink path, vfs_chdir path}.
      \<exists>r s'. oper s = Some (r, s') \<and> tree_ok s') \<and>
    (\<exists>n. vfs_lookup s path = Some n \<and> (\<forall>i. n = Some i \<longrightarrow> i < node_count s)) \<and>
    vfs_read path k s \<noteq> None \<and> vfs_list path s \<noteq> None \<and> vfs_getcwd s k \<noteq> None"
proof -
  note tr = vfs_okD(1)[OF assms(1)]
  obtain d p where pd: "parse_drive s path = (d, p)" "d = DRIVE_C" "cur_drive s = DRIVE_C"
    using at_c_parse[OF assms(2)] assms(2) by (cases "parse_drive s path") (simp add: at_c_def)
  obtain n where n: "vfs_lookup s path = Some n" "valid s n" using vfs_lookup_returns[OF tr] by blast
  have cv: "valid s (child (nodes s i))" if "i < node_count s" for i using tr that by (simp add: tree_ok_def)
  have cwd: "cwd s < node_count s" using tr by (simp add: tree_ok_def)
  have "\<forall>oper \<in> {vfs_mkdir path, vfs_create_file path, vfs_write path data, vfs_unlink path, vfs_chdir path}.
      \<exists>r s'. oper s = Some (r, s') \<and> tree_ok s'"
    using mkdir_returns[OF tr assms(2)] create_file_ok[OF assms] vfs_write_result[OF assms, of data] unlink_returns[OF tr assms(2)]
      chdir_returns[OF tr assms(2)] by blast
  moreover have "vfs_read path k s \<noteq> None" using pd n(1) by (simp add: vfs_read_def)
  moreover have "vfs_list path s \<noteq> None"
  proof -
    obtain m where m: "(if path \<noteq> [] then vfs_lookup s path else Some (Some (cwd s))) = Some m" "valid s m"
      using n cwd by (cases "path = []") auto
    have dp: "(if path \<noteq> [] then parse_drive s path else (cur_drive s, path)) = (DRIVE_C, p)"
      using pd by (cases "path = []") (auto simp: parse_drive_def on_drive_def)
    show ?thesis
    proof (cases m)
      case (Some i)
      obtain out where "list_children s (child (nodes s i)) = Some out" using list_children_returns[OF tr cv] m(2) Some by blast
      then show ?thesis unfolding vfs_list_def dp m(1) using Some by simp
    qed (unfold vfs_list_def dp m(1), simp)
  qed
  moreover have "vfs_getcwd s k \<noteq> None" using cwd_parts_returns[OF tr cwd, of 0] pd(3) by (auto simp: vfs_getcwd_def)
  ultimately show ?thesis using n by blast
qed

text \<open>A fresh file system on a heap \<open>h\<close>: the root directory only.\<close>

definition demo_vfs :: "heap \<Rightarrow> vfs" where
  "demo_vfs h = vfs_root \<lparr>nodes = (\<lambda>_. empty_node), node_count = 0, root = 0, cwd = 0, cur_drive = DRIVE_C, vheap = h, vfat = demo_fat\<rparr>"

lemma demo_vfs_ok: "heap_ok h fl bl \<Longrightarrow> heap_ready h \<Longrightarrow> vfs_ok (demo_vfs h)"
proof -
  assume h: "heap_ok h fl bl" "heap_ready h"
  have s: "nodes (demo_vfs h) 0 = empty_node\<lparr>vtype := TYPE_DIR\<rparr>" "node_count (demo_vfs h) = 1" "root (demo_vfs h) = 0"
    "cwd (demo_vfs h) = 0" "vheap (demo_vfs h) = h"
    by (simp_all add: demo_vfs_def vfs_root_def alloc_node_def Let_def strcpy_l_def empty_node_def)
  have "tree_ok (demo_vfs h)" by (simp add: tree_ok_def s empty_node_def)
  moreover have "files_in (demo_vfs h) bl undefined" by (auto simp: files_in_def s inj_on_def)
  ultimately show ?thesis using h s(5) unfolding vfs_ok_def by auto
qed

lemma demo_vfs_at_c: "at_c (demo_vfs h) [97, 46, 98]"
  by (simp add: at_c_def on_drive_def demo_vfs_def vfs_root_def alloc_node_def Let_def)

lemma demo_vfs_exists: "\<exists>h. heap_init demo_heap = Some (0, h) \<and> vfs_ok (demo_vfs h)"
  using demo_heap_init demo_vfs_ok by blast

theorem vfs_returns_witness:
  "\<exists>h r s'. heap_init demo_heap = Some (0, h) \<and> vfs_mkdir [97, 46, 98] (demo_vfs h) = Some (r, s') \<and> tree_ok s' \<and>
     vfs_list [97, 46, 98] (demo_vfs h) \<noteq> None"
proof -
  obtain h where h: "heap_init demo_heap = Some (0, h)" "vfs_ok (demo_vfs h)" using demo_vfs_exists by blast
  from vfs_returns[OF h(2) demo_vfs_at_c, of "[]" 0] h(1) show ?thesis by blast
qed

text \<open>
  C13. Write, then read on drive C:. \<open>vfs_write\<close> returns; unless it returns -1, it returns the number of bytes stored, at
  most 16384, and \<open>vfs_read\<close> of the same path then returns these bytes, cut to the size of the buffer.
\<close>

theorem vfs_write_read:
  assumes "vfs_ok s" "at_c s path"
  shows "\<exists>r s'. vfs_write path data s = Some (r, s') \<and>
    (r \<noteq> -1 \<longrightarrow> r = int (length (take VFS_MAX_FILE_SIZE data)) \<and>
      (\<forall>n. vfs_read path n s' = Some (Some (take n (take VFS_MAX_FILE_SIZE data)))))"
proof -
  obtain r s' where w: "vfs_write path data s = Some (r, s')"
    "r \<noteq> -1 \<longrightarrow> r = int (length (take VFS_MAX_FILE_SIZE data)) \<and> vfs_ok s' \<and> at_c s' path \<and>
      (\<exists>i. vfs_lookup s' path = Some (Some i) \<and> is_file s' i \<and> content s' i = take VFS_MAX_FILE_SIZE data \<and> others_kept i s s')"
    using vfs_write_result[OF assms] by blast
  have "vfs_read path n s' = Some (Some (take n (take VFS_MAX_FILE_SIZE data)))" if nr: "r \<noteq> -1" for n
  proof -
    obtain i where i: "vfs_lookup s' path = Some (Some i)" "is_file s' i" "content s' i = take VFS_MAX_FILE_SIZE data" "at_c s' path"
      using w(2) nr by blast
    obtain d p where pd: "parse_drive s' path = (d, p)" by fastforce
    have "mem_load (hmem (vheap s')) (unat (vdata (nodes s' i))) (min (vsize (nodes s' i)) n) = take n (content s' i)"
      by (rule nth_equalityI) (auto simp: content_def)
    then show ?thesis using i pd at_c_parse[OF i(4)] by (simp add: vfs_read_def at_c_def)
  qed
  then show ?thesis using w by blast
qed

theorem vfs_write_read_witness:
  "\<exists>h r s'. heap_init demo_heap = Some (0, h) \<and> vfs_write [97, 46, 98] [1, 2, 3] (demo_vfs h) = Some (r, s') \<and>
     (r \<noteq> -1 \<longrightarrow> r = 3 \<and> vfs_read [97, 46, 98] 2 s' = Some (Some [1, 2]))"
proof -
  obtain h where h: "heap_init demo_heap = Some (0, h)" "vfs_ok (demo_vfs h)" using demo_vfs_exists by blast
  obtain r s' where w: "vfs_write [97, 46, 98] [1, 2, 3] (demo_vfs h) = Some (r, s')"
    "r \<noteq> -1 \<longrightarrow> r = int (length (take VFS_MAX_FILE_SIZE [1, 2, 3 :: u8])) \<and>
      (\<forall>n. vfs_read [97, 46, 98] n s' = Some (Some (take n (take VFS_MAX_FILE_SIZE [1, 2, 3]))))"
    using vfs_write_read[OF h(2) demo_vfs_at_c, of "[1, 2, 3]"] by blast
  then have "r \<noteq> -1 \<longrightarrow> r = 3 \<and> vfs_read [97, 46, 98] 2 s' = Some (Some [1, 2])" by simp
  then show ?thesis using h(1) w(1) by blast
qed



end
