(* ===== verification/Elf.thy ===== *)
theory Elf
  imports GW_Prelude
begin

text \<open>
  The ELF loader (\<open>kernel/process/elf.c\<close>). The image lies in the same memory the segments are written to, and the
  code reads its headers again in every round of its loops, so all reads go through the current memory. Pointer sums wrap
  at 64 bits; \<open>sizeof(Elf64_Ehdr)\<close> is 58, since the structure of the source ends with \<open>e_phnum\<close>.
\<close>

section \<open>Headers\<close>

definition e_type :: "mem \<Rightarrow> u64 \<Rightarrow> u16" where "e_type m eh = rd16 m (unat eh + 16)"
definition e_machine :: "mem \<Rightarrow> u64 \<Rightarrow> u16" where "e_machine m eh = rd16 m (unat eh + 18)"
definition e_entry :: "mem \<Rightarrow> u64 \<Rightarrow> u64" where "e_entry m eh = rd64 m (unat eh + 24)"
definition e_phoff :: "mem \<Rightarrow> u64 \<Rightarrow> u64" where "e_phoff m eh = rd64 m (unat eh + 32)"
definition e_phentsize :: "mem \<Rightarrow> u64 \<Rightarrow> u16" where "e_phentsize m eh = rd16 m (unat eh + 54)"
definition e_phnum :: "mem \<Rightarrow> u64 \<Rightarrow> u16" where "e_phnum m eh = rd16 m (unat eh + 56)"

definition p_type :: "mem \<Rightarrow> u64 \<Rightarrow> u32" where "p_type m ph = rd32 m (unat ph)"
definition p_offset :: "mem \<Rightarrow> u64 \<Rightarrow> u64" where "p_offset m ph = rd64 m (unat ph + 8)"
definition p_vaddr :: "mem \<Rightarrow> u64 \<Rightarrow> u64" where "p_vaddr m ph = rd64 m (unat ph + 16)"
definition p_filesz :: "mem \<Rightarrow> u64 \<Rightarrow> u64" where "p_filesz m ph = rd64 m (unat ph + 32)"
definition p_memsz :: "mem \<Rightarrow> u64 \<Rightarrow> u64" where "p_memsz m ph = rd64 m (unat ph + 40)"

lemmas elf_fields = e_type_def e_machine_def e_entry_def e_phoff_def e_phentsize_def e_phnum_def
  p_type_def p_offset_def p_vaddr_def p_filesz_def p_memsz_def

record elf_info =
  elf_entry :: u64
  load_base :: u64
  load_size :: u64

section \<open>Loading\<close>

text \<open>The byte-wise forward copy, which is what it is also for overlapping ranges.\<close>

definition memcpy_l :: "mem \<Rightarrow> nat \<Rightarrow> nat \<Rightarrow> nat \<Rightarrow> mem" where
  "memcpy_l m d s n = fold (\<lambda>k m. m(d + k := m (s + k))) [0..<n] m"

definition elf_ident_ok :: "u64 \<Rightarrow> u64 \<Rightarrow> mem \<Rightarrow> bool" where
  "elf_ident_ok data sz m \<longleftrightarrow> sz \<ge> 58 \<and>
     m (unat data) = 0x7F \<and> m (unat data + 1) = of_char (CHR ''E'') \<and> m (unat data + 2) = of_char (CHR ''L'') \<and>
     m (unat data + 3) = of_char (CHR ''F'') \<and> m (unat data + 4) = 2 \<and>
     e_type m data = 2 \<and> e_machine m data = 62 \<and>
     e_phoff m data + ucast (e_phnum m data) * ucast (e_phentsize m data) \<le> sz"

definition elf_header_ok :: "u64 \<Rightarrow> u64 \<Rightarrow> mem \<Rightarrow> bool" where
  "elf_header_ok data sz m \<longleftrightarrow> data \<noteq> 0 \<and> elf_ident_ok data sz m"

definition span_step :: "mem \<Rightarrow> u64 \<Rightarrow> nat \<Rightarrow> u64 \<times> u64 \<Rightarrow> u64 \<times> u64" where
  "span_step m ph i = (\<lambda>(min_v, max_v). let p = ph + 56 * of_nat i in
     if p_type m p \<noteq> 1 then (min_v, max_v)
     else (if p_vaddr m p < min_v then p_vaddr m p else min_v,
           if p_vaddr m p + p_memsz m p > max_v then p_vaddr m p + p_memsz m p else max_v))"

definition load_segment :: "u64 \<Rightarrow> u64 \<Rightarrow> mem \<Rightarrow> mem" where
  "load_segment data p m =
     (let dst = unat (p_vaddr m p); m1 = mem_set m dst 0 (unat (p_memsz m p))
      in memcpy_l m1 dst (unat (data + p_offset m1 p)) (unat (p_filesz m1 p)))"

function load_loop :: "u64 \<Rightarrow> u64 \<Rightarrow> u64 \<Rightarrow> nat \<Rightarrow> mem \<Rightarrow> bool \<times> mem" where
  "load_loop data sz ph i m =
     (if i < unat (e_phnum m data) then
        let p = ph + 56 * of_nat i
        in if p_type m p \<noteq> 1 then load_loop data sz ph (i + 1) m
           else if p_offset m p + p_filesz m p > sz then (False, m)
           else load_loop data sz ph (i + 1) (load_segment data p m)
      else (True, m))"
  by pat_completeness auto

lemma index_bound: "i < unat (n :: u16) \<Longrightarrow> 65536 - Suc i < 65536 - i"
  using unsigned_less[of n, where 'a = nat] by simp

termination load_loop
  by (relation "measure (\<lambda>(data, size, ph, i, m). 65536 - i)") (use index_bound in auto)

declare load_loop.simps [simp del]

definition elf_load :: "u64 \<Rightarrow> u64 \<Rightarrow> mem \<Rightarrow> elf_info option \<times> mem" where
  "elf_load data sz m =
     (if \<not> elf_header_ok data sz m then (None, m)
      else
        let ph = data + e_phoff m data;
            (min_v, max_v) = fold (span_step m ph) [0..<unat (e_phnum m data)] (- 1, 0)
        in if min_v = - 1 then (None, m)
           else case load_loop data sz ph 0 m of
               (False, m1) \<Rightarrow> (None, m1)
             | (True, m1) \<Rightarrow> (Some \<lparr>elf_entry = e_entry m1 data, load_base = min_v, load_size = max_v - min_v\<rparr>, m1))"

section \<open>Specification\<close>

text \<open>A loadable segment of an image: its place in the image and in memory.\<close>

record elf_seg =
  seg_off :: nat
  seg_filesz :: nat
  seg_vaddr :: nat
  seg_memsz :: nat

definition seg_at :: "mem \<Rightarrow> u64 \<Rightarrow> elf_seg" where
  "seg_at m p = \<lparr>seg_off = unat (p_offset m p), seg_filesz = unat (p_filesz m p), seg_vaddr = unat (p_vaddr m p),
     seg_memsz = unat (p_memsz m p)\<rparr>"

definition elf_segments :: "u64 \<Rightarrow> mem \<Rightarrow> elf_seg list" where
  "elf_segments data m = map (seg_at m) (filter (\<lambda>p. p_type m p = 1)
     (map (\<lambda>i. data + e_phoff m data + 56 * of_nat i) [0..<unat (e_phnum m data)]))"

definition seg_range :: "elf_seg \<Rightarrow> nat set" where "seg_range g = {seg_vaddr g..<seg_vaddr g + seg_memsz g}"
definition image_range :: "u64 \<Rightarrow> u64 \<Rightarrow> nat set" where "image_range data sz = {unat data..<unat data + unat sz}"

definition seg_fits :: "u64 \<Rightarrow> u64 \<Rightarrow> elf_seg \<Rightarrow> bool" where
  "seg_fits data sz g \<longleftrightarrow> seg_off g + seg_filesz g \<le> unat sz \<and> seg_filesz g \<le> seg_memsz g \<and>
     seg_vaddr g + seg_memsz g < 2 ^ 64 - 1 \<and> seg_range g \<inter> image_range data sz = {}"

text \<open>An image the loader is meant for: well-formed headers inside the image, segments apart from it and from each other.\<close>

definition elf_fits :: "u64 \<Rightarrow> u64 \<Rightarrow> mem \<Rightarrow> bool" where
  "elf_fits data sz m \<longleftrightarrow> elf_header_ok data sz m \<and> unat data + unat sz < 2 ^ 64 \<and>
     unat (e_phoff m data) + 56 * unat (e_phnum m data) \<le> unat sz \<and> elf_segments data m \<noteq> [] \<and>
     list_all (seg_fits data sz) (elf_segments data m) \<and>
     sorted_wrt (\<lambda>g h. seg_range g \<inter> seg_range h = {}) (elf_segments data m)"

definition seg_bytes :: "u64 \<Rightarrow> mem \<Rightarrow> elf_seg \<Rightarrow> u8 list" where
  "seg_bytes data m g = mem_load m (unat data + seg_off g) (seg_filesz g) @ replicate (seg_memsz g - seg_filesz g) 0"

section \<open>The segments are loaded\<close>

lemma memcpy_disjoint:
  assumes "{d..<d + n} \<inter> {s..<s + n} = {}"
  shows "memcpy_l m d s n = mem_store m d (mem_load m s n)"
proof -
  have "fold (\<lambda>k m. m(d + k := m (s + k))) [0..<j] m = mem_store m d (mem_load m s j)" if "j \<le> n" for j
    using that
  proof (induction j)
    case (Suc j)
    have "\<not> (d \<le> s + j \<and> s + j < d + j)" using assms Suc.prems by (auto simp: disjoint_iff)
    then have "mem_store m d (mem_load m s j) (s + j) = m (s + j)" by (auto simp: mem_store_def)
    then show ?case using Suc by (auto simp: mem_store_def fun_eq_iff less_Suc_eq nth_append mem_load_def)
  qed (auto simp: mem_store_def mem_load_def fun_eq_iff)
  then show ?thesis by (simp add: memcpy_l_def)
qed

lemma fields_cong:
  assumes "\<And>a. a \<in> image_range data sz \<Longrightarrow> m a = m0 a"
  shows "58 \<le> unat sz \<Longrightarrow> e_phnum m data = e_phnum m0 data" "58 \<le> unat sz \<Longrightarrow> e_entry m data = e_entry m0 data"
    "unat data \<le> unat p \<Longrightarrow> unat p + 56 \<le> unat data + unat sz \<Longrightarrow>
       p_type m p = p_type m0 p \<and> seg_at m p = seg_at m0 p \<and> p_vaddr m p = p_vaddr m0 p \<and> p_memsz m p = p_memsz m0 p \<and>
       p_offset m p = p_offset m0 p \<and> p_filesz m p = p_filesz m0 p"
  using assms by (simp_all add: elf_fields rd16_def seg_at_def image_range_def cong: rd32_cong rd64_cong)

lemma load_segment_place:
  assumes m: "\<And>a. a \<in> image_range data sz \<Longrightarrow> m a = m0 a"
    and p: "unat data \<le> unat p" "unat p + 56 \<le> unat data + unat sz"
    and fits: "seg_fits data sz (seg_at m0 p)" and nw: "unat data + unat sz < 2 ^ 64"
  shows "load_segment data p m = mem_store m (seg_vaddr (seg_at m0 p)) (seg_bytes data m0 (seg_at m0 p))"
proof -
  define g where "g = seg_at m0 p"
  define m1 where "m1 = mem_set m (seg_vaddr g) 0 (seg_memsz g)"
  have f: "seg_off g + seg_filesz g \<le> unat sz" "seg_filesz g \<le> seg_memsz g" "seg_range g \<inter> image_range data sz = {}"
    using fits by (simp_all add: seg_fits_def g_def)
  have m1: "m1 a = m0 a" if "a \<in> image_range data sz" for a
    using that f(3) m by (auto simp: m1_def mem_set_def seg_range_def disjoint_iff)
  have src: "unat (data + p_offset m0 p) = unat data + seg_off g"
    using f(1) nw by (simp add: g_def seg_at_def unat_word_ariths)
  have "{seg_vaddr g..<seg_vaddr g + seg_filesz g} \<inter> {unat data + seg_off g..<unat data + seg_off g + seg_filesz g} = {}"
    using f by (auto simp: seg_range_def image_range_def disjoint_iff)
  then have "load_segment data p m = mem_store m1 (seg_vaddr g) (mem_load m1 (unat data + seg_off g) (seg_filesz g))"
    using fields_cong(3)[OF m p] fields_cong(3)[OF m1 p] src memcpy_disjoint
    by (simp add: load_segment_def Let_def m1_def g_def seg_at_def)
  also have "mem_load m1 (unat data + seg_off g) (seg_filesz g) = mem_load m0 (unat data + seg_off g) (seg_filesz g)"
    using f(1) by (intro nth_equalityI) (auto intro!: m1 simp: image_range_def)
  also have "mem_store m1 (seg_vaddr g) \<dots> = mem_store m (seg_vaddr g) (seg_bytes data m0 g)"
    using f(2) by (auto simp: fun_eq_iff mem_store_def m1_def mem_set_def seg_bytes_def nth_append)
  finally show ?thesis by (simp only: g_def)
qed

definition place_seg :: "u64 \<Rightarrow> mem \<Rightarrow> elf_seg \<Rightarrow> mem \<Rightarrow> mem" where
  "place_seg data m0 g m = mem_store m (seg_vaddr g) (seg_bytes data m0 g)"

lemma length_seg_bytes [simp]: "seg_filesz g \<le> seg_memsz g \<Longrightarrow> length (seg_bytes data m g) = seg_memsz g"
  by (simp add: seg_bytes_def)

lemma place_seg_other: "seg_filesz g \<le> seg_memsz g \<Longrightarrow> a \<notin> seg_range g \<Longrightarrow> place_seg data m0 g m a = m a"
  by (auto simp: place_seg_def mem_store_def seg_range_def)

lemma fold_place_other:
  "list_all (\<lambda>g. seg_filesz g \<le> seg_memsz g) gs \<Longrightarrow> a \<notin> \<Union> (seg_range ` set gs) \<Longrightarrow> fold (place_seg data m0) gs m a = m a"
  by (induction gs arbitrary: m) (simp_all add: place_seg_other)

lemma fold_place_loaded:
  assumes "list_all (\<lambda>g. seg_filesz g \<le> seg_memsz g) gs" "sorted_wrt (\<lambda>g h. seg_range g \<inter> seg_range h = {}) gs" "g \<in> set gs"
  shows "mem_load (fold (place_seg data m0) gs m) (seg_vaddr g) (seg_memsz g) = seg_bytes data m0 g"
  using assms
proof (induction gs arbitrary: m)
  case (Cons h gs)
  show ?case
  proof (cases "g \<in> set gs")
    case False
    then have g: "g = h" using Cons.prems by simp
    have "fold (place_seg data m0) gs (place_seg data m0 h m) a = place_seg data m0 h m a" if "a \<in> seg_range h" for a
      using Cons.prems that by (intro fold_place_other) auto
    then have "mem_load (fold (place_seg data m0) gs (place_seg data m0 h m)) (seg_vaddr h) (seg_memsz h) =
        mem_load (place_seg data m0 h m) (seg_vaddr h) (seg_memsz h)"
      by (intro nth_equalityI) (auto simp: seg_range_def)
    also have "\<dots> = seg_bytes data m0 h"
    proof -
      have "length (seg_bytes data m0 h) = seg_memsz h" using Cons.prems(1) by simp
      then show ?thesis using mem_load_store[of m "seg_vaddr h" "seg_bytes data m0 h"] by (simp only: place_seg_def)
    qed
    finally show ?thesis using g by simp
  qed (use Cons in auto)
qed simp

lemma table_pointer:
  assumes "unat (off :: u64) + 56 * n \<le> unat sz" "unat data + unat sz < 2 ^ 64" "i < n"
  shows "unat data \<le> unat (data + off + 56 * of_nat i :: u64)" "unat (data + off + 56 * of_nat i :: u64) + 56 \<le> unat data + unat (sz :: u64)"
proof -
  have "unat data + unat off + 56 * i < 2 ^ 64" using assms by linarith
  then have "unat (data + off + 56 * of_nat i) = unat data + unat off + 56 * i"
    by (simp add: unat_word_ariths unat_of_nat take_bit_eq_mod)
  then show "unat data \<le> unat (data + off + 56 * of_nat i)" "unat (data + off + 56 * of_nat i) + 56 \<le> unat data + unat sz"
    using assms by simp_all
qed

lemma load_loop_places:
  assumes nw: "unat data + unat sz < 2 ^ 64" "58 \<le> unat sz"
    and tab: "unat off + 56 * n \<le> unat sz" "n = unat (e_phnum m0 data)"
    and fits: "\<And>k. k < n \<Longrightarrow> p_type m0 (data + off + 56 * of_nat k) = 1 \<Longrightarrow> seg_fits data sz (seg_at m0 (data + off + 56 * of_nat k))"
    and m: "\<And>a. a \<in> image_range data sz \<Longrightarrow> m a = m0 a" and i: "i \<le> n"
  shows "load_loop data sz (data + off) i m = (True, fold (place_seg data m0)
     (map (seg_at m0) (filter (\<lambda>p. p_type m0 p = 1) (map (\<lambda>k. data + off + 56 * of_nat k) [i..<n]))) m)"
  using m i
proof (induction "n - i" arbitrary: i m)
  case 0
  then show ?case using fields_cong(1)[OF 0(2) nw(2)] tab(2) by (simp add: load_loop.simps)
next
  case (Suc k)
  define p where "p = data + off + 56 * of_nat i"
  have i: "i < n" "k = n - Suc i" "[i..<n] = i # [Suc i..<n]" using Suc(2) by (simp_all add: upt_conv_Cons)
  have pt: "unat data \<le> unat p" "unat p + 56 \<le> unat data + unat sz"
    using table_pointer[OF tab(1) nw(1) i(1)] by (simp_all add: p_def)
  have unf: "load_loop data sz (data + off) i m = (if p_type m0 p \<noteq> 1 then load_loop data sz (data + off) (Suc i) m
      else if p_offset m0 p + p_filesz m0 p > sz then (False, m) else load_loop data sz (data + off) (Suc i) (load_segment data p m))"
    using fields_cong(1)[OF Suc.prems(1) nw(2)] fields_cong(3)[OF Suc.prems(1) pt] i(1) tab(2)
    by (simp add: load_loop.simps[of data sz "data + off" i m] p_def Let_def)
  show ?case
  proof (cases "p_type m0 p = 1")
    case False
    then show ?thesis using unf Suc.hyps(1)[OF i(2) Suc.prems(1)] i by (simp add: p_def)
  next
    case True
    have f: "seg_fits data sz (seg_at m0 p)" using fits[OF i(1)] True by (simp add: p_def)
    have "unat (p_offset m0 p + p_filesz m0 p) \<le> unat sz"
      using f nw(1) by (simp add: seg_fits_def seg_at_def unat_word_ariths)
    moreover have "load_segment data p m = place_seg data m0 (seg_at m0 p) m"
      using load_segment_place[OF Suc.prems(1) pt f nw(1)] by (simp add: place_seg_def)
    moreover have "place_seg data m0 (seg_at m0 p) m a = m0 a" if "a \<in> image_range data sz" for a
    proof -
      have "a \<notin> seg_range (seg_at m0 p)" "seg_filesz (seg_at m0 p) \<le> seg_memsz (seg_at m0 p)"
        using f that by (auto simp: seg_fits_def disjoint_iff)
      then show ?thesis using place_seg_other Suc.prems(1)[OF that] by simp
    qed
    ultimately show ?thesis using unf True Suc.hyps(1)[OF i(2), of "place_seg data m0 (seg_at m0 p) m"] i
      by (simp add: p_def word_le_nat_alt[symmetric] not_less)
  qed
qed

definition seg_end :: "elf_seg \<Rightarrow> nat" where "seg_end g = seg_vaddr g + seg_memsz g"

lemma span_fold:
  assumes "\<And>g. g \<in> set gs \<Longrightarrow> seg_end g < 2 ^ 64"
    and "gs = map (seg_at m) (filter (\<lambda>p. p_type m p = 1) (map (\<lambda>k. ph + 56 * of_nat k) is))"
    and "fold (span_step m ph) is (mn, mx) = (mn', mx')"
  shows "unat mn' = fold min (map seg_vaddr gs) (unat mn) \<and> unat mx' = fold max (map seg_end gs) (unat mx)"
  using assms
proof (induction "is" arbitrary: gs mn mx)
  case (Cons i "is")
  define p where "p = ph + 56 * of_nat i"
  define hs where "hs = map (seg_at m) (filter (\<lambda>p. p_type m p = 1) (map (\<lambda>k. ph + 56 * of_nat k) is))"
  show ?case
  proof (cases "p_type m p = 1")
    case False
    then have "span_step m ph i (mn, mx) = (mn, mx)" by (simp add: span_step_def p_def)
    then show ?thesis using Cons False by (simp add: p_def)
  next
    case True
    let ?a = "p_vaddr m p" and ?e = "p_vaddr m p + p_memsz m p"
    have gs: "gs = seg_at m p # hs" using Cons.prems(2) True by (simp add: hs_def p_def)
    have e: "unat ?e = seg_end (seg_at m p)"
      using Cons.prems(1)[of "seg_at m p"] gs by (simp add: seg_end_def seg_at_def unat_word_ariths)
    have "span_step m ph i (mn, mx) = (if ?a < mn then ?a else mn, if ?e > mx then ?e else mx)"
      using True by (simp add: span_step_def p_def Let_def)
    then have "fold (span_step m ph) is (if ?a < mn then ?a else mn, if ?e > mx then ?e else mx) = (mn', mx')"
      using Cons.prems(3) by (simp only: fold_simps)
    from Cons.IH[OF _ hs_def this] Cons.prems(1) gs
    have "unat mn' = fold min (map seg_vaddr hs) (unat (if ?a < mn then ?a else mn)) \<and>
      unat mx' = fold max (map seg_end hs) (unat (if ?e > mx then ?e else mx))" by simp
    moreover have "unat (if ?a < mn then ?a else mn) = min (seg_vaddr (seg_at m p)) (unat mn)"
      "unat (if ?e > mx then ?e else mx) = max (seg_end (seg_at m p)) (unat mx)"
      using e by (auto simp: seg_at_def word_less_nat_alt min_def max_def)
    ultimately show ?thesis using gs by simp
  qed
qed simp

lemma span_min_max:
  assumes "gs \<noteq> []" "\<And>g. g \<in> set gs \<Longrightarrow> seg_end g < 2 ^ 64 - 1"
  shows "fold min (map seg_vaddr gs) (unat (- 1 :: u64)) = Min (seg_vaddr ` set gs)"
    "fold max (map seg_end gs) (unat (0 :: u64)) = Max (seg_end ` set gs)" "Min (seg_vaddr ` set gs) \<le> Max (seg_end ` set gs)"
    "Max (seg_end ` set gs) < 2 ^ 64 - 1"
proof -
  have f: "fold min (map seg_vaddr gs) x = Min (insert x (seg_vaddr ` set gs))"
    "fold max (map seg_end gs) x = Max (insert x (seg_end ` set gs))" for x
    using Min.set_eq_fold[of x "map seg_vaddr gs"] Max.set_eq_fold[of x "map seg_end gs"] by simp_all
  obtain g where g: "g \<in> set gs" using assms(1) by (cases gs) auto
  have le: "Min (seg_vaddr ` set gs) \<le> seg_vaddr g" "seg_end g \<le> Max (seg_end ` set gs)" using g by simp_all
  show mx: "Max (seg_end ` set gs) < 2 ^ 64 - 1" using assms g by (subst Max_less_iff) auto
  show mn: "Min (seg_vaddr ` set gs) \<le> Max (seg_end ` set gs)" using le by (simp add: seg_end_def)
  have "seg_vaddr ` set gs \<noteq> {}" using g by auto
  then have "Min (insert (unat (- 1 :: u64)) (seg_vaddr ` set gs)) = min (unat (- 1 :: u64)) (Min (seg_vaddr ` set gs))"
    by (simp add: Min_insert)
  also have "\<dots> = Min (seg_vaddr ` set gs)" using mn mx by (simp only: min_def unsigned_minus_1_eq_mask mask_eq_exp_minus_1) simp
  finally show "fold min (map seg_vaddr gs) (unat (- 1 :: u64)) = Min (seg_vaddr ` set gs)" by (simp only: f)
  have "seg_end ` set gs \<noteq> {}" using g by auto
  then have "Max (insert 0 (seg_end ` set gs)) = max 0 (Max (seg_end ` set gs))" by (simp add: Max_insert)
  then show "fold max (map seg_end gs) (unat (0 :: u64)) = Max (seg_end ` set gs)" by (simp add: f)
qed

section \<open>Images as byte lists\<close>

text \<open>The contents of an ELF file, and that a copy of it anywhere in memory reads the same.\<close>

definition bytes_mem :: "u8 list \<Rightarrow> mem" where "bytes_mem bs = (\<lambda>a. if a < length bs then bs ! a else 0)"

definition image_segments :: "u8 list \<Rightarrow> elf_seg list" where "image_segments bs = elf_segments 0 (bytes_mem bs)"

definition elf_image :: "u8 list \<Rightarrow> bool" where
  "elf_image bs \<longleftrightarrow> length bs < 2 ^ 32 \<and> elf_ident_ok 0 (of_nat (length bs)) (bytes_mem bs) \<and>
     unat (e_phoff (bytes_mem bs) 0) + 56 * unat (e_phnum (bytes_mem bs) 0) \<le> length bs \<and> image_segments bs \<noteq> [] \<and>
     list_all (\<lambda>g. seg_off g + seg_filesz g \<le> length bs \<and> seg_filesz g \<le> seg_memsz g \<and> seg_end g < 2 ^ 64 - 1) (image_segments bs) \<and>
     sorted_wrt (\<lambda>g h. seg_range g \<inter> seg_range h = {}) (image_segments bs)"

lemma mem_load_byte: "mem_load m a (length bs) = bs \<Longrightarrow> i < length bs \<Longrightarrow> m (a + i) = bytes_mem bs i"
  using nth_mem_load[of i "length bs" m a] by (simp add: bytes_mem_def)

lemma rd_shift:
  assumes "mem_load m a (length bs) = bs"
  shows "k + 2 \<le> length bs \<Longrightarrow> rd16 m (a + k) = rd16 (bytes_mem bs) k"
    "k + 4 \<le> length bs \<Longrightarrow> rd32 m (a + k) = rd32 (bytes_mem bs) k"
    "k + 8 \<le> length bs \<Longrightarrow> rd64 m (a + k) = rd64 (bytes_mem bs) k"
proof -
  have e: "rd16 m (a + k) = rd16 (\<lambda>x. m (a + x)) k" "rd32 m (a + k) = rd32 (\<lambda>x. m (a + x)) k" "rd64 m (a + k) = rd64 (\<lambda>x. m (a + x)) k"
    by (simp_all add: rd64_def rd32_def rd16_def ac_simps)
  show "rd16 m (a + k) = rd16 (bytes_mem bs) k" if "k + 2 \<le> length bs"
    using that mem_load_byte[OF assms, of k] mem_load_byte[OF assms, of "k + 1"] unfolding e rd16_def by simp
  show "rd32 m (a + k) = rd32 (bytes_mem bs) k" if "k + 4 \<le> length bs"
    using that mem_load_byte[OF assms] unfolding e by (intro rd32_cong) simp
  show "rd64 m (a + k) = rd64 (bytes_mem bs) k" if "k + 8 \<le> length bs"
    using that mem_load_byte[OF assms] unfolding e by (intro rd64_cong) simp
qed

lemma fields_shift:
  assumes "mem_load m (unat data) (length bs) = bs" "58 \<le> length bs"
  shows "e_type m data = e_type (bytes_mem bs) 0" "e_machine m data = e_machine (bytes_mem bs) 0"
    "e_entry m data = e_entry (bytes_mem bs) 0" "e_phoff m data = e_phoff (bytes_mem bs) 0"
    "e_phentsize m data = e_phentsize (bytes_mem bs) 0" "e_phnum m data = e_phnum (bytes_mem bs) 0"
  using rd_shift[OF assms(1)] assms(2) by (simp_all add: elf_fields)

lemma segments_shift:
  assumes ld: "mem_load m (unat data) (length bs) = bs" "58 \<le> length bs" "unat data + length bs < 2 ^ 64"
    and tab: "unat (e_phoff (bytes_mem bs) 0) + 56 * unat (e_phnum (bytes_mem bs) 0) \<le> length bs"
  shows "elf_segments data m = image_segments bs"
proof -
  let ?B = "bytes_mem bs" let ?off = "e_phoff ?B 0"
  have "p_type m p = p_type ?B q \<and> seg_at m p = seg_at ?B q"
    if i: "i < unat (e_phnum ?B 0)" and p: "p = data + ?off + 56 * of_nat i" "q = ?off + 56 * of_nat i" for i p q
  proof -
    have u: "unat q = unat ?off + 56 * i" "unat p = unat data + unat q" "unat q + 56 \<le> length bs"
      using i tab ld(3) p by (simp_all add: unat_word_ariths unat_of_nat take_bit_eq_mod)
    then show ?thesis using rd_shift[OF ld(1)] by (simp add: elf_fields seg_at_def add.assoc)
  qed
  then have "p_type m (data + ?off + 56 * of_nat i) = p_type ?B (?off + 56 * of_nat i) \<and>
      seg_at m (data + ?off + 56 * of_nat i) = seg_at ?B (?off + 56 * of_nat i)" if "i \<in> set [0..<unat (e_phnum ?B 0)]" for i
    using that by simp
  then have "map (\<lambda>i. seg_at m (data + ?off + 56 * of_nat i)) (filter (\<lambda>i. p_type m (data + ?off + 56 * of_nat i) = 1) [0..<unat (e_phnum ?B 0)]) =
      map (\<lambda>i. seg_at ?B (?off + 56 * of_nat i)) (filter (\<lambda>i. p_type ?B (?off + 56 * of_nat i) = 1) [0..<unat (e_phnum ?B 0)])"
    by (intro map_cong filter_cong) auto
  then show ?thesis using fields_shift[OF ld(1,2)] by (simp add: image_segments_def elf_segments_def filter_map o_def)
qed

lemma elf_image_fits:
  assumes img: "elf_image bs" and ld: "mem_load m (unat data) (length bs) = bs" "unat data + length bs < 2 ^ 64" "data \<noteq> 0"
    and dj: "\<And>g. g \<in> set (image_segments bs) \<Longrightarrow> seg_range g \<inter> {unat data..<unat data + length bs} = {}"
  shows "elf_fits data (of_nat (length bs)) m" "elf_segments data m = image_segments bs" "e_entry m data = e_entry (bytes_mem bs) 0"
    "g \<in> set (image_segments bs) \<Longrightarrow> seg_bytes data m g = seg_bytes 0 (bytes_mem bs) g"
proof -
  have u: "unat (of_nat (length bs) :: u64) = length bs" using img by (simp add: elf_image_def unat_of_nat_u64)
  have id: "elf_ident_ok 0 (of_nat (length bs)) (bytes_mem bs)" using img by (simp add: elf_image_def)
  then have l: "58 \<le> length bs" using u by (simp add: elf_ident_ok_def word_le_nat_alt)
  show sg: "elf_segments data m = image_segments bs" by (rule segments_shift[OF ld(1) l ld(2)]) (use img in \<open>simp add: elf_image_def\<close>)
  have b: "m (unat data) = bytes_mem bs 0" "m (unat data + 1) = bytes_mem bs 1" "m (unat data + 2) = bytes_mem bs 2"
    "m (unat data + 3) = bytes_mem bs 3" "m (unat data + 4) = bytes_mem bs 4"
    using mem_load_byte[OF ld(1), of 0] mem_load_byte[OF ld(1), of 1] mem_load_byte[OF ld(1), of 2] mem_load_byte[OF ld(1), of 3]
      mem_load_byte[OF ld(1), of 4] l by (cases bs, simp_all)+
  have "elf_header_ok data (of_nat (length bs)) m"
    using id fields_shift[OF ld(1) l] ld(3) b by (simp add: elf_header_ok_def elf_ident_ok_def numeral_2_eq_2)
  moreover have "seg_fits data (of_nat (length bs)) g" if "g \<in> set (image_segments bs)" for g
    using img that dj u by (simp add: elf_image_def seg_fits_def image_range_def seg_end_def list_all_iff)
  ultimately show "elf_fits data (of_nat (length bs)) m"
    using img u ld(2) sg fields_shift[OF ld(1) l] by (simp add: elf_fits_def elf_image_def list_all_iff)
  show "e_entry m data = e_entry (bytes_mem bs) 0" by (rule fields_shift(3)[OF ld(1) l])
  show "seg_bytes data m g = seg_bytes 0 (bytes_mem bs) g" if "g \<in> set (image_segments bs)"
  proof -
    have "seg_off g + seg_filesz g \<le> length bs" using img that by (simp add: elf_image_def list_all_iff)
    then have "mem_load m (unat data + seg_off g) (seg_filesz g) = mem_load (bytes_mem bs) (seg_off g) (seg_filesz g)"
      using mem_load_byte[OF ld(1)] by (intro nth_equalityI) (simp_all add: add.assoc)
    then show ?thesis by (simp add: seg_bytes_def)
  qed
qed

section \<open>Correctness\<close>

lemma elf_load_segments:
  assumes "elf_fits data sz m"
  shows "\<exists>info m'. elf_load data sz m = (Some info, m') \<and>
    (\<forall>g \<in> set (elf_segments data m). mem_load m' (seg_vaddr g) (seg_memsz g) = seg_bytes data m g) \<and>
    (\<forall>a. a \<notin> \<Union> (seg_range ` set (elf_segments data m)) \<longrightarrow> m' a = m a) \<and>
    elf_entry info = e_entry m data \<and> unat (load_base info) = Min (seg_vaddr ` set (elf_segments data m)) \<and>
    unat (load_base info) + unat (load_size info) = Max (seg_end ` set (elf_segments data m))"
proof -
  define gs where "gs = elf_segments data m"
  define n where "n = unat (e_phnum m data)"
  have f: "elf_header_ok data sz m" "unat data + unat sz < 2 ^ 64" "unat (e_phoff m data) + 56 * n \<le> unat sz" "gs \<noteq> []"
    "\<And>g. g \<in> set gs \<Longrightarrow> seg_fits data sz g" "sorted_wrt (\<lambda>g h. seg_range g \<inter> seg_range h = {}) gs"
    using assms by (simp_all add: elf_fits_def gs_def n_def list_all_iff)
  have gs: "gs = map (seg_at m) (filter (\<lambda>p. p_type m p = 1) (map (\<lambda>k. data + e_phoff m data + 56 * of_nat k) [0..<n]))"
    by (simp add: gs_def elf_segments_def n_def)
  have sz: "58 \<le> unat sz" using f(1) by (simp add: elf_header_ok_def elf_ident_ok_def word_le_nat_alt)
  define m' where "m' = fold (place_seg data m) gs m"
  have len: "list_all (\<lambda>g. seg_filesz g \<le> seg_memsz g) gs" and ends: "\<And>g. g \<in> set gs \<Longrightarrow> seg_end g < 2 ^ 64 - 1"
    using f(5) by (simp_all add: list_all_iff seg_fits_def seg_end_def)
  have loop: "load_loop data sz (data + e_phoff m data) 0 m = (True, m')"
    unfolding m'_def gs by (rule load_loop_places[OF f(2) sz f(3)]) (use f(5) gs in \<open>auto simp: n_def\<close>)
  obtain mn mx where sp: "fold (span_step m (data + e_phoff m data)) [0..<n] (- 1, 0) = (mn, mx)" by fastforce
  have mm: "unat mn = Min (seg_vaddr ` set gs)" "unat mx = Max (seg_end ` set gs)" "unat mn \<le> unat mx" "unat mx < 2 ^ 64 - 1"
    using span_fold[OF _ gs sp] ends span_min_max[OF f(4) ends] by force+
  have "mn \<noteq> - 1" using mm(3,4) by (auto simp: unsigned_minus_1_eq_mask mask_eq_exp_minus_1)
  then have ld: "elf_load data sz m = (Some \<lparr>elf_entry = e_entry m' data, load_base = mn, load_size = mx - mn\<rparr>, m')"
    using f(1) sp loop by (simp add: elf_load_def n_def)
  have other: "m' a = m a" if "a \<notin> \<Union> (seg_range ` set gs)" for a
    unfolding m'_def by (rule fold_place_other[OF len that])
  have "m' a = m a" if "a \<in> image_range data sz" for a
    using other[of a] that f(5) by (fastforce simp: seg_fits_def disjoint_iff)
  then have "e_entry m' data = e_entry m data" by (rule fields_cong(2)) (use sz in simp_all)
  moreover have "unat mn + unat (mx - mn) = unat mx" using mm(3) by (simp add: unat_sub word_le_nat_alt)
  moreover have "mem_load m' (seg_vaddr g) (seg_memsz g) = seg_bytes data m g" if "g \<in> set gs" for g
    unfolding m'_def by (rule fold_place_loaded[OF len f(6) that])
  ultimately show ?thesis using ld other mm unfolding gs_def by (intro exI conjI) auto
qed

text \<open>
  C14: for an image with well-formed headers whose segments lie apart from the image and from
  each other, \<open>elf_load\<close> succeeds: afterwards every segment holds its bytes of the image followed by zeros, no
  other byte of memory has changed, and the returned entry point, base and size are those of the image.
\<close>

theorem elf_load_correct:
  assumes "elf_fits data sz m"
  shows "\<exists>info m'. elf_load data sz m = (Some info, m') \<and>
    (\<forall>g \<in> set (elf_segments data m). mem_load m' (seg_vaddr g) (seg_memsz g) = seg_bytes data m g) \<and>
    (\<forall>a. a \<notin> \<Union> (seg_range ` set (elf_segments data m)) \<longrightarrow> m' a = m a) \<and>
    elf_entry info = e_entry m data \<and> unat (load_base info) = Min (seg_vaddr ` set (elf_segments data m)) \<and>
    unat (load_base info) + unat (load_size info) = Max (seg_end ` set (elf_segments data m))"
  by (rule elf_load_segments[OF assms])

text \<open>An image of 124 bytes at address 65536 with one segment of four bytes, loaded to 4194304 and extended by four zeros.\<close>

definition demo_image :: "u8 list" where
  "demo_image = [0x7F, 0x45, 0x4C, 0x46, 2] @ replicate 11 0 @ [2, 0, 62, 0, 0, 0, 0, 0] @ [0, 0, 0x40, 0, 0, 0, 0, 0] @
     [64, 0, 0, 0, 0, 0, 0, 0] @ replicate 14 0 @ [56, 0, 1, 0] @ replicate 6 0 @
     [1, 0, 0, 0, 0, 0, 0, 0] @ [120, 0, 0, 0, 0, 0, 0, 0] @ [0, 0, 0x40, 0, 0, 0, 0, 0] @ replicate 8 0 @
     [4, 0, 0, 0, 0, 0, 0, 0] @ [8, 0, 0, 0, 0, 0, 0, 0] @ replicate 8 0 @ [0xB8, 1, 0, 0]"

definition demo_elf_mem :: mem where "demo_elf_mem = mem_store (\<lambda>_. 0xAA) 65536 demo_image"

lemma demo_byte: "65536 \<le> a \<Longrightarrow> a < 65660 \<Longrightarrow> demo_elf_mem a = demo_image ! (a - 65536)"
  by (simp add: demo_elf_mem_def mem_store_def demo_image_def)

lemmas demo_elf_eval = elf_fields rd64_def rd32_def rd16_def demo_byte demo_image_def nth_append

lemma demo_elf_header: "elf_header_ok 65536 124 demo_elf_mem" "e_phoff demo_elf_mem 65536 = 64" "e_phnum demo_elf_mem 65536 = 1"
  by (simp_all add: elf_header_ok_def elf_ident_ok_def demo_elf_eval)

lemma demo_elf_segments:
  "elf_segments 65536 demo_elf_mem = [\<lparr>seg_off = 120, seg_filesz = 4, seg_vaddr = 4194304, seg_memsz = 8\<rparr>]"
  by (simp add: elf_segments_def demo_elf_header seg_at_def demo_elf_eval)

theorem elf_load_correct_witness:
  "elf_fits 65536 124 demo_elf_mem \<and>
   (\<exists>info m'. elf_load 65536 124 demo_elf_mem = (Some info, m') \<and> mem_load m' 4194304 8 = [0xB8, 1, 0, 0, 0, 0, 0, 0] \<and>
     unat (load_base info) = 4194304 \<and> unat (load_size info) = 8)"
proof -
  have f: "elf_fits 65536 124 demo_elf_mem"
    by (auto simp: elf_fits_def demo_elf_segments demo_elf_header seg_fits_def seg_range_def image_range_def)
  moreover have "seg_bytes 65536 demo_elf_mem \<lparr>seg_off = 120, seg_filesz = 4, seg_vaddr = 4194304, seg_memsz = 8\<rparr> =
      [0xB8, 1, 0, 0, 0, 0, 0, 0]"
  proof -
    have "replicate 4 (0 :: u8) = [0, 0, 0, 0]" by (simp add: numeral_eq_Suc)
    then show ?thesis by (simp add: seg_bytes_def mem_load_def demo_byte demo_image_def upt_rec nth_append)
  qed
  ultimately show ?thesis using elf_load_correct[OF f] by (auto simp: demo_elf_segments seg_end_def)
qed

end
