(* ===== verification/Process.thy ===== *)
theory Process
  imports Vfs_Inv Elf
begin

text \<open>
  User programs (\<open>kernel/process/process.c\<close>): loading an ELF file from the file system, entering ring 3 and the return
  to the kernel through \<open>SYS_EXIT\<close>. Kernel and programs share one identity-mapped memory, the one of the kernel heap. What a
  program does between \<open>iretq\<close> and its \<open>SYS_EXIT\<close> is a parameter, as are the addresses the linker chooses.
  Messages on the serial port are left out, except for the list that \<open>process_list\<close> prints. A program that never exits, or a
  walk of the file system that does not end, makes the result \<open>None\<close>.
\<close>

section \<open>State\<close>

text \<open>The interrupt frame (\<open>struct irq_frame\<close>, \<open>struct syscall_frame\<close>).\<close>

record irq_frame =
  f_r15 :: u64  f_r14 :: u64  f_r13 :: u64  f_r12 :: u64  f_r11 :: u64  f_r10 :: u64  f_r9 :: u64  f_r8 :: u64
  f_rbp :: u64  f_rdi :: u64  f_rsi :: u64  f_rdx :: u64  f_rcx :: u64  f_rbx :: u64  f_rax :: u64
  f_vector :: u64  f_error :: u64  f_rip :: u64  f_cs :: u64  f_rflags :: u64  f_rsp :: u64  f_ss :: u64

record process_t =
  p_active :: bool
  p_pid :: int
  p_exit_code :: int
  kernel_rsp :: u64
  p_name :: "u8 list"

record proc =
  current_proc :: process_t
  next_pid :: int
  last_exit_code :: u64
  tss_rsp0 :: u64
  pvfs :: vfs

abbreviation pmem :: "proc \<Rightarrow> mem" where "pmem s \<equiv> hmem (vheap (pvfs s))"
abbreviation upd_mem :: "(mem \<Rightarrow> mem) \<Rightarrow> proc \<Rightarrow> proc" where
  "upd_mem g s \<equiv> s\<lparr>pvfs := (pvfs s)\<lparr>vheap := on_mem g (vheap (pvfs s))\<rparr>\<rparr>"
abbreviation upd_heap :: "heap \<Rightarrow> proc \<Rightarrow> proc" where "upd_heap h s \<equiv> s\<lparr>pvfs := (pvfs s)\<lparr>vheap := h\<rparr>\<rparr>"

abbreviation USER_STACK_TOP :: nat where "USER_STACK_TOP \<equiv> 0x403000"
abbreviation USER_CODE_FALLBACK :: nat where "USER_CODE_FALLBACK \<equiv> 0x400000"
abbreviation EXEC_BUF_MAX :: nat where "EXEC_BUF_MAX \<equiv> 262144"

text \<open>
  \<open>user_run E entry rsp s\<close> is the state in which the program started at \<open>entry\<close> raises \<open>int 0x80\<close> for \<open>SYS_EXIT\<close>,
  with the frame the processor and the stub have pushed then; \<open>None\<close> if that never happens.
\<close>

record user_env =
  user_run :: "u64 \<Rightarrow> u64 \<Rightarrow> proc \<Rightarrow> (irq_frame \<times> proc) option"
  resume_addr :: u64
  kstack_end :: u64
  kernel_sp :: u64

section \<open>Operations\<close>

definition process_current :: "proc \<Rightarrow> process_t option" where
  "process_current s = (if p_active (current_proc s) then Some (current_proc s) else None)"

definition c_int :: "u64 \<Rightarrow> int" where "c_int code = sint (ucast code :: u32)"

definition process_handle_exit :: "user_env \<Rightarrow> irq_frame \<Rightarrow> u64 \<Rightarrow> proc \<Rightarrow> bool \<times> irq_frame \<times> proc" where
  "process_handle_exit E f code s =
     (if \<not> p_active (current_proc s) then (False, f, s)
      else (True,
        f\<lparr>f_rip := resume_addr E, f_cs := 0x08, f_rflags := 0x202, f_rsp := kernel_rsp (current_proc s), f_ss := 0x10, f_rax := code\<rparr>,
        s\<lparr>current_proc := (current_proc s)\<lparr>p_exit_code := c_int code, p_active := False\<rparr>, last_exit_code := code\<rparr>))"

text \<open>
  The switch to ring 3 saves the kernel stack pointer. The program's exit ends in \<open>process_user_resume\<close>, whose \<open>ret\<close> on the
  saved stack is the return of \<open>process_switch_to_user\<close>; without an active process \<open>SYS_EXIT\<close> ends the
  thread and there is no return.
\<close>

definition process_switch_to_user :: "user_env \<Rightarrow> u64 \<Rightarrow> u64 \<Rightarrow> proc \<Rightarrow> proc option" where
  "process_switch_to_user E entry rsp s =
     do { (f, s1) \<leftarrow> user_run E entry rsp (s\<lparr>current_proc := (current_proc s)\<lparr>kernel_rsp := kernel_sp E\<rparr>\<rparr>);
          (case process_handle_exit E f (f_rdi f) s1 of (handled, f', s2) \<Rightarrow>
             if handled \<and> f_rip f' = resume_addr E then Some s2 else None) }"

definition enter_at :: "user_env \<Rightarrow> u64 \<Rightarrow> proc \<Rightarrow> (int \<times> proc) option" where
  "enter_at E entry s =
     (let s1 = (upd_mem (\<lambda>m. mem_set m (USER_STACK_TOP - 0x1000) 0 0x1000) s)\<lparr>tss_rsp0 := kstack_end E,
            current_proc := (current_proc s)\<lparr>p_active := True, p_exit_code := -1\<rparr>, last_exit_code := -1\<rparr>;
          s2 = (if p_pid (current_proc s1) = 0
            then s1\<lparr>current_proc := (current_proc s1)\<lparr>p_pid := next_pid s1\<rparr>, next_pid := next_pid s1 + 1\<rparr> else s1)
      in do { s3 \<leftarrow> process_switch_to_user E entry (of_nat USER_STACK_TOP) s2; Some (c_int (last_exit_code s3), s3) })"

definition new_pid :: "proc \<Rightarrow> proc" where
  "new_pid s = s\<lparr>current_proc := (current_proc s)\<lparr>p_pid := next_pid s\<rparr>, next_pid := next_pid s + 1\<rparr>"

text \<open>\<open>blob\<close> is the program between \<open>user_program_start\<close> and \<open>user_program_end\<close>.\<close>

definition user_enter :: "user_env \<Rightarrow> u8 list \<Rightarrow> proc \<Rightarrow> (int \<times> proc) option" where
  "user_enter E blob s =
     enter_at E (of_nat USER_CODE_FALLBACK) (new_pid (upd_mem (\<lambda>m. mem_store m USER_CODE_FALLBACK blob) s))"

definition process_list :: "proc \<Rightarrow> u8 list" where
  "process_list s = map of_char ''PID  STATE  NAME'' @ [10] @
     (if p_active (current_proc s)
      then dec_chars (of_int (p_pid (current_proc s))) @ map of_char ''  run    '' @
        (if p_name (current_proc s) \<noteq> [] then p_name (current_proc s) else map of_char ''?'') @ [10]
      else map of_char ''(no user process)'' @ [10])"

definition set_name :: "u8 list \<Rightarrow> proc \<Rightarrow> proc" where
  "set_name path s =
     s\<lparr>current_proc := (current_proc s)\<lparr>p_name := take 31 (rev (takeWhile (\<lambda>c. \<not> is_sep c) (rev path)))\<rparr>\<rparr>"

definition load_and_run :: "user_env \<Rightarrow> u64 \<Rightarrow> u64 \<Rightarrow> proc \<Rightarrow> (int \<times> proc) option" where
  "load_and_run E data n s =
     (case elf_load data n (pmem s) of (r, m) \<Rightarrow>
        let s1 = upd_mem (\<lambda>_. m) s
        in case r of None \<Rightarrow> Some (-1, s1) | Some info \<Rightarrow> enter_at E (elf_entry info) s1)"

text \<open>The tail of \<open>process_exec\<close> behind a successful read: the bytes are in the buffer, run them and free it.\<close>

definition exec_buffer :: "user_env \<Rightarrow> u64 \<Rightarrow> u8 list \<Rightarrow> proc \<Rightarrow> (int \<times> proc) option" where
  "exec_buffer E buf bs s =
     do { (rc, s1) \<leftarrow> load_and_run E buf (of_nat (length bs)) (upd_mem (\<lambda>m. mem_store m (unat buf) bs) s);
          h \<leftarrow> kfree buf (vheap (pvfs s1));
          Some (rc, upd_heap h s1) }"

definition process_exec :: "user_env \<Rightarrow> u8 list \<Rightarrow> proc \<Rightarrow> (int \<times> proc) option" where
  "process_exec E path s =
     do { (buf, h) \<leftarrow> kmalloc (of_nat EXEC_BUF_MAX) (vheap (pvfs s));
          (let s1 = upd_heap h s
           in if buf = 0 then Some (-1, s1)
           else let s2 = new_pid (set_name path s1)
           in do { r \<leftarrow> vfs_read path (EXEC_BUF_MAX - 1) (pvfs s2);
                   (case r of Some (b # bs) \<Rightarrow> exec_buffer E buf (b # bs) s2
                    | _ \<Rightarrow> do { r2 \<leftarrow> fat_read_file (vfat (pvfs s2)) path EXEC_BUF_MAX;
                        (case r2 of Some (b # bs) \<Rightarrow> exec_buffer E buf (b # bs) s2
                         | _ \<Rightarrow> do { h2 \<leftarrow> kfree buf h; Some (-1, upd_heap h2 s2) }) }) }) }"

text \<open>\<open>elf\<close> is the program linked in between \<open>_binary_hello_elf_start\<close> and \<open>_binary_hello_elf_end\<close>.\<close>

definition process_install_hello_elf :: "u8 list \<Rightarrow> proc \<Rightarrow> proc option" where
  "process_install_hello_elf elf s =
     (if elf = [] then Some s
      else do { (_, v) \<leftarrow> vfs_write (map of_char ''C:/Users/root/hello.elf'') elf (pvfs s); Some (s\<lparr>pvfs := v\<rparr>) })"

section \<open>Running a program\<close>

definition user_stack :: "nat set" where "user_stack = {USER_STACK_TOP - 0x1000..<USER_STACK_TOP}"

definition user_segments :: "u8 list \<Rightarrow> nat set" where "user_segments bs = \<Union> (seg_range ` set (image_segments bs))"

text \<open>The state in which the program \<open>bs\<close> begins to run.\<close>

definition program_at :: "user_env \<Rightarrow> u8 list \<Rightarrow> proc \<Rightarrow> bool" where
  "program_at E bs s \<longleftrightarrow> p_active (current_proc s) \<and> tss_rsp0 s = kstack_end E \<and>
     (\<forall>g \<in> set (image_segments bs). mem_load (pmem s) (seg_vaddr g) (seg_memsz g) = seg_bytes 0 (bytes_mem bs) g) \<and>
     (\<forall>a \<in> user_stack. pmem s a = 0)"

text \<open>A program that, started so, exits with \<open>code\<close> and writes only to its own segments and stack.\<close>

definition well_behaved :: "user_env \<Rightarrow> u8 list \<Rightarrow> u64 \<Rightarrow> bool" where
  "well_behaved E bs code \<longleftrightarrow> (\<forall>s. program_at E bs s \<longrightarrow>
     (\<exists>f m. user_run E (e_entry (bytes_mem bs) 0) (of_nat USER_STACK_TOP) s = Some (f, upd_mem (\<lambda>_. m) s) \<and> f_rdi f = code \<and>
        agree (- (user_segments bs \<union> user_stack)) (pmem s) m))"

lemma heap_ok_outside:
  assumes "heap_ok h fl bl" "agree (cover (fl @ bl)) (hmem h) m"
  shows "heap_ok (h\<lparr>hmem := m\<rparr>) fl bl"
proof -
  have "seg m (free_list h) fl 0" using assms seg_cong[of fl "hmem h" m] by (auto simp: heap_ok_def agree_def cover_def)
  moreover have "hdr m (fst y) HEAP_MAGIC_ALLOC (snd y)" if "y \<in> set bl" for y
  proof -
    have "region y \<subseteq> cover (fl @ bl)" using that by (auto simp: cover_def)
    then have "agree {fst y..<fst y + 24} (hmem h) m" using agree_subset[OF assms(2)] header_in_region[of y] by blast
    then show ?thesis using hdr_cong(1) assms(1) that by (auto simp: heap_ok_def)
  qed
  ultimately show ?thesis using assms(1) by (simp add: heap_ok_def)
qed

lemma foreign_mem [simp]: "foreign (h\<lparr>hmem := m\<rparr>) fl = foreign h fl"
  by (simp add: foreign_def)

lemma foreign_cover: "foreign h fl \<inter> cover fl = {}"
  by (auto simp: foreign_def)

lemma mem_load_agree: "agree A m m' \<Longrightarrow> {a..<a + n} \<subseteq> A \<Longrightarrow> mem_load m' a n = mem_load m a n"
  by (rule nth_equalityI) (auto simp: agree_def subset_iff)

text \<open>Entering a program whose segments are loaded: it runs from a cleared stack and its exit code is returned.\<close>

lemma enter_at_runs:
  assumes wb: "well_behaved E bs code" and pid: "p_pid (current_proc s) \<noteq> 0" and dj: "user_segments bs \<inter> user_stack = {}"
    and seg: "\<And>g. g \<in> set (image_segments bs) \<Longrightarrow> mem_load (pmem s) (seg_vaddr g) (seg_memsz g) = seg_bytes 0 (bytes_mem bs) g"
  shows "\<exists>m. enter_at E (e_entry (bytes_mem bs) 0) s = Some (c_int code, (upd_mem (\<lambda>_. m) s)\<lparr>tss_rsp0 := kstack_end E,
      current_proc := (current_proc s)\<lparr>p_active := False, p_exit_code := c_int code, kernel_rsp := kernel_sp E\<rparr>, last_exit_code := code\<rparr>) \<and>
    agree (- (user_segments bs \<union> user_stack)) (pmem s) m"
proof -
  define m0 where "m0 = mem_set (pmem s) 0x402000 0 0x1000"
  define s1 where "s1 = (upd_mem (\<lambda>_. m0) s)\<lparr>tss_rsp0 := kstack_end E, last_exit_code := -1,
      current_proc := (current_proc s)\<lparr>p_active := True, p_exit_code := -1, kernel_rsp := kernel_sp E\<rparr>\<rparr>"
  have ag: "agree (- user_stack) (pmem s) m0" by (auto simp: agree_def m0_def user_stack_def mem_set_def)
  have "mem_load m0 (seg_vaddr g) (seg_memsz g) = seg_bytes 0 (bytes_mem bs) g" if g: "g \<in> set (image_segments bs)" for g
  proof -
    have "seg_range g \<subseteq> - user_stack" using dj g by (auto simp: user_segments_def)
    then have "mem_load m0 (seg_vaddr g) (seg_memsz g) = mem_load (pmem s) (seg_vaddr g) (seg_memsz g)"
      using mem_load_agree[OF ag] by (simp add: seg_range_def)
    then show ?thesis using seg[OF g] by simp
  qed
  then have "program_at E bs s1" by (simp add: program_at_def s1_def user_stack_def m0_def mem_set_def)
  then obtain f m where r: "user_run E (e_entry (bytes_mem bs) 0) (of_nat USER_STACK_TOP) s1 = Some (f, upd_mem (\<lambda>_. m) s1)"
    "f_rdi f = code" "agree (- (user_segments bs \<union> user_stack)) (pmem s1) m" using wb unfolding well_behaved_def by blast
  have "agree (- (user_segments bs \<union> user_stack)) (pmem s) m0" by (rule agree_subset[OF ag]) auto
  then have "agree (- (user_segments bs \<union> user_stack)) (pmem s) m" using r(3) by (auto simp: s1_def agree_def)
  moreover have "enter_at E (e_entry (bytes_mem bs) 0) s = Some (c_int code, (upd_mem (\<lambda>_. m) s)\<lparr>tss_rsp0 := kstack_end E,
      current_proc := (current_proc s)\<lparr>p_active := False, p_exit_code := c_int code, kernel_rsp := kernel_sp E\<rparr>, last_exit_code := code\<rparr>)"
    using r pid by (simp add: enter_at_def process_switch_to_user_def process_handle_exit_def s1_def m0_def Let_def)
  ultimately show ?thesis by blast
qed

lemma kfree_last:
  assumes "heap_ok h fl (x # bl)" "heap_ready h" "owns (hmem h) (unat ptr) n x"
  shows "\<exists>h' fl'. kfree ptr h = Some h' \<and> heap_ok h' fl' bl \<and> heap_ready h' \<and> agree (foreign h fl - region x) (hmem h) (hmem h')"
  by (rule kfree_ok[of h fl "[]" x bl ptr n]) (use assms in auto)

lemma exec_buffer_runs:
  assumes h: "heap_ok (vheap (pvfs s)) fl (x # bl)" "heap_ready (vheap (pvfs s))" and own: "owns (pmem s) (unat buf) EXEC_BUF_MAX x"
    and img: "elf_image bs" "length bs \<le> EXEC_BUF_MAX" and wb: "well_behaved E bs code" and pid: "p_pid (current_proc s) \<noteq> 0"
    and dj: "user_segments bs \<inter> user_stack = {}"
    and area: "user_segments bs \<union> user_stack \<subseteq> foreign (vheap (pvfs s)) fl - cover (x # bl)"
  shows "\<exists>h' fl'. exec_buffer E buf bs s = Some (c_int code, (upd_heap h' s)\<lparr>tss_rsp0 := kstack_end E,
      current_proc := (current_proc s)\<lparr>p_active := False, p_exit_code := c_int code, kernel_rsp := kernel_sp E\<rparr>, last_exit_code := code\<rparr>) \<and>
    heap_ok h' fl' bl \<and> heap_ready h' \<and> agree (cover bl) (pmem s) (hmem h')"
proof -
  let ?h = "vheap (pvfs s)" and ?U = "user_segments bs \<union> user_stack"
  define m1 where "m1 = mem_store (pmem s) (unat buf) bs"
  note st = store_in_block[OF h(1) _ own img(2), folded m1_def]
  have okx: "block_ok x" "disj (fl @ x # bl)" "hdr (pmem s) (fst x) HEAP_MAGIC_ALLOC (snd x)" using h(1) by (simp_all add: heap_ok_def)
  note tgt = owns_target[OF okx(1,3) own]
  have lim: "unat buf + EXEC_BUF_MAX \<le> 2 ^ 32" using own okx(1) by (auto simp: owns_def block_ok_def)
  have inx: "{unat buf..<unat buf + length bs} \<subseteq> region x" using owns_inside[OF own] img(2) by (auto simp: region_def)
  have ld: "mem_load m1 (unat buf) (length bs) = bs" by (simp add: m1_def)
  have sd: "seg_range g \<inter> {unat buf..<unat buf + length bs} = {}" if "g \<in> set (image_segments bs)" for g
    using that area inx by (fastforce simp: user_segments_def)
  have nw: "unat buf + length bs < 2 ^ 64" using lim img(2) by simp
  note fit = elf_image_fits[OF img(1) ld nw tgt(2) sd]
  obtain info m2 where m2: "elf_load buf (of_nat (length bs)) m1 = (Some info, m2)" "elf_entry info = e_entry (bytes_mem bs) 0"
    "\<And>g. g \<in> set (image_segments bs) \<Longrightarrow> mem_load m2 (seg_vaddr g) (seg_memsz g) = seg_bytes 0 (bytes_mem bs) g"
    "agree (- user_segments bs) m1 m2"
    using elf_load_segments[OF fit(1)] fit(2-4) by (auto simp: agree_def user_segments_def)
  obtain m3 where m3: "enter_at E (e_entry (bytes_mem bs) 0) (upd_mem (\<lambda>_. m2) s) = Some (c_int code, (upd_mem (\<lambda>_. m3) s)\<lparr>tss_rsp0 := kstack_end E,
      current_proc := (current_proc s)\<lparr>p_active := False, p_exit_code := c_int code, kernel_rsp := kernel_sp E\<rparr>, last_exit_code := code\<rparr>)"
    "agree (- ?U) m2 m3" using enter_at_runs[OF wb _ dj, of "upd_mem (\<lambda>_. m2) s"] m2(3) pid by auto
  have a13: "agree (- ?U) m1 m3" using m2(4) m3(2) by (auto simp: agree_def)
  have cov: "cover (fl @ x # bl) \<subseteq> - ?U" using area foreign_cover[of ?h fl] by auto
  have ok3: "heap_ok (?h\<lparr>hmem := m3\<rparr>) fl (x # bl)"
    using heap_ok_outside[OF st(1), of m3] agree_subset[OF a13 cov] by simp
  have own3: "owns m3 (unat buf) EXEC_BUF_MAX x"
    using owns_agree[OF _ st(3), of m3] agree_subset[OF a13, of "region x"] cov by auto
  obtain h' fl' where k: "kfree buf (?h\<lparr>hmem := m3\<rparr>) = Some h'" "heap_ok h' fl' bl" "heap_ready h'"
    "agree (foreign ?h fl - region x) m3 (hmem h')"
    using kfree_last[OF ok3 _ _, of buf EXEC_BUF_MAX] own3 h(2) by auto
  have c: "cover bl \<subseteq> - region x" "cover bl \<subseteq> foreign ?h fl - region x" "cover bl \<subseteq> - ?U"
    using okx(2) cover_bl_foreign[OF h(1)] cov by (auto simp: disj_append)
  have "agree (cover bl) (pmem s) (hmem h')"
    using agree_trans[OF agree_trans[OF agree_subset[OF st(2) c(1)], of m3] agree_subset[OF k(4) c(2)]] agree_subset[OF a13 c(3)] by simp
  moreover have "exec_buffer E buf bs s = Some (c_int code, (upd_heap h' s)\<lparr>tss_rsp0 := kstack_end E,
      current_proc := (current_proc s)\<lparr>p_active := False, p_exit_code := c_int code, kernel_rsp := kernel_sp E\<rparr>, last_exit_code := code\<rparr>)"
    using m2(1,2) m3(1) k(1) by (simp add: exec_buffer_def load_and_run_def m1_def[symmetric] Let_def)
  ultimately show ?thesis using k by blast
qed

text \<open>Files keep their contents when the blocks that hold them do.\<close>

lemma files_kept:
  assumes "vfs_ok v" "heap_ok (vheap v) fl bl" "files_in v bl f" "heap_ok h fl' bl'" "heap_ready h"
    "agree (cover bl) (hmem (vheap v)) (hmem h)" "set bl \<subseteq> set bl'"
  shows "vfs_ok (v\<lparr>vheap := h\<rparr>)" "is_file v i \<Longrightarrow> content (v\<lparr>vheap := h\<rparr>) i = content v i" "same_tree v (v\<lparr>vheap := h\<rparr>)"
proof -
  have own: "owns (hmem (vheap v)) (unat (vdata (nodes v i))) (capacity (nodes v i)) (f i)" "region (f i) \<subseteq> cover bl"
    "vsize (nodes v i) \<le> capacity (nodes v i)" if "is_file v i" for i
    using that assms(3) by (auto simp: files_in_def cover_def)
  have ag: "agree (region (f i)) (hmem (vheap v)) (hmem h)" if "is_file v i" for i
    using agree_subset[OF assms(6) own(2)[OF that]] .
  have "files_in (v\<lparr>vheap := h\<rparr>) bl' f"
    using assms(3,7) owns_agree[OF ag own(1)] by (auto simp: files_in_def)
  moreover have "tree_ok (v\<lparr>vheap := h\<rparr>)" using assms(1) by (simp add: vfs_ok_def tree_ok_def)
  ultimately show "vfs_ok (v\<lparr>vheap := h\<rparr>)" using assms(4,5) by (auto simp: vfs_ok_def)
  show "content (v\<lparr>vheap := h\<rparr>) i = content v i" if "is_file v i"
    using content_agree[of "f i" v "v\<lparr>vheap := h\<rparr>" i] ag[OF that] own[OF that] by simp
  show "same_tree v (v\<lparr>vheap := h\<rparr>)" by (simp add: same_tree_def)
qed

lemma vfs_read_file:
  assumes "tree_ok v" "at_c v path" "vfs_lookup v path = Some (Some i)" "is_file v i" "vsize (nodes v i) \<le> n"
  shows "vfs_read path n v = Some (Some (content v i))"
  using assms at_c_parse[OF assms(2)] by (auto simp: vfs_read_def at_c_def content_def split: prod.split)


text \<open>
  A heap with one allocated block, which holds the image of the ELF example, and one free block; a file system with one
  file in that block; a program that exits with 7 at once.
\<close>

definition put_hdr :: "u64 \<Rightarrow> u32 \<Rightarrow> u32 \<Rightarrow> mem \<Rightarrow> mem" where
  "put_hdr b g n m = set_size b n (set_canary b (NOT g) (set_magic b g (set_next b 0 m)))"

definition exec_heap :: heap where
  "exec_heap = \<lparr>hmem = put_hdr 0x100000 HEAP_MAGIC_ALLOC 128 (put_hdr 0x100098 HEAP_MAGIC_FREE 262272 (\<lambda>_. 0)),
     hpmm = hpmm one_block_heap, free_list = 0x100098, heap_total = 262448, heap_used = 152, heap_ready = True\<rparr>"

definition exec_vfs :: vfs where
  "exec_vfs = \<lparr>nodes = (\<lambda>_. empty_node)(0 := empty_node\<lparr>vtype := TYPE_DIR, child := Some 1\<rparr>,
       1 := empty_node\<lparr>vname := [97], vtype := TYPE_FILE, parent := Some 0, vdata := 0x100018, vsize := 124, capacity := 128\<rparr>),
     node_count = 2, root = 0, cwd = 0, cur_drive = DRIVE_C,
     vheap = on_mem (\<lambda>m. mem_store m 0x100018 demo_image) exec_heap, vfat = demo_fat\<rparr>"

definition exit_frame :: "u64 \<Rightarrow> u64 \<Rightarrow> irq_frame" where
  "exit_frame entry rsp = \<lparr>f_r15 = 0, f_r14 = 0, f_r13 = 0, f_r12 = 0, f_r11 = 0, f_r10 = 0, f_r9 = 0,
     f_r8 = 0, f_rbp = 0, f_rdi = 7, f_rsi = 0, f_rdx = 0, f_rcx = 0, f_rbx = 0, f_rax = 1, f_vector = 128, f_error = 0, f_rip = entry,
     f_cs = 0x1B, f_rflags = 0x202, f_rsp = rsp, f_ss = 0x23\<rparr>"

definition exec_env :: user_env where
  "exec_env = \<lparr>user_run = (\<lambda>entry rsp s. Some (exit_frame entry rsp, s)), resume_addr = 0x101000, kstack_end = 0x90000,
     kernel_sp = 0x8F000\<rparr>"

definition exec_proc :: proc where
  "exec_proc = \<lparr>current_proc = \<lparr>p_active = False, p_pid = 0, p_exit_code = 0, kernel_rsp = 0, p_name = []\<rparr>, next_pid = 1,
     last_exit_code = 0, tss_rsp0 = 0, pvfs = exec_vfs\<rparr>"

lemma exec_heap_ok: "heap_ok exec_heap [(0x100098, 262272)] [(0x100000, 128)]"
proof -
  have "hdr (hmem exec_heap) 0x100000 HEAP_MAGIC_ALLOC 128" "hdr (hmem exec_heap) 0x100098 HEAP_MAGIC_FREE 262272"
    "rd64 (hmem exec_heap) (0x100098 + 8) = 0"
    by (simp_all add: hdr_def exec_heap_def put_hdr_def set_size_def set_canary_def set_magic_def set_next_def gw_frame)
  then show ?thesis
    using no_free_pages by (simp add: heap_ok_def block_ok_def disj_append region_def wfl_def bytes_def page_set_def exec_heap_def)
qed

lemma exec_vfs_ok:
  "heap_ok (vheap exec_vfs) [(0x100098, 262272)] [(0x100000, 128)]" "files_in exec_vfs [(0x100000, 128)] (\<lambda>_. (0x100000, 128))"
  "vfs_ok exec_vfs" "content exec_vfs 1 = demo_image"
proof -
  have own: "owns (hmem exec_heap) 0x100018 128 (0x100000, 128)" by (simp add: owns_def)
  have l: "length demo_image \<le> 128" "length demo_image = 124" by (simp_all add: demo_image_def)
  note st = store_in_block[OF exec_heap_ok _ own l(1)]
  show h: "heap_ok (vheap exec_vfs) [(0x100098, 262272)] [(0x100000, 128)]" using st(1) by (simp add: exec_vfs_def)
  have i: "is_file exec_vfs j \<longleftrightarrow> j = 1" for j by (auto simp: exec_vfs_def empty_node_def split: if_splits)
  have n1: "vdata (nodes exec_vfs 1) = 0x100018" "vsize (nodes exec_vfs 1) = 124" "capacity (nodes exec_vfs 1) = 128"
    by (simp_all add: exec_vfs_def)
  have "owns (hmem (vheap exec_vfs)) 0x100018 128 (0x100000, 128)" using st(3) by (simp add: exec_vfs_def)
  then show f: "files_in exec_vfs [(0x100000, 128)] (\<lambda>_. (0x100000, 128))"
    unfolding files_in_def i using n1 by (simp add: inj_on_def)
  have "tree_ok exec_vfs" by (simp add: tree_ok_def exec_vfs_def empty_node_def)
  moreover have "heap_ready (vheap exec_vfs)" by (simp add: exec_vfs_def exec_heap_def)
  ultimately show "vfs_ok exec_vfs" using h f unfolding vfs_ok_def by blast
  show "content exec_vfs 1 = demo_image"
    using mem_load_store[of "hmem exec_heap" "0x100018" demo_image] l(2) by (simp add: content_def exec_vfs_def)
qed

lemma demo_image_ok:
  "image_segments demo_image = [\<lparr>seg_off = 120, seg_filesz = 4, seg_vaddr = 4194304, seg_memsz = 8\<rparr>]" "elf_image demo_image"
proof -
  have b: "bytes_mem demo_image a = demo_image ! a" if "a < 124" for a using that by (simp add: bytes_mem_def demo_image_def)
  note ev = elf_fields rd64_def rd32_def rd16_def b and im = demo_image_def nth_append
  have e: "e_phoff (bytes_mem demo_image) 0 = 64" "e_phnum (bytes_mem demo_image) 0 = 1"
    by (simp_all add: ev) (simp_all add: im)
  have l: "length demo_image = 124" by (simp add: im)
  have p: "p_type (bytes_mem demo_image) 64 = 1"
    "seg_at (bytes_mem demo_image) 64 = \<lparr>seg_off = 120, seg_filesz = 4, seg_vaddr = 4194304, seg_memsz = 8\<rparr>"
    by (simp_all add: seg_at_def ev) (simp_all add: im)
  show s: "image_segments demo_image = [\<lparr>seg_off = 120, seg_filesz = 4, seg_vaddr = 4194304, seg_memsz = 8\<rparr>]"
    by (simp add: image_segments_def elf_segments_def e p)
  have "elf_ident_ok 0 124 (bytes_mem demo_image)" by (simp add: elf_ident_ok_def ev) (simp add: im)
  then show "elf_image demo_image" by (simp add: elf_image_def e l s seg_end_def)
qed


end
