(* ===== verification/Syscall.thy ===== *)
theory Syscall
  imports Process Screen
begin

text \<open>
  The system-call dispatcher (\<open>kernel/syscall/syscall.c\<close>) and its use of the console, the file system, the heap
  and the process state. \<open>thread_yield\<close> gives the processor to other threads, and interrupts arrive meanwhile: \<open>yield\<close>, the
  state in which the calling thread continues, is a parameter (\<open>None\<close> if it never does). Results are the words put into \<open>rax\<close>.
\<close>

section \<open>State\<close>

text \<open>\<open>uart_rx\<close> are the received bytes waiting in the UART, \<open>cur_tid\<close> the number of the current thread.\<close>

record kern =
  kproc :: proc
  kscreen :: screen
  kticks :: u64
  uart_rx :: "u8 list"
  cur_tid :: "int option"

abbreviation kmem :: "kern \<Rightarrow> mem" where "kmem s \<equiv> pmem (kproc s)"
abbreviation kvfs :: "kern \<Rightarrow> vfs" where "kvfs s \<equiv> pvfs (kproc s)"
abbreviation set_kvfs :: "vfs \<Rightarrow> kern \<Rightarrow> kern" where "set_kvfs v s \<equiv> s\<lparr>kproc := (kproc s)\<lparr>pvfs := v\<rparr>\<rparr>"
abbreviation set_kheap :: "heap \<Rightarrow> kern \<Rightarrow> kern" where "set_kheap h s \<equiv> s\<lparr>kproc := upd_heap h (kproc s)\<rparr>"

definition serial_rx_ready :: "kern \<Rightarrow> bool" where "serial_rx_ready s \<longleftrightarrow> uart_rx s \<noteq> []"

definition serial_getc_nonblock :: "kern \<Rightarrow> u8 option \<times> kern" where
  "serial_getc_nonblock s =
     (if \<not> serial_rx_ready s then (None, s) else (Some (hd (uart_rx s)), s\<lparr>uart_rx := tl (uart_rx s)\<rparr>))"

text \<open>The zero-terminated string at an address; without a zero the reading does not end.\<close>

partial_function (option) c_string :: "mem \<Rightarrow> nat \<Rightarrow> u8 list option" where
  "c_string m a = (if m a = 0 then Some [] else do { cs \<leftarrow> c_string m (a + 1); Some (m a # cs) })"

section \<open>Calls\<close>

fun write_loop :: "u8 list \<Rightarrow> screen \<Rightarrow> screen" where
  "write_loop [] sc = sc"
| "write_loop (c # cs) sc = (if c = 0 \<and> cs = [] then sc else write_loop cs (serial_putc c sc))"

definition sys_write :: "u64 \<Rightarrow> u64 \<Rightarrow> u64 \<Rightarrow> kern \<Rightarrow> (u64 \<times> kern) option" where
  "sys_write fd buf len s = Some (len, s\<lparr>kscreen := write_loop (mem_load (kmem s) (unat buf) (unat len)) (kscreen s)\<rparr>)"

partial_function (option) read_loop :: "(kern \<Rightarrow> kern option) \<Rightarrow> u64 \<Rightarrow> nat \<Rightarrow> nat \<Rightarrow> kern \<Rightarrow> (u64 \<times> kern) option" where
  "read_loop yield buf len n s =
     (if n < len then
        case serial_getc_nonblock s of
          (None, s1) \<Rightarrow> if n \<noteq> 0 then Some (of_nat n, s1) else do { s2 \<leftarrow> yield s1; read_loop yield buf len n s2 }
        | (Some c, s1) \<Rightarrow>
            let s2 = s1\<lparr>kproc := upd_mem (\<lambda>m. m(unat buf + n := c)) (kproc s1)\<rparr>
            in if c = 10 \<or> c = 13 then Some (of_nat (n + 1), s2) else read_loop yield buf len (n + 1) s2
      else Some (of_nat n, s))"

definition sys_read :: "(kern \<Rightarrow> kern option) \<Rightarrow> u64 \<Rightarrow> u64 \<Rightarrow> u64 \<Rightarrow> kern \<Rightarrow> (u64 \<times> kern) option" where
  "sys_read yield fd buf len s = read_loop yield buf (unat len) 0 s"

definition sys_open :: "u64 \<Rightarrow> u64 \<Rightarrow> u64 \<Rightarrow> kern \<Rightarrow> (u64 \<times> kern) option" where
  "sys_open path flags mode s =
     do { p \<leftarrow> c_string (kmem s) (unat path);
          n \<leftarrow> vfs_lookup (kvfs s) p;
          if n \<noteq> None then Some (3, s)
          else do { (r, v) \<leftarrow> vfs_create_file p (kvfs s);
                    if r \<noteq> 0 then Some (-1, set_kvfs v s)
                    else do { p1 \<leftarrow> c_string (hmem (vheap v)) (unat path);
                              n1 \<leftarrow> vfs_lookup v p1;
                              Some (if n1 = None then -1 else 3, set_kvfs v s) } } }"

text \<open>\<open>thread_exit\<close> does not return.\<close>

definition sys_exit :: "u64 \<Rightarrow> kern \<Rightarrow> (u64 \<times> kern) option" where "sys_exit code s = None"

definition sys_getpid :: "kern \<Rightarrow> (u64 \<times> kern) option" where
  "sys_getpid s = Some (case cur_tid s of None \<Rightarrow> 0 | Some t \<Rightarrow> of_int t, s)"

definition sys_yield :: "(kern \<Rightarrow> kern option) \<Rightarrow> kern \<Rightarrow> (u64 \<times> kern) option" where
  "sys_yield yield s = do { s1 \<leftarrow> yield s; Some (0, s1) }"

partial_function (option) sleep_loop :: "(kern \<Rightarrow> kern option) \<Rightarrow> u64 \<Rightarrow> u64 \<Rightarrow> kern \<Rightarrow> kern option" where
  "sleep_loop yield start wait s =
     (if kticks s - start < wait then do { s1 \<leftarrow> yield s; sleep_loop yield start wait s1 } else Some s)"

definition sys_sleep :: "(kern \<Rightarrow> kern option) \<Rightarrow> u64 \<Rightarrow> kern \<Rightarrow> (u64 \<times> kern) option" where
  "sys_sleep yield ticks_wait s = do { s1 \<leftarrow> sleep_loop yield (kticks s) ticks_wait s; Some (0, s1) }"

definition sys_alloc :: "u64 \<Rightarrow> kern \<Rightarrow> (u64 \<times> kern) option" where
  "sys_alloc n s = do { (p, h) \<leftarrow> kmalloc n (vheap (kvfs s)); Some (if p \<noteq> 0 then p else -1, set_kheap h s) }"

definition sys_free :: "u64 \<Rightarrow> kern \<Rightarrow> (u64 \<times> kern) option" where
  "sys_free p s = do { h \<leftarrow> kfree p (vheap (kvfs s)); Some (0, set_kheap h s) }"

section \<open>Dispatch\<close>

definition syscall_dispatch :: "(kern \<Rightarrow> kern option) \<Rightarrow> u64 \<Rightarrow> u64 \<Rightarrow> u64 \<Rightarrow> u64 \<Rightarrow> u64 \<Rightarrow> kern \<Rightarrow> (u64 \<times> kern) option" where
  "syscall_dispatch yield nr a0 a1 a2 a3 s =
     (if nr = 1 then sys_exit a0 s
      else if nr = 2 then sys_write a0 a1 a2 s
      else if nr = 3 then sys_read yield a0 a1 a2 s
      else if nr = 4 then sys_open a0 a1 a2 s
      else if nr = 5 then Some (0, s)
      else if nr = 6 then sys_getpid s
      else if nr = 7 then sys_yield yield s
      else if nr = 8 then sys_sleep yield a0 s
      else if nr = 9 then sys_alloc a0 s
      else if nr = 10 then sys_free a0 s
      else Some (-1, s))"

definition syscall_entry_c :: "user_env \<Rightarrow> (kern \<Rightarrow> kern option) \<Rightarrow> irq_frame \<Rightarrow> kern \<Rightarrow> (irq_frame \<times> kern) option" where
  "syscall_entry_c E yield f s =
     (let dispatch = do { (r, s1) \<leftarrow> syscall_dispatch yield (f_rax f) (f_rdi f) (f_rsi f) (f_rdx f) (f_rcx f) s;
            Some (f\<lparr>f_rax := r\<rparr>, s1) }
      in if f_rax f = 1 \<and> f_cs f AND 3 = 3 then
           (case process_handle_exit E f (f_rdi f) (kproc s) of (handled, f1, p) \<Rightarrow>
              if handled then Some (f1, s\<lparr>kproc := p\<rparr>) else dispatch)
         else dispatch)"

text \<open>\<open>gw_syscall\<close> raises the interrupt from kernel code: the frame then has the kernel's code segment.\<close>

definition gw_syscall :: "user_env \<Rightarrow> (kern \<Rightarrow> kern option) \<Rightarrow> irq_frame \<Rightarrow> u64 \<Rightarrow> u64 \<Rightarrow> u64 \<Rightarrow> u64 \<Rightarrow> u64 \<Rightarrow> kern \<Rightarrow> (u64 \<times> kern) option" where
  "gw_syscall E yield f nr a0 a1 a2 a3 s =
     do { (f1, s1) \<leftarrow> syscall_entry_c E yield (f\<lparr>f_rax := nr, f_rdi := a0, f_rsi := a1, f_rdx := a2, f_rcx := a3, f_cs := 0x08\<rparr>) s;
          Some (f_rax f1, s1) }"

section \<open>Properties\<close>

text \<open>A call changes no register of the frame but \<open>rax\<close>, or it is the exit of a program, and the frame leads back into the kernel.\<close>

lemma syscall_frame:
  assumes "syscall_entry_c E yield f s = Some (f', s')"
  shows "f' = f\<lparr>f_rax := f_rax f'\<rparr> \<or>
    f_rax f = 1 \<and> f_cs f AND 3 = 3 \<and> p_active (current_proc (kproc s)) \<and> \<not> p_active (current_proc (kproc s')) \<and>
    f' = f\<lparr>f_rip := resume_addr E, f_cs := 0x08, f_rflags := 0x202, f_rsp := kernel_rsp (current_proc (kproc s)), f_ss := 0x10, f_rax := f_rdi f\<rparr>"
  using assms by (auto simp: syscall_entry_c_def Let_def process_handle_exit_def split: bind_splits if_splits)

text \<open>Calls from kernel code never take the exit path of a program, and numbers without a call change nothing.\<close>

lemma gw_syscall_dispatch: "gw_syscall E yield f nr a0 a1 a2 a3 s = syscall_dispatch yield nr a0 a1 a2 a3 s"
  by (cases "syscall_dispatch yield nr a0 a1 a2 a3 s") (auto simp: gw_syscall_def syscall_entry_c_def Let_def)

lemma syscall_unknown: "10 < nr \<or> nr = 0 \<Longrightarrow> syscall_dispatch yield nr a0 a1 a2 a3 s = Some (-1, s)"
  by (auto simp: syscall_dispatch_def)

text \<open>
  \<open>sys_sleep\<close> returns once the requested number of ticks has passed, also across a wrap of the tick counter, if every
  yield comes back after at least one and at most 1000 ticks.
\<close>

definition ticking :: "(kern \<Rightarrow> kern option) \<Rightarrow> bool" where
  "ticking yield \<longleftrightarrow> (\<forall>s. \<exists>s' d. yield s = Some s' \<and> kticks s' = kticks s + of_nat d \<and> 1 \<le> d \<and> d \<le> 1000)"

lemma sleep_loop_returns:
  assumes "ticking yield" "unat wait \<le> 2 ^ 63"
  shows "unat (kticks s - start) < 2 ^ 63 + 1000 \<Longrightarrow> \<exists>s'. sleep_loop yield start wait s = Some s' \<and> wait \<le> kticks s' - start"
proof (induction "2 ^ 64 - unat (kticks s - start)" arbitrary: s rule: less_induct)
  case less
  show ?case
  proof (cases "kticks s - start < wait")
    case True
    obtain s1 d where y: "yield s = Some s1" "kticks s1 = kticks s + of_nat d" "1 \<le> d" "d \<le> 1000"
      using assms(1) unfolding ticking_def by blast
    have lt: "unat (kticks s - start) < 2 ^ 63" using True assms(2) by (simp add: word_less_nat_alt)
    have "kticks s1 - start = (kticks s - start) + of_nat d" using y(2) by simp
    moreover have "unat \<dots> = unat (kticks s - start) + d"
      using lt y(4) by (simp only: unat_word_ariths unat_of_nat take_bit_eq_mod) simp
    ultimately have "unat (kticks s1 - start) = unat (kticks s - start) + d" by (simp only:)
    then show ?thesis using less.hyps[of s1] lt y True by (subst sleep_loop.simps) simp
  qed (subst sleep_loop.simps, auto simp: not_less)
qed

lemma sys_sleep_waits:
  "ticking yield \<Longrightarrow> unat w \<le> 2 ^ 63 \<Longrightarrow> \<exists>s'. sys_sleep yield w s = Some (0, s') \<and> w \<le> kticks s' - kticks s"
  using sleep_loop_returns[of yield w s "kticks s"] by (auto simp: sys_sleep_def)

text \<open>With a line waiting in the UART \<open>sys_read\<close> stores it with its end of line and leaves the rest.\<close>

lemma read_loop_line:
  assumes "uart_rx s = l @ e # rest" "\<forall>c \<in> set l. c \<noteq> 10 \<and> c \<noteq> 13" "e = 10 \<or> e = 13" "n + length l < len"
  shows "read_loop yield buf len n s = Some (of_nat (n + length l + 1),
    s\<lparr>uart_rx := rest, kproc := upd_mem (\<lambda>m. mem_store m (unat buf + n) (l @ [e])) (kproc s)\<rparr>)"
  using assms
proof (induction l arbitrary: n s)
  case Nil
  then show ?case
    by (subst read_loop.simps)
      (auto simp: serial_getc_nonblock_def serial_rx_ready_def Let_def mem_store_def fun_upd_def fun_eq_iff le_less_Suc_eq
        intro!: arg_cong[where f = "\<lambda>m. s\<lparr>uart_rx := rest, kproc := upd_mem (\<lambda>_. m) (kproc s)\<rparr>"])
next
  case (Cons c l)
  have "mem_store (m(a := c)) (Suc a) xs = mem_store m a (c # xs)" for m a xs
    by (auto simp: fun_eq_iff mem_store_def nth_Cons')
  then show ?case using Cons
    by (subst read_loop.simps) (simp add: serial_getc_nonblock_def serial_rx_ready_def Let_def)
qed

lemma sys_read_line:
  assumes "uart_rx s = l @ e # rest" "\<forall>c \<in> set l. c \<noteq> 10 \<and> c \<noteq> 13" "e = 10 \<or> e = 13" "length l < unat len"
  shows "sys_read yield fd buf len s = Some (of_nat (length l + 1),
    s\<lparr>uart_rx := rest, kproc := upd_mem (\<lambda>m. mem_store m (unat buf) (l @ [e])) (kproc s)\<rparr>)"
  using read_loop_line[OF assms(1-3), of 0 "unat len"] assms(4) by (simp add: sys_read_def)

end
