(* ===== verification/Net.thy ===== *)
theory Net
  imports GW_Prelude "HOL-Library.Monad_Syntax"
begin

text \<open>
  The network stack over the NE2000 card: ARP, IPv4 and ICMP (\<open>kernel/net/net.c\<close>), UDP (\<open>kernel/net/udp.c\<close>) and the
  TCP client (\<open>kernel/net/tcp.c\<close>). Packets are byte lists. The card is a list of frames still to be
  received and a list of frames sent. While \<open>net_ipv4_send\<close> waits for an ARP reply it polls the card,
  and a segment received there may make TCP send again: \<open>net_poll\<close> takes the permitted depth of this nesting.
\<close>

section \<open>State\<close>

datatype tcp_state = ST_CLOSED | ST_SYN_SENT | ST_EST | ST_CLOSE_WAIT

record net =
  rx_frames :: "u8 list list"
  tx_frames :: "u8 list list"
  nic_mac :: "u8 list"
  net_up :: bool
  gw_mac :: "u8 list"
  gw_mac_valid :: bool
  arp_ip :: "u8 list"
  arp_mac :: "u8 list"
  arp_have :: bool
  tcp_cb :: bool
  udp_cb :: bool
  ip_id :: u16
  tcp_st :: tcp_state
  remote_ip :: "u8 list"
  local_port :: u16
  remote_port :: u16
  snd_nxt :: u32
  rcv_nxt :: u32
  rx_data :: "u8 list"
  got_synack :: bool
  got_fin :: bool
  isn_seed :: u32
  next_port :: u16
  udp_buf :: "u8 list"
  udp_src_ip :: "u8 list"
  udp_src_port :: u16
  udp_dst_port :: u16
  udp_have :: bool

definition ip_addr :: "u8 list" where "ip_addr = [10, 0, 2, 15]"
definition ip_gw :: "u8 list" where "ip_gw = [10, 0, 2, 2]"

definition hi :: "u16 \<Rightarrow> u8" where "hi w = ucast (drop_bit 8 w)"
definition lo :: "u16 \<Rightarrow> u8" where "lo w = ucast w"
definition be16 :: "u8 \<Rightarrow> u8 \<Rightarrow> u16" where "be16 a b = push_bit 8 (ucast a) OR ucast b"

definition be32_bytes :: "u32 \<Rightarrow> u8 list" where
  "be32_bytes w = [ucast (drop_bit 24 w), ucast (drop_bit 16 w), ucast (drop_bit 8 w), ucast w]"

definition be32 :: "u8 \<Rightarrow> u8 \<Rightarrow> u8 \<Rightarrow> u8 \<Rightarrow> u32" where
  "be32 a b c d = push_bit 24 (ucast a) OR push_bit 16 (ucast b) OR push_bit 8 (ucast c) OR ucast d"

section \<open>Internet checksum\<close>

fun sum16 :: "u8 list \<Rightarrow> u32" where
  "sum16 (a # b # p) = ucast (be16 a b) + sum16 p"
| "sum16 [a] = ucast (be16 a 0)"
| "sum16 [] = 0"

text \<open>\<open>while (sum >> 16) sum = (sum & 0xFFFF) + (sum >> 16);\<close>\<close>

function fold16 :: "u32 \<Rightarrow> u32" where
  "fold16 sm = (if drop_bit 16 sm \<noteq> 0 then fold16 ((sm AND 0xFFFF) + drop_bit 16 sm) else sm)"
  by pat_completeness auto

lemma halves:
  fixes sm :: u32
  shows "unat (sm AND 0xFFFF) = unat sm mod 65536" "unat (drop_bit 16 sm) = unat sm div 65536"
    "unat ((sm AND 0xFFFF) + drop_bit 16 sm) = unat sm mod 65536 + unat sm div 65536"
proof -
  have "sm AND 0xFFFF = take_bit 16 sm" by (simp add: take_bit_eq_mask mask_eq_exp_minus_1)
  then show a: "unat (sm AND 0xFFFF) = unat sm mod 65536" by (simp add: unsigned_take_bit_eq take_bit_eq_mod unat_mod)
  show b: "unat (drop_bit 16 sm) = unat sm div 65536" by (simp add: drop_bit_eq_div unat_div)
  have "unat sm < 2 ^ 32" using unsigned_less[of sm, where 'a = nat] by simp
  then have "unat sm div 65536 < 65536" by (simp add: div_less_iff_less_mult)
  then show "unat ((sm AND 0xFFFF) + drop_bit 16 sm) = unat sm mod 65536 + unat sm div 65536"
    using mod_less_divisor[of 65536 "unat sm"] a b by (simp add: unat_word_ariths)
qed

termination fold16
proof (relation "measure unat")
  fix sm :: u32 assume "drop_bit 16 sm \<noteq> 0"
  then have "0 < unat sm div 65536" using halves(2)[of sm] by (metis gr0I unat_eq_zero)
  moreover have "unat sm = unat sm div 65536 * 65536 + unat sm mod 65536" by (rule div_mult_mod_eq[symmetric])
  ultimately have "unat sm mod 65536 + unat sm div 65536 < unat sm" by linarith
  then show "((sm AND 0xFFFF) + drop_bit 16 sm, sm) \<in> measure unat" using halves(3)[of sm] by simp
qed simp

declare fold16.simps [simp del]

definition ip_checksum :: "u8 list \<Rightarrow> u16" where
  "ip_checksum p = ucast (NOT (fold16 (sum16 p)))"

section \<open>Ethernet and ARP\<close>

definition eth_send :: "u8 list \<Rightarrow> u16 \<Rightarrow> u8 list \<Rightarrow> net \<Rightarrow> net" where
  "eth_send dst ethertype payload s =
     (let frame = dst @ nic_mac s @ [hi ethertype, lo ethertype] @ payload
      in s\<lparr>tx_frames := tx_frames s @ [frame @ replicate (60 - length frame) 0]\<rparr>)"

definition arp_xmit :: "bool \<Rightarrow> u8 list \<Rightarrow> u8 list \<Rightarrow> net \<Rightarrow> net" where
  "arp_xmit is_req tip tmac s =
     eth_send (if is_req then replicate 6 0xFF else tmac) 0x0806
       ([0, 1, 8, 0, 6, 4, 0, if is_req then 1 else 2] @ nic_mac s @ ip_addr @
        (if is_req then replicate 6 0 else tmac) @ tip) s"

definition handle_arp :: "u8 list \<Rightarrow> net \<Rightarrow> net" where
  "handle_arp pkt s =
     (if length pkt < 28 then s
      else let op = be16 (pkt ! 6) (pkt ! 7); sha = take 6 (drop 8 pkt); spa = take 4 (drop 14 pkt); tpa = take 4 (drop 24 pkt)
      in if op = 1 then if tpa = ip_addr then arp_xmit False spa sha s else s
         else if op = 2 then
           let s1 = s\<lparr>arp_ip := spa, arp_mac := sha, arp_have := True\<rparr>
           in if spa = ip_gw then s1\<lparr>gw_mac := sha, gw_mac_valid := True\<rparr> else s1
         else s)"

section \<open>IPv4 output\<close>

definition ip_header :: "u16 \<Rightarrow> u16 \<Rightarrow> u8 \<Rightarrow> u16 \<Rightarrow> u8 list \<Rightarrow> u8 list" where
  "ip_header tlen ident proto c dst =
     [0x45, 0, hi tlen, lo tlen, hi ident, lo ident, 0, 0, 64, proto, hi c, lo c] @ ip_addr @ dst"

definition ip_packet :: "u16 \<Rightarrow> u8 \<Rightarrow> u8 list \<Rightarrow> u8 list \<Rightarrow> u8 list" where
  "ip_packet ident proto dst payload =
     (let tlen = of_nat (20 + length payload)
      in ip_header tlen ident proto (ip_checksum (ip_header tlen ident proto 0 dst)) dst @ payload)"

text \<open>
  The wait for an ARP reply: at most \<open>n\<close> polls; the Boolean tells whether the address is known at the end.
\<close>

fun arp_wait :: "(net \<Rightarrow> net option) \<Rightarrow> u8 list \<Rightarrow> nat \<Rightarrow> net \<Rightarrow> (bool \<times> net) option" where
  "arp_wait poll dst 0 s = Some (False, s)"
| "arp_wait poll dst (Suc n) s =
     (case poll s of None \<Rightarrow> None
      | Some s1 \<Rightarrow> if arp_have s1 \<and> arp_ip s1 = dst then Some (True, s1) else arp_wait poll dst n s1)"

definition ip_output :: "u8 list \<Rightarrow> u8 list \<Rightarrow> u8 \<Rightarrow> u8 list \<Rightarrow> net \<Rightarrow> int \<times> net" where
  "ip_output mac dst proto payload s =
     (if 20 + length payload > 1500 then (-1, s)
      else let s1 = s\<lparr>ip_id := ip_id s + 1\<rparr> in (0, eth_send mac 0x0800 (ip_packet (ip_id s1) proto dst payload) s1))"

definition net_ipv4_send :: "(net \<Rightarrow> net option) \<Rightarrow> u8 list \<Rightarrow> u8 \<Rightarrow> u8 list \<Rightarrow> net \<Rightarrow> (int \<times> net) option" where
  "net_ipv4_send poll dst proto payload s =
     (if \<not> net_up s then Some (-1, s)
      else if arp_have s \<and> arp_ip s = dst then Some (ip_output (arp_mac s) dst proto payload s)
      else case arp_wait poll dst 30 (arp_xmit True dst [] s) of None \<Rightarrow> None
         | Some (True, s1) \<Rightarrow> Some (ip_output (arp_mac s1) dst proto payload s1)
         | Some (False, s1) \<Rightarrow>
             if \<not> gw_mac_valid s1 then Some (-1, s1) else Some (ip_output (gw_mac s1) dst proto payload s1))"

section \<open>UDP input\<close>

definition on_udp :: "u8 list \<Rightarrow> u8 list \<Rightarrow> net \<Rightarrow> net" where
  "on_udp src udp s =
     (if length udp < 8 then s
      else let ulen = unat (be16 (udp ! 4) (udp ! 5));
               ulen = (if ulen < 8 \<or> ulen > length udp then unat (of_nat (length udp) :: u16) else ulen);
               plen = min (ulen - 8) 1500
      in s\<lparr>udp_buf := take plen (drop 8 udp), udp_src_ip := take 4 src, udp_src_port := be16 (udp ! 0) (udp ! 1),
           udp_dst_port := be16 (udp ! 2) (udp ! 3), udp_have := True\<rparr>)"

section \<open>TCP segments\<close>

definition pseudo_sum :: "u8 \<Rightarrow> u8 list \<Rightarrow> u8 list \<Rightarrow> nat \<Rightarrow> u32" where
  "pseudo_sum proto src dst len =
     ucast (be16 (src ! 0) (src ! 1)) + ucast (be16 (src ! 2) (src ! 3)) + ucast (be16 (dst ! 0) (dst ! 1)) +
     ucast (be16 (dst ! 2) (dst ! 3)) + ucast proto + of_nat len"

definition tcp_checksum :: "u8 list \<Rightarrow> u8 list \<Rightarrow> u8 list \<Rightarrow> u16" where
  "tcp_checksum src dst tcp = ucast (NOT (fold16 (pseudo_sum 6 src dst (length tcp) + sum16 tcp)))"

definition udp_checksum :: "u8 list \<Rightarrow> u8 list \<Rightarrow> u8 list \<Rightarrow> u16" where
  "udp_checksum src dst udp = ucast (NOT (fold16 (pseudo_sum 17 src dst (unat (of_nat (length udp) :: u16)) + sum16 udp)))"

definition tcp_segment :: "u8 \<Rightarrow> u8 list \<Rightarrow> u32 \<Rightarrow> u16 \<Rightarrow> net \<Rightarrow> u8 list" where
  "tcp_segment flags data ack c s =
     [hi (local_port s), lo (local_port s), hi (remote_port s), lo (remote_port s)] @ be32_bytes (snd_nxt s) @
     be32_bytes ack @ [0x50, flags, 0x40, 0, hi c, lo c, 0, 0] @ data"

definition send_segment :: "(net \<Rightarrow> net option) \<Rightarrow> u8 \<Rightarrow> u8 list \<Rightarrow> u32 \<Rightarrow> net \<Rightarrow> (int \<times> net) option" where
  "send_segment poll flags data ack s =
     (if 20 + length data > 1400 then Some (-1, s)
      else let c = tcp_checksum ip_addr (remote_ip s) (tcp_segment flags data ack 0 s)
      in net_ipv4_send poll (remote_ip s) 6 (tcp_segment flags data ack c s) s)"

definition send_ack :: "(net \<Rightarrow> net option) \<Rightarrow> net \<Rightarrow> net option" where
  "send_ack poll s = map_option snd (send_segment poll 0x10 [] (rcv_nxt s) s)"

section \<open>TCP input\<close>

text \<open>The three parts of \<open>on_tcp\<close> behind its checks: connection set-up, data, and FIN.\<close>

definition tcp_synack :: "(net \<Rightarrow> net option) \<Rightarrow> u16 \<Rightarrow> u32 \<Rightarrow> u32 \<Rightarrow> u8 \<Rightarrow> net \<Rightarrow> net option" where
  "tcp_synack poll sport sq ack flags s =
     (if flags AND 0x12 = 0x12
      then send_ack poll (s\<lparr>remote_port := sport, rcv_nxt := sq + 1, snd_nxt := ack, got_synack := True, tcp_st := ST_EST\<rparr>)
      else Some s)"

definition tcp_data :: "(net \<Rightarrow> net option) \<Rightarrow> u32 \<Rightarrow> u8 list \<Rightarrow> net \<Rightarrow> net option" where
  "tcp_data poll sq payload s =
     (if payload \<noteq> [] \<and> sq = rcv_nxt s
      then send_ack poll (s\<lparr>rx_data := rx_data s @ take (8192 - length (rx_data s)) payload,
             rcv_nxt := rcv_nxt s + of_nat (length payload)\<rparr>)
      else if payload \<noteq> [] then send_ack poll s else Some s)"

definition tcp_fin :: "(net \<Rightarrow> net option) \<Rightarrow> u32 \<Rightarrow> nat \<Rightarrow> u8 \<Rightarrow> net \<Rightarrow> net option" where
  "tcp_fin poll sq plen flags s =
     (if bit flags 0
      then map_option (\<lambda>s. s\<lparr>tcp_st := ST_CLOSE_WAIT\<rparr>) (send_ack poll
        (s\<lparr>rcv_nxt := (if sq = rcv_nxt s then sq + of_nat plen + 1 else if plen = 0 then sq + 1 else rcv_nxt s),
           got_fin := True\<rparr>))
      else Some s)"

definition on_tcp :: "(net \<Rightarrow> net option) \<Rightarrow> u8 list \<Rightarrow> u8 list \<Rightarrow> net \<Rightarrow> net option" where
  "on_tcp poll src tcp s =
     (if length tcp < 20 \<or> take 4 src \<noteq> remote_ip s \<or> be16 (tcp ! 2) (tcp ! 3) \<noteq> local_port s then Some s
      else
        let sport = be16 (tcp ! 0) (tcp ! 1);
            sq = be32 (tcp ! 4) (tcp ! 5) (tcp ! 6) (tcp ! 7);
            ack = be32 (tcp ! 8) (tcp ! 9) (tcp ! 10) (tcp ! 11);
            doff = unat (drop_bit 4 (tcp ! 12)) * 4; flags = tcp ! 13; payload = drop doff tcp
        in if doff < 20 \<or> doff > length tcp then Some s
           else if tcp_st s = ST_SYN_SENT then tcp_synack poll sport sq ack flags s
           else if tcp_st s \<noteq> ST_EST \<and> tcp_st s \<noteq> ST_CLOSE_WAIT then Some s
           else if sport \<noteq> remote_port s then Some s
           else case tcp_data poll sq payload s of None \<Rightarrow> None
             | Some s1 \<Rightarrow> tcp_fin poll sq (length payload) flags s1)"

section \<open>IPv4 input\<close>

definition icmp_reply :: "u8 list \<Rightarrow> u8 list \<Rightarrow> u8 list" where
  "icmp_reply src payload =
     (let body = (\<lambda>c. [0, payload ! 1, hi c, lo c] @ drop 4 payload)
      in ip_packet 0 1 src (body (ip_checksum (body 0))))"

definition handle_ip :: "(net \<Rightarrow> net option) \<Rightarrow> u8 list \<Rightarrow> net \<Rightarrow> net option" where
  "handle_ip poll frame s =
     (if length frame < 34 then Some s
      else let ip = drop 14 frame; ihl = unat (ip ! 0 AND 0xF) * 4
      in if drop_bit 4 (ip ! 0) \<noteq> 4 \<or> ihl < 20 \<or> 14 + ihl > length frame then Some s
      else let tot = unat (be16 (ip ! 2) (ip ! 3)); avail = length frame - 14;
               tot' = (if tot > avail then unat (of_nat avail :: u16) else tot)
      in if tot < ihl \<or> tot' < ihl then Some s
      else let proto = ip ! 9; src = take 4 (drop 12 ip); payload = take (tot' - ihl) (drop ihl ip)
      in if proto = 1 \<and> length payload \<ge> 8 \<and> payload ! 0 = 8 then
           if 20 + length payload > 1500 then Some s
           else Some (eth_send (take 6 (drop 6 frame)) 0x0800 (icmp_reply src payload) s)
         else if proto = 1 \<and> length payload \<ge> 8 \<and> payload ! 0 = 0 then Some s
         else if proto = 6 \<and> tcp_cb s then on_tcp poll src payload s
         else if proto = 17 \<and> udp_cb s then Some (on_udp src payload s)
         else Some s)"

fun net_poll :: "nat \<Rightarrow> net \<Rightarrow> net option" where
  "net_poll 0 s = None"
| "net_poll (Suc depth) s =
     (case rx_frames s of [] \<Rightarrow> Some s
      | frame # rest \<Rightarrow>
        let s1 = s\<lparr>rx_frames := rest\<rparr>
        in if length frame < 14 then Some s1
           else let type = be16 (frame ! 12) (frame ! 13)
           in if type = 0x0806 then Some (handle_arp (drop 14 frame) s1)
              else if type = 0x0800 then handle_ip (net_poll depth) frame s1
              else Some s1)"

declare net_poll.simps [simp del]

section \<open>Interface of net.c\<close>

definition net_set_tcp_rx :: "bool \<Rightarrow> net \<Rightarrow> net" where "net_set_tcp_rx b s = s\<lparr>tcp_cb := b\<rparr>"
definition net_set_udp_rx :: "bool \<Rightarrow> net \<Rightarrow> net" where "net_set_udp_rx b s = s\<lparr>udp_cb := b\<rparr>"

fun poll_until :: "(net \<Rightarrow> net option) \<Rightarrow> (net \<Rightarrow> bool) \<Rightarrow> nat \<Rightarrow> net \<Rightarrow> net option" where
  "poll_until poll stop 0 s = Some s"
| "poll_until poll stop (Suc n) s = do { s1 \<leftarrow> poll s; if stop s1 then Some s1 else poll_until poll stop n s1 }"

text \<open>\<open>present\<close> is the result of the card's initialisation.\<close>

definition net_init :: "(net \<Rightarrow> net option) \<Rightarrow> bool \<Rightarrow> net \<Rightarrow> (int \<times> net) option" where
  "net_init poll present s =
     (let s1 = s\<lparr>net_up := False, gw_mac_valid := False, arp_have := False, tcp_cb := False, udp_cb := False\<rparr>
      in if \<not> present then Some (-1, s1)
         else map_option (\<lambda>s. (0, s)) (poll_until poll gw_mac_valid 30 (arp_xmit True ip_gw [] (s1\<lparr>net_up := True\<rparr>))))"

definition net_ping :: "(net \<Rightarrow> net option) \<Rightarrow> u8 list \<Rightarrow> net \<Rightarrow> (int \<times> net) option" where
  "net_ping poll dst s =
     (let icmp = (\<lambda>c. [8, 0, hi c, lo c, 0x12, 0x34, 0, 1])
      in do { (r, s1) \<leftarrow> net_ipv4_send poll dst 1 (icmp (ip_checksum (icmp 0))) s;
              if r \<noteq> 0 then Some (-1, s1)
              else map_option (\<lambda>s. (0, s)) (poll_until poll (\<lambda>_. False) 40 s1) })"

section \<open>UDP interface\<close>

definition udp_send :: "(net \<Rightarrow> net option) \<Rightarrow> u8 list \<Rightarrow> u16 \<Rightarrow> u16 \<Rightarrow> u8 list \<Rightarrow> net \<Rightarrow> (int \<times> net) option" where
  "udp_send poll dst dport sport data s =
     (if length data + 8 > 1480 then Some (-1, s)
      else let ulen = of_nat (8 + length data)
      in net_ipv4_send poll dst 17 ([hi sport, lo sport, hi dport, lo dport, hi ulen, lo ulen, 0, 0] @ data) s)"

text \<open>The received datagram, its source address and port; \<open>None\<close> on a time-out.\<close>

fun udp_wait :: "(net \<Rightarrow> net option) \<Rightarrow> u16 \<Rightarrow> nat \<Rightarrow> nat \<Rightarrow> net \<Rightarrow> ((u8 list \<times> u8 list \<times> u16) option \<times> net) option" where
  "udp_wait poll port maxlen 0 s = Some (None, s)"
| "udp_wait poll port maxlen (Suc n) s =
     do { s1 \<leftarrow> poll s;
          if udp_have s1 \<and> udp_dst_port s1 = port
          then Some (Some (take maxlen (udp_buf s1), udp_src_ip s1, udp_src_port s1), s1\<lparr>udp_have := False\<rparr>)
          else udp_wait poll port maxlen n s1 }"

definition udp_recv :: "(net \<Rightarrow> net option) \<Rightarrow> u16 \<Rightarrow> nat \<Rightarrow> nat \<Rightarrow> net \<Rightarrow> ((u8 list \<times> u8 list \<times> u16) option \<times> net) option" where
  "udp_recv poll port maxlen timeout s = udp_wait poll port maxlen timeout (net_set_udp_rx True s)"

section \<open>TCP interface\<close>

definition settle :: "(net \<Rightarrow> net option) \<Rightarrow> nat \<Rightarrow> net \<Rightarrow> net option" where
  "settle poll n s = poll_until poll (\<lambda>_. False) (min n 30) s"

definition tcp_close :: "(net \<Rightarrow> net option) \<Rightarrow> net \<Rightarrow> net option" where
  "tcp_close poll s =
     do { s1 \<leftarrow> (if tcp_st s = ST_EST \<or> tcp_st s = ST_CLOSE_WAIT
            then do { (_, s1) \<leftarrow> send_segment poll 0x11 [] (rcv_nxt s) s;
                      s2 \<leftarrow> settle poll 40 (s1\<lparr>snd_nxt := snd_nxt s1 + 1\<rparr>);
                      (_, s3) \<leftarrow> send_segment poll 0x14 [] (rcv_nxt s2) s2;
                      settle poll 15 s3 }
            else Some s);
          settle poll 25 (net_set_tcp_rx False (s1\<lparr>tcp_st := ST_CLOSED, rx_data := [], got_fin := False, got_synack := False\<rparr>)) }"

definition tcp_connect :: "(net \<Rightarrow> net option) \<Rightarrow> u8 list \<Rightarrow> u16 \<Rightarrow> net \<Rightarrow> (int \<times> net) option" where
  "tcp_connect poll ip port s =
     do { s1 \<leftarrow> (if tcp_st s \<noteq> ST_CLOSED then tcp_close poll s else Some s);
          s2 \<leftarrow> settle poll 20 s1;
          (let np = next_port s2 + 1; seed = isn_seed s2 * 1103515245 + 12345;
               s3 = (net_set_tcp_rx True s2)\<lparr>remote_ip := ip, remote_port := port, local_port := next_port s2,
                 next_port := (if np < 42000 then 42000 else np), isn_seed := seed, snd_nxt := seed, rcv_nxt := 0,
                 rx_data := [], got_synack := False, got_fin := False, tcp_st := ST_SYN_SENT\<rparr>
           in do { (r, s4) \<leftarrow> send_segment poll 0x02 [] 0 s3;
                   if r \<noteq> 0 then Some (-1, s4\<lparr>tcp_st := ST_CLOSED\<rparr>)
                   else do { s5 \<leftarrow> poll_until poll got_synack 400 (s4\<lparr>snd_nxt := snd_nxt s4 + 1\<rparr>);
                             if got_synack s5 then Some (0, s5)
                             else Some (-1, net_set_tcp_rx False (s5\<lparr>tcp_st := ST_CLOSED\<rparr>)) } }) }"

function tcp_send_loop :: "(net \<Rightarrow> net option) \<Rightarrow> u8 list \<Rightarrow> net \<Rightarrow> (int \<times> net) option" where
  "tcp_send_loop poll data s =
     (if data = [] then Some (0, s)
      else do { (r, s1) \<leftarrow> send_segment poll 0x18 (take 800 data) (rcv_nxt s) s;
                if r \<noteq> 0 then Some (-1, s1)
                else do { s2 \<leftarrow> settle poll 5 (s1\<lparr>snd_nxt := snd_nxt s1 + of_nat (length (take 800 data))\<rparr>);
                          tcp_send_loop poll (drop 800 data) s2 } })"
  by pat_completeness auto
termination
  by (relation "measure (\<lambda>(poll, data, s). length data)") auto

declare tcp_send_loop.simps [simp del]

definition tcp_send :: "(net \<Rightarrow> net option) \<Rightarrow> u8 list \<Rightarrow> net \<Rightarrow> (int \<times> net) option" where
  "tcp_send poll data s = (if tcp_st s \<noteq> ST_EST then Some (-1, s) else tcp_send_loop poll data s)"

text \<open>The bytes read; \<open>None\<close> on a time-out, the empty list at the end of the stream.\<close>

fun tcp_recv :: "(net \<Rightarrow> net option) \<Rightarrow> nat \<Rightarrow> nat \<Rightarrow> net \<Rightarrow> (u8 list option \<times> net) option" where
  "tcp_recv poll maxlen 0 s = Some (None, s)"
| "tcp_recv poll maxlen (Suc n) s =
     do { s1 \<leftarrow> poll s;
          if rx_data s1 \<noteq> [] then Some (Some (take maxlen (rx_data s1)), s1\<lparr>rx_data := drop maxlen (rx_data s1)\<rparr>)
          else if got_fin s1 then Some (Some [], s1)
          else tcp_recv poll maxlen n s1 }"

definition tcp_is_connected :: "net \<Rightarrow> bool" where
  "tcp_is_connected s \<longleftrightarrow> tcp_st s = ST_EST \<or> tcp_st s = ST_CLOSE_WAIT"

section \<open>Polling terminates\<close>

text \<open>A poll that returns on every state with at most \<open>k\<close> pending frames, and adds none.\<close>

definition good :: "nat \<Rightarrow> (net \<Rightarrow> net option) \<Rightarrow> bool" where
  "good k poll \<longleftrightarrow> (\<forall>s. length (rx_frames s) \<le> k \<longrightarrow> (\<exists>s'. poll s = Some s' \<and> length (rx_frames s') \<le> length (rx_frames s)))"

lemma eth_send_simps [simp]:
  "rx_frames (eth_send d e p s) = rx_frames s" "net_up (eth_send d e p s) = net_up s"
  "tcp_st (eth_send d e p s) = tcp_st s" "rcv_nxt (eth_send d e p s) = rcv_nxt s" "rx_data (eth_send d e p s) = rx_data s"
  "remote_ip (eth_send d e p s) = remote_ip s" "remote_port (eth_send d e p s) = remote_port s"
  "local_port (eth_send d e p s) = local_port s" "tcp_cb (eth_send d e p s) = tcp_cb s" "got_fin (eth_send d e p s) = got_fin s"
  "got_synack (eth_send d e p s) = got_synack s" "arp_have (eth_send d e p s) = arp_have s"
  by (simp_all add: eth_send_def Let_def)

lemma arp_wait_good:
  assumes "good k poll" "length (rx_frames s) \<le> k"
  shows "\<exists>b s'. arp_wait poll dst n s = Some (b, s') \<and> length (rx_frames s') \<le> length (rx_frames s)"
  using assms(2)
proof (induction n arbitrary: s)
  case (Suc n)
  obtain s1 where s1: "poll s = Some s1" "length (rx_frames s1) \<le> length (rx_frames s)"
    using assms(1) Suc.prems by (auto simp: good_def)
  then have "length (rx_frames s1) \<le> k" using Suc.prems by simp
  then obtain b s' where "arp_wait poll dst n s1 = Some (b, s')" "length (rx_frames s') \<le> length (rx_frames s1)"
    using Suc.IH by blast
  then show ?case using s1 by auto
qed auto

lemma ip_output_rx [simp]: "rx_frames (snd (ip_output mac dst proto p s)) = rx_frames s"
  by (simp add: ip_output_def Let_def)

lemma ipv4_send_good:
  assumes "good k poll" "length (rx_frames s) \<le> k"
  shows "\<exists>r s'. net_ipv4_send poll dst proto p s = Some (r, s') \<and> length (rx_frames s') \<le> length (rx_frames s)"
proof -
  let ?s = "arp_xmit True dst [] s"
  have l: "rx_frames ?s = rx_frames s" by (simp add: arp_xmit_def)
  have "length (rx_frames ?s) \<le> k" using assms(2) l by simp
  from arp_wait_good[OF assms(1) this, of dst 30] obtain b s1 where
    w: "arp_wait poll dst 30 ?s = Some (b, s1)" "length (rx_frames s1) \<le> length (rx_frames s)" using l by auto
  have out: "\<exists>r s''. Some (ip_output mac dst proto p s') = Some (r, s'') \<and> length (rx_frames s'') \<le> length (rx_frames s)"
    if "length (rx_frames s') \<le> length (rx_frames s)" for mac s'
    using that by (cases "ip_output mac dst proto p s'") (metis ip_output_rx snd_conv)
  show ?thesis using w out[of s] out[of s1] by (auto simp: net_ipv4_send_def split: bool.split)
qed

lemma send_segment_good:
  assumes "good k poll" "length (rx_frames s) \<le> k"
  shows "\<exists>r s'. send_segment poll flags d a s = Some (r, s') \<and> length (rx_frames s') \<le> length (rx_frames s)"
  using ipv4_send_good[OF assms] by (simp add: send_segment_def Let_def)

lemma send_ack_good:
  assumes "good k poll" "length (rx_frames s) \<le> k"
  shows "\<exists>s'. send_ack poll s = Some s' \<and> length (rx_frames s') \<le> length (rx_frames s)"
  using send_segment_good[OF assms] by (force simp: send_ack_def)

lemma on_tcp_good:
  assumes "good k poll" "length (rx_frames s) \<le> k"
  shows "\<exists>s'. on_tcp poll src tcp s = Some s' \<and> length (rx_frames s') \<le> length (rx_frames s)"
proof -
  have ack: "\<exists>s'. send_ack poll u = Some s' \<and> length (rx_frames s') \<le> length (rx_frames s)"
    if "rx_frames u = rx_frames s" for u using send_ack_good[OF assms(1), of u] assms(2) that by simp
  have syn: "\<exists>s'. tcp_synack poll sp sq a fl s = Some s' \<and> length (rx_frames s') \<le> length (rx_frames s)" for sp sq a fl
    using ack by (simp add: tcp_synack_def)
  have data: "\<exists>s'. tcp_data poll sq p s = Some s' \<and> length (rx_frames s') \<le> length (rx_frames s)" for sq p
    using ack by (simp add: tcp_data_def)
  have fin: "\<exists>s'. tcp_fin poll sq n fl u = Some s' \<and> length (rx_frames s') \<le> length (rx_frames s)"
    if u: "length (rx_frames u) \<le> length (rx_frames s)" for sq n fl u
  proof (cases "bit fl 0")
    case True
    define v where "v = u\<lparr>rcv_nxt := (if sq = rcv_nxt u then sq + of_nat n + 1 else if n = 0 then sq + 1 else rcv_nxt u),
        got_fin := True\<rparr>"
    have "length (rx_frames v) \<le> k" "rx_frames v = rx_frames u" using u assms(2) by (simp_all add: v_def)
    from send_ack_good[OF assms(1) this(1)] this(2) obtain w where
      "send_ack poll v = Some w" "length (rx_frames w) \<le> length (rx_frames u)" by auto
    then show ?thesis using True u by (simp add: tcp_fin_def v_def[symmetric])
  qed (use u in \<open>simp add: tcp_fin_def\<close>)
  have both: "\<exists>s'. (case tcp_data poll sq p s of None \<Rightarrow> None | Some s1 \<Rightarrow> tcp_fin poll sq n fl s1) = Some s' \<and>
      length (rx_frames s') \<le> length (rx_frames s)" for sq p n fl
    using data[of sq p] fin by fastforce
  show ?thesis using syn both by (simp add: on_tcp_def Let_def)
qed

lemma handle_ip_good:
  assumes "good k poll" "length (rx_frames s) \<le> k"
  shows "\<exists>s'. handle_ip poll frame s = Some s' \<and> length (rx_frames s') \<le> length (rx_frames s)"
proof -
  define Q where "Q x \<longleftrightarrow> (\<exists>s'. x = Some s' \<and> length (rx_frames s') \<le> length (rx_frames s))" for x :: "net option"
  have Q: "Q a \<Longrightarrow> Q b \<Longrightarrow> Q (if c then a else b)" for a b c by simp
  have "Q (Some s)" "Q (Some (eth_send d e p s))" "Q (Some (on_udp src udp s))" "Q (on_tcp poll src tcp s)"
    for d e p src udp tcp
    using on_tcp_good[OF assms] by (simp_all add: Q_def on_udp_def Let_def)
  then have "Q (handle_ip poll frame s)" unfolding handle_ip_def Let_def by (intro Q)
  then show ?thesis by (simp add: Q_def)
qed

lemma net_poll_good: "good k (net_poll (Suc k))"
proof (induction k)
  case 0
  then show ?case by (auto simp: good_def net_poll.simps)
next
  case (Suc k)
  show ?case unfolding good_def
  proof (intro allI impI)
    fix s :: net assume l: "length (rx_frames s) \<le> Suc k"
    show "\<exists>s'. net_poll (Suc (Suc k)) s = Some s' \<and> length (rx_frames s') \<le> length (rx_frames s)"
    proof (cases "rx_frames s")
      case (Cons f rest)
      let ?s = "s\<lparr>rx_frames := rest\<rparr>"
      have k: "length (rx_frames ?s) \<le> k" using l Cons by simp
      obtain s' where "handle_ip (net_poll (Suc k)) f ?s = Some s'" "length (rx_frames s') \<le> length rest"
        using handle_ip_good[OF Suc.IH k, of f] by auto
      moreover have "rx_frames (handle_arp p ?s) = rest" for p by (simp add: handle_arp_def arp_xmit_def Let_def)
      ultimately show ?thesis using Cons by (simp add: Let_def net_poll.simps(2)[of "Suc k"])
    qed (simp add: net_poll.simps)
  qed
qed

lemma poll_until_good:
  assumes "good k poll" "length (rx_frames s) \<le> k"
  shows "\<exists>s'. poll_until poll stop n s = Some s' \<and> length (rx_frames s') \<le> length (rx_frames s)"
  using assms(2)
proof (induction n arbitrary: s)
  case (Suc n)
  obtain s1 where s1: "poll s = Some s1" "length (rx_frames s1) \<le> length (rx_frames s)"
    using assms(1) Suc.prems by (auto simp: good_def)
  then have "length (rx_frames s1) \<le> k" using Suc.prems by simp
  then obtain s' where "poll_until poll stop n s1 = Some s'" "length (rx_frames s') \<le> length (rx_frames s1)"
    using Suc.IH by blast
  then show ?case using s1 by auto
qed simp

end
