(* ===== verification/Net_Wire.thy ===== *)
theory Net_Wire
  imports Net
begin

text \<open>
  What the network stack puts on the wire: Internet checksums that a receiver accepts, ICMP echo
  replies, and the termination of polling.
\<close>

section \<open>Ones' complement arithmetic\<close>

lemma unat_ucast_u8 [simp]: "unat (ucast (w :: u8) :: u16) = unat w"
  using unsigned_less[of w, where 'a = nat] by (simp add: unsigned_ucast_eq take_bit_nat_eq_self)

lemma unat_ucast_u16 [simp]: "unat (ucast (w :: u16) :: u32) = unat w"
  using unsigned_less[of w, where 'a = nat] by (simp add: unsigned_ucast_eq take_bit_nat_eq_self)

lemma be16_nat: "unat (be16 a b) = unat a * 256 + unat b"
proof -
  have "be16 a b = push_bit 8 (ucast a) + ucast b"
    unfolding be16_def by (rule disjunctive_add[symmetric]) (auto simp: bit_simps dest: bit_imp_le_length)
  moreover have "unat a < 256" "unat b < 256"
    using unsigned_less[of a, where 'a = nat] unsigned_less[of b, where 'a = nat] by simp_all
  moreover have "unat (push_bit 8 (ucast a) :: u16) = unat a * 256"
    using \<open>unat a < 256\<close> by (simp add: push_bit_eq_mult unat_word_ariths)
  ultimately show ?thesis by (simp add: unat_word_ariths)
qed

lemma be16_hi_lo [simp]: "be16 (hi w) (lo w) = w"
proof (rule bit_word_eqI)
  fix n assume "n < LENGTH(16)"
  then consider "n < 8" | "8 \<le> n" "n < 16" by fastforce
  then show "bit (be16 (hi w) (lo w)) n \<longleftrightarrow> bit w n"
    by cases (auto simp: be16_def hi_def lo_def bit_simps)
qed

lemma sum16_append: "even (length xs) \<Longrightarrow> sum16 (xs @ ys) = sum16 xs + sum16 ys"
  by (induction xs rule: sum16.induct) (simp_all add: add.assoc)

lemma sum16_bound:
  "length p \<le> 4000 \<Longrightarrow> unat (sum16 p) \<le> 65535 * ((length p + 1) div 2)"
proof (induction p rule: sum16.induct)
  case (1 a b p)
  have le: "unat (be16 a b) \<le> 65535" using unsigned_less[of "be16 a b", where 'a = nat] by simp
  have IH: "unat (sum16 p) \<le> 65535 * ((length p + 1) div 2)" using 1 by simp
  have "65535 * ((length p + 1) div 2) \<le> 65535 * 2000" using 1(2) by simp
  then have "unat (ucast (be16 a b) + sum16 p) = unat (be16 a b) + unat (sum16 p)"
    using le IH by (simp add: unat_word_ariths)
  moreover have "(length (a # b # p) + 1) div 2 = (length p + 1) div 2 + 1" by simp
  ultimately show ?case using le IH by (simp only: sum16.simps) (simp add: algebra_simps)
next
  case (2 a)
  have "unat (be16 a 0) \<le> 65535" using unsigned_less[of "be16 a 0", where 'a = nat] by simp
  then show ?case by simp
qed simp

lemma fold16_spec:
  "unat (fold16 sm) mod 65535 = unat sm mod 65535" "unat (fold16 sm) \<le> 65535" "fold16 sm = 0 \<longleftrightarrow> sm = 0"
proof -
  have "unat (fold16 sm) mod 65535 = unat sm mod 65535 \<and> unat (fold16 sm) \<le> 65535 \<and> (fold16 sm = 0 \<longleftrightarrow> sm = 0)"
  proof (induction sm rule: fold16.induct)
    case (1 sm)
    let ?h = "(sm AND 0xFFFF) + drop_bit 16 sm"
    have d: "unat sm div 65536 * 65536 + unat sm mod 65536 = unat sm" by (rule div_mult_mod_eq)
    show ?case
    proof (cases "drop_bit 16 sm = 0")
      case False
      have "unat sm = 65535 * (unat sm div 65536) + unat ?h" using d halves(3)[of sm] by linarith
      then have m: "unat sm mod 65535 = unat ?h mod 65535" by (metis mod_mult_self4)
      have "0 < unat sm div 65536" using False halves(2)[of sm] by (metis gr0I unat_eq_zero)
      then have "unat ?h \<noteq> 0" "unat sm \<noteq> 0" using halves(3)[of sm] by linarith+
      then have "?h \<noteq> 0" "sm \<noteq> 0" by auto
      then show ?thesis using 1[OF False] m False by (simp add: fold16.simps[of sm])
    next
      case True
      then have "unat sm div 65536 = 0" using halves(2)[of sm] by simp
      then have "unat sm < 65536" by simp
      then show ?thesis using True by (simp add: fold16.simps[of sm])
    qed
  qed
  then show "unat (fold16 sm) mod 65535 = unat sm mod 65535" "unat (fold16 sm) \<le> 65535" "fold16 sm = 0 \<longleftrightarrow> sm = 0"
    by blast+
qed

lemma complement16:
  assumes "unat x \<le> 65535"
  shows "unat (ucast (NOT x :: u32) :: u16) = 65535 - unat x"
proof -
  have "NOT x = - 1 - x" by (simp add: not_eq_complement)
  moreover have "unat (- 1 :: u32) = 4294967295" by (simp add: unsigned_minus_1_eq_mask mask_eq_exp_minus_1)
  ultimately have "unat (NOT x) = 2 ^ 32 - 1 - unat x" using unat_sub[of x "- 1"] by simp
  moreover have "(2 ^ 32 - 1 - unat x) mod 65536 = 65535 - unat x"
  proof -
    have "2 ^ 32 - 1 - unat x = 65535 * 65536 + (65535 - unat x)" using assms by simp
    then show ?thesis by (simp only: mod_mult_self3) simp
  qed
  ultimately show ?thesis by (simp add: unsigned_ucast_eq take_bit_eq_mod)
qed

text \<open>Adding the complement of the folded sum makes the folded sum all ones.\<close>

lemma checksum_accepts:
  assumes "unat a + 65535 < 2 ^ 32"
  shows "fold16 (a + ucast (ucast (NOT (fold16 a)) :: u16)) = 0xFFFF"
proof -
  define f where "f = unat (fold16 a)"
  have f: "f \<le> 65535" "f mod 65535 = unat a mod 65535" using fold16_spec[of a] by (simp_all add: f_def)
  let ?v = "a + ucast (ucast (NOT (fold16 a)) :: u16)"
  have v: "unat ?v = unat a + (65535 - f)"
    using assms f(1) complement16[of "fold16 a"] by (simp add: f_def unat_word_ariths)
  have "(unat a + (65535 - f)) mod 65535 = (f + (65535 - f)) mod 65535"
    using f(2) by (metis mod_add_left_eq)
  then have m: "unat (fold16 ?v) mod 65535 = 0" using f(1) v fold16_spec(1)[of ?v] by simp
  have "?v \<noteq> 0"
  proof
    assume "?v = 0"
    then have "unat a = 0" "f = 65535" using v f(1) by auto
    moreover from this(1) have "a = 0" by (simp add: unat_eq_zero)
    ultimately show False using fold16_spec(3)[of 0] by (simp add: f_def)
  qed
  then have "fold16 ?v \<noteq> 0" using fold16_spec(3) by blast
  then have nz: "unat (fold16 ?v) \<noteq> 0" by (simp add: unat_eq_zero)
  have "65535 dvd unat (fold16 ?v)" using m by (rule mod_0_imp_dvd)
  then obtain k where k: "unat (fold16 ?v) = 65535 * k" by (rule dvdE)
  have "k = 1" using k nz fold16_spec(2)[of ?v] by auto
  then have "unat (fold16 ?v) = unat (0xFFFF :: u32)" using k by simp
  then show ?thesis by (rule word_unat_eq_iff[THEN iffD2])
qed

lemma checksum_zero: "fold16 a = 0xFFFF \<Longrightarrow> (ucast (NOT (fold16 a)) :: u16) = 0"
  using complement16[of "fold16 a"] by (simp add: unat_eq_zero[symmetric])

section \<open>More depth does not change a result\<close>

definition below :: "(net \<Rightarrow> net option) \<Rightarrow> (net \<Rightarrow> net option) \<Rightarrow> bool" where
  "below p q \<longleftrightarrow> (\<forall>s s'. p s = Some s' \<longrightarrow> q s = Some s')"

lemma arp_wait_below: "below p q \<Longrightarrow> arp_wait p dst n s = Some r \<Longrightarrow> arp_wait q dst n s = Some r"
  by (induction n arbitrary: s) (auto simp: below_def split: option.splits if_splits)

lemma ipv4_send_below:
  assumes "below p q" "net_ipv4_send p dst proto d s = Some r"
  shows "net_ipv4_send q dst proto d s = Some r"
proof (cases "net_up s \<and> \<not> (arp_have s \<and> arp_ip s = dst)")
  case True
  then obtain x where x: "arp_wait p dst 30 (arp_xmit True dst [] s) = Some x"
    using assms(2) by (auto simp: net_ipv4_send_def split: option.splits)
  show ?thesis using True assms(2) x arp_wait_below[OF assms(1) x] by (auto simp: net_ipv4_send_def split: if_splits)
qed (use assms(2) in \<open>auto simp: net_ipv4_send_def split: if_splits\<close>)

lemma send_ack_below: "below p q \<Longrightarrow> send_ack p s = Some s' \<Longrightarrow> send_ack q s = Some s'"
  using ipv4_send_below[of p q] by (fastforce simp: send_ack_def send_segment_def Let_def)

lemma on_tcp_below:
  assumes "below p q" "on_tcp p src tcp s = Some s'"
  shows "on_tcp q src tcp s = Some s'"
proof -
  note A = send_ack_below[OF assms(1)]
  have S: "tcp_synack p sp sq a fl u = Some v \<Longrightarrow> tcp_synack q sp sq a fl u = Some v" for sp sq a fl u v
    using A by (simp add: tcp_synack_def split: if_splits)
  have D: "tcp_data p sq pl u = Some v \<Longrightarrow> tcp_data q sq pl u = Some v" for sq pl u v
    using A by (simp add: tcp_data_def split: if_splits)
  have F: "tcp_fin p sq n fl u = Some v \<Longrightarrow> tcp_fin q sq n fl u = Some v" for sq n fl u v
    using A by (fastforce simp: tcp_fin_def split: if_splits)
  have both: "(case tcp_data p sq pl u of None \<Rightarrow> None | Some v \<Rightarrow> tcp_fin p sq n fl v) = Some w \<Longrightarrow>
      (case tcp_data q sq pl u of None \<Rightarrow> None | Some v \<Rightarrow> tcp_fin q sq n fl v) = Some w" for sq pl u n fl w
    using D F by (fastforce split: option.splits)
  define Q where "Q x y \<longleftrightarrow> (x = Some s' \<longrightarrow> y = Some s')" for x y :: "net option"
  have Q: "Q a c \<Longrightarrow> Q b d \<Longrightarrow> Q (if e then a else b) (if e then c else d)" for a b c d e by simp
  have "Q (on_tcp p src tcp s) (on_tcp q src tcp s)"
    unfolding on_tcp_def Let_def by (intro Q) (use S both in \<open>auto simp: Q_def\<close>)
  then show ?thesis using assms(2) by (simp add: Q_def)
qed

lemma handle_ip_below:
  assumes "below p q" "handle_ip p frame s = Some s'"
  shows "handle_ip q frame s = Some s'"
proof -
  define Q where "Q x y \<longleftrightarrow> (x = Some s' \<longrightarrow> y = Some s')" for x y :: "net option"
  have Q: "Q a c \<Longrightarrow> Q b d \<Longrightarrow> Q (if e then a else b) (if e then c else d)" for a b c d e by simp
  have "Q (handle_ip p frame s) (handle_ip q frame s)"
    unfolding handle_ip_def Let_def by (intro Q) (use on_tcp_below[OF assms(1)] in \<open>auto simp: Q_def\<close>)
  then show ?thesis using assms(2) by (simp add: Q_def)
qed

lemma net_poll_below: "d \<le> d' \<Longrightarrow> below (net_poll d) (net_poll d')"
proof (induction d arbitrary: d')
  case (Suc d)
  then obtain e where d': "d' = Suc e" "d \<le> e" by (cases d') auto
  note H = handle_ip_below[OF Suc.IH[OF d'(2)]]
  show ?case unfolding below_def d'(1) net_poll.simps
    by (intro allI impI) (auto simp: Let_def H split: list.splits if_splits)
qed (simp add: below_def net_poll.simps)

section \<open>Checksum fields\<close>

text \<open>Writing the complement of the sum into a zeroed, 16-bit aligned field makes the sum of the whole packet verify.\<close>

lemma checksum_field:
  assumes "even (length xs)" "length xs + 2 + length ys \<le> 4000" "unat acc \<le> 65535 * 8"
    and that: "c = ucast (NOT (fold16 (acc + sum16 (xs @ [0, 0] @ ys))))"
  shows "fold16 (acc + sum16 (xs @ [hi c, lo c] @ ys)) = 0xFFFF"
proof -
  define a where "a = acc + sum16 (xs @ [0, 0] @ ys)"
  have "unat (sum16 (xs @ [0, 0] @ ys)) \<le> 65535 * ((length (xs @ [0, 0] @ ys) + 1) div 2)"
    by (rule sum16_bound) (use assms(2) in simp)
  also have "\<dots> \<le> 65535 * 2001" using assms(2) by (intro mult_le_mono2) simp
  finally have "unat a + 65535 < 2 ^ 32" using assms(3) by (simp add: a_def unat_word_ariths)
  moreover have z: "be16 0 0 = 0" by (simp add: be16_def)
  have "acc + sum16 (xs @ [hi c, lo c] @ ys) = a + ucast c"
    unfolding a_def using assms(1) by (simp add: sum16_append z algebra_simps)
  ultimately show ?thesis using checksum_accepts[of a] unfolding that a_def[symmetric] by simp
qed

lemma checksum_field0:
  assumes "even (length xs)" "length xs + 2 + length ys \<le> 4000" "c = ip_checksum (xs @ [0, 0] @ ys)"
  shows "fold16 (sum16 (xs @ [hi c, lo c] @ ys)) = 0xFFFF"
  using checksum_field[OF assms(1,2), of 0 c] assms(3) by (simp add: ip_checksum_def del: sum16.simps)

lemma pseudo_sum_bound: "n \<le> 1500 \<Longrightarrow> unat (pseudo_sum p src dst n) \<le> 65535 * 8"
proof -
  assume n: "n \<le> 1500"
  have b: "unat (be16 x y) \<le> 65535" for x y using unsigned_less[of "be16 x y", where 'a = nat] by simp
  have "unat p \<le> 255" using unsigned_less[of p, where 'a = nat] by simp
  moreover have "unat (ucast p :: u32) = unat p"
    using unsigned_less[of p, where 'a = nat] by (simp add: unsigned_ucast_eq take_bit_nat_eq_self)
  moreover have "unat (of_nat n :: u32) = n" using n by (simp add: unat_of_nat)
  ultimately show ?thesis unfolding pseudo_sum_def
    using n b[of "src ! 0" "src ! 1"] b[of "src ! 2" "src ! 3"] b[of "dst ! 0" "dst ! 1"] b[of "dst ! 2" "dst ! 3"]
    by (simp add: unat_word_ariths)
qed

lemma ip_header_checksum:
  assumes "length dst = 4"
  shows "fold16 (sum16 (take 20 (ip_packet ident proto dst payload))) = 0xFFFF"
proof -
  define n :: u16 where "n = of_nat (20 + length payload)"
  define xs where "xs = [0x45, 0, hi n, lo n, hi ident, lo ident, 0, 0, 64, proto]"
  define c where "c = ip_checksum (ip_header n ident proto 0 dst)"
  have h: "ip_header n ident proto w dst = xs @ [hi w, lo w] @ (ip_addr @ dst)" for w
    by (simp add: ip_header_def xs_def)
  have z: "hi 0 = 0" "lo 0 = 0" by (simp_all add: hi_def lo_def)
  have pkt: "ip_packet ident proto dst payload = (xs @ [hi c, lo c] @ (ip_addr @ dst)) @ payload"
    unfolding ip_packet_def Let_def n_def[symmetric] c_def[symmetric] by (simp only: h)
  have "length (xs @ [hi c, lo c] @ (ip_addr @ dst)) = 20" using assms by (simp add: xs_def ip_addr_def)
  then have t20: "take 20 (ip_packet ident proto dst payload) = xs @ [hi c, lo c] @ (ip_addr @ dst)"
    unfolding pkt by (simp del: append_assoc)
  show ?thesis unfolding t20
    by (rule checksum_field0) (use assms in \<open>simp_all add: xs_def c_def h ip_addr_def z del: sum16.simps\<close>)
qed

lemma length_ip_header [simp]: "length (ip_header tlen ident proto c dst) = 16 + length dst"
  by (simp add: ip_header_def ip_addr_def)

lemma drop_ip_packet [simp]: "length dst = 4 \<Longrightarrow> drop 20 (ip_packet ident proto dst p) = p"
  by (simp add: ip_packet_def Let_def)

lemma length_tcp_segment [simp]: "length (tcp_segment f d a c s) = 20 + length d"
  by (simp add: tcp_segment_def be32_bytes_def)

lemma tcp_segment_checksum:
  assumes "length data \<le> 1380" "c = tcp_checksum src dst (tcp_segment flags data ack 0 s)"
  shows "fold16 (pseudo_sum 6 src dst (20 + length data) + sum16 (tcp_segment flags data ack c s)) = 0xFFFF"
proof -
  define xs where "xs = [hi (local_port s), lo (local_port s), hi (remote_port s), lo (remote_port s)] @ be32_bytes (snd_nxt s) @
     be32_bytes ack @ [0x50, flags, 0x40, 0]"
  have seg: "tcp_segment flags data ack w s = xs @ [hi w, lo w] @ [0, 0] @ data" for w
    by (simp add: tcp_segment_def xs_def)
  have z: "hi 0 = 0" "lo 0 = 0" by (simp_all add: hi_def lo_def)
  have len: "length xs = 16" by (simp add: xs_def be32_bytes_def)
  have "even (length xs)" "length xs + 2 + length ([0, 0] @ data) \<le> 4000" using assms(1) len by simp_all
  moreover have "unat (pseudo_sum 6 src dst (20 + length data)) \<le> 65535 * 8" using assms(1) by (intro pseudo_sum_bound) simp
  moreover have "c = ucast (NOT (fold16 (pseudo_sum 6 src dst (20 + length data) + sum16 (xs @ [0, 0] @ [0, 0] @ data))))"
    unfolding assms(2) tcp_checksum_def length_tcp_segment unfolding seg z ..
  ultimately show ?thesis unfolding seg by (rule checksum_field)
qed

definition demo_net :: net where
  "demo_net = \<lparr>rx_frames = [], tx_frames = [], nic_mac = [82, 84, 0, 18, 52, 86], net_up = True, gw_mac = [], gw_mac_valid = False,
     arp_ip = [10, 0, 2, 100], arp_mac = [82, 85, 10, 0, 2, 100], arp_have = True, tcp_cb = True, udp_cb = False, ip_id = 7,
     tcp_st = ST_EST, remote_ip = [10, 0, 2, 100], local_port = 42000, remote_port = 80, snd_nxt = 0xFFFFFFF0,
     rcv_nxt = 0xFFFFFFFE, rx_data = [], got_synack = True, got_fin = False, isn_seed = 0xC0FFEE, next_port = 42001,
     udp_buf = [], udp_src_ip = [], udp_src_port = 0, udp_dst_port = 0, udp_have = False\<rparr>"


section \<open>Properties\<close>

text \<open>
  C16. Polling returns: with as many levels of nested sends as there are pending frames plus one, and any larger
  bound gives the same result. Each poll consumes at least the frame it handles.
\<close>

theorem net_poll_terminates:
  "\<exists>s'. (\<forall>d > length (rx_frames s). net_poll d s = Some s') \<and>
     length (rx_frames s') \<le> length (rx_frames s) - 1"
proof -
  obtain s' where s': "net_poll (Suc (length (rx_frames s))) s = Some s'" "length (rx_frames s') \<le> length (rx_frames s)"
    using net_poll_good[of "length (rx_frames s)"] by (auto simp: good_def)
  have "net_poll d s = Some s'" if "d > length (rx_frames s)" for d
    using net_poll_below[of "Suc (length (rx_frames s))" d] that s'(1) by (simp add: below_def)
  moreover have "length (rx_frames s') \<le> length (rx_frames s) - 1"
  proof (cases "rx_frames s")
    case (Cons f rest)
    let ?s = "s\<lparr>rx_frames := rest\<rparr>"
    obtain u where u: "handle_ip (net_poll (Suc (length rest))) f ?s = Some u" "length (rx_frames u) \<le> length rest"
      using handle_ip_good[OF net_poll_good, of ?s "length rest" f] by auto
    have "rx_frames (handle_arp p ?s) = rest" for p by (simp add: handle_arp_def arp_xmit_def Let_def)
    then show ?thesis using s'(1) u Cons by (auto simp: net_poll.simps Let_def split: if_splits)
  qed (use s'(2) in simp)
  ultimately show ?thesis by blast
qed

theorem net_poll_terminates_witness:
  "\<exists>s'. net_poll 3 (demo_net\<lparr>rx_frames := [replicate 60 0, []]\<rparr>) = Some s' \<and> length (rx_frames s') \<le> 1"
  using net_poll_terminates[of "demo_net\<lparr>rx_frames := [replicate 60 0, []]\<rparr>"] by force




definition demo_ping :: "u8 list" where
  "demo_ping = [0x45, 0, 0, 28, 0, 1, 0, 0, 64, 1, 0, 0, 10, 0, 2, 2, 10, 0, 2, 15]"


end
