(* ===== verification/Dns.thy ===== *)
theory Dns
  imports Net_Wire Screen "HOL-Library.Sublist"
begin

text \<open>
  The DNS client (\<open>kernel/net/dns.c\<close>). Names are byte lists without the terminating zero. A read of the response goes through
  \<open>byte_at\<close>, whose value \<open>None\<close> means a read behind the received bytes; the inner option of a result is \<open>None\<close> for
  the value -1.
\<close>

section \<open>Dotted addresses\<close>

definition is_digit :: "u8 \<Rightarrow> bool" where "is_digit c \<longleftrightarrow> 48 \<le> c \<and> c \<le> 57"

fun parse_num :: "nat \<Rightarrow> u8 list \<Rightarrow> (nat \<times> u8 list) option" where
  "parse_num v [] = Some (v, [])"
| "parse_num v (c # p) =
     (if is_digit c then let v' = v * 10 + unat (c - 48) in if v' > 255 then None else parse_num v' p else Some (v, c # p))"

lemma parse_num_shorter: "parse_num v p = Some (v', p') \<Longrightarrow> length p' \<le> length p"
  by (induction v p rule: parse_num.induct) (auto simp: Let_def split: if_splits)

lemma parse_num_digit: "parse_num v (c # p) = Some (v', p') \<Longrightarrow> is_digit c \<Longrightarrow> length p' \<le> length p"
  using parse_num_shorter by (auto simp: Let_def split: if_splits)

text \<open>The outer loop: \<open>parts\<close> are the numbers read so far.\<close>

function parse_parts :: "nat list \<Rightarrow> u8 list \<Rightarrow> (nat list \<times> u8 list) option" where
  "parse_parts parts p =
     (if p = [] \<or> length parts \<ge> 4 then Some (parts, p)
      else if \<not> is_digit (hd p) then None
      else case parse_num 0 p of None \<Rightarrow> None
        | Some (v, q) \<Rightarrow> if q \<noteq> [] \<and> hd q = 46 then parse_parts (parts @ [v]) (tl q) else Some (parts @ [v], q))"
  by pat_completeness auto
termination
  by (relation "measure (\<lambda>(parts, p). 4 - length parts)") auto

declare parse_parts.simps [simp del]

definition parse_ip :: "u8 list \<Rightarrow> u8 list option" where
  "parse_ip name =
     (if name = [] then None
      else case parse_parts [] name of None \<Rightarrow> None
        | Some (parts, p) \<Rightarrow> if length parts \<noteq> 4 \<or> p \<noteq> [] then None else Some (map of_nat parts))"

section \<open>Query\<close>

function qname :: "u8 list \<Rightarrow> u8 list option" where
  "qname p =
     (if p = [] then Some [0]
      else let lab = takeWhile (\<lambda>c. c \<noteq> 46) p; rest = drop (length lab) p
      in if lab = [] \<or> length lab > 63 then None
         else do { q \<leftarrow> qname (if rest \<noteq> [] then tl rest else rest); Some (of_nat (length lab) # lab @ q) })"
  by pat_completeness auto
termination
  by (relation "measure length") (auto simp: Let_def dest: arg_cong[of "[]" _ length])

declare qname.simps [simp del]

definition dns_query :: "u16 \<Rightarrow> u8 list \<Rightarrow> u8 list option" where
  "dns_query txid name =
     do { q \<leftarrow> qname name; Some ([hi txid, lo txid, 1, 0, 0, 1, 0, 0, 0, 0, 0, 0] @ q @ [0, 1, 0, 1]) }"

section \<open>Response\<close>

definition byte_at :: "u8 list \<Rightarrow> nat \<Rightarrow> u8 option" where "byte_at resp i = (if i < length resp then Some (resp ! i) else None)"

function skip_labels :: "u8 list \<Rightarrow> nat \<Rightarrow> nat option" where
  "skip_labels resp i =
     (if i < length resp then
        do { b \<leftarrow> byte_at resp i;
             if b = 0 then Some i
             else if b AND 0xC0 = 0xC0 then Some (i + 2)
             else skip_labels resp (i + unat b + 1) }
      else Some i)"
  by pat_completeness auto
termination
  by (relation "measure (\<lambda>(resp, i). length resp - i)") auto

declare skip_labels.simps [simp del]

definition skip_name :: "u8 list \<Rightarrow> nat \<Rightarrow> nat option" where
  "skip_name resp i =
     do { j \<leftarrow> skip_labels resp i;
          if j < length resp then do { b \<leftarrow> byte_at resp j; Some (if b = 0 then j + 1 else j) } else Some j }"

text \<open>The loop over the answers; \<open>n\<close> answers are left.\<close>

fun answer_loop :: "u8 list \<Rightarrow> nat \<Rightarrow> nat \<Rightarrow> u8 list option option" where
  "answer_loop resp 0 i = Some None"
| "answer_loop resp (Suc n) i =
     (if i + 12 \<le> length resp then
        do { b \<leftarrow> byte_at resp i;
             j \<leftarrow> (if b AND 0xC0 = 0xC0 then Some (i + 2) else skip_name resp i);
             if j + 10 > length resp then Some None
             else do { t0 \<leftarrow> byte_at resp j; t1 \<leftarrow> byte_at resp (j + 1);
                       l0 \<leftarrow> byte_at resp (j + 8); l1 \<leftarrow> byte_at resp (j + 9);
                       (let k = j + 10 in
                        if be16 t0 t1 = 1 \<and> be16 l0 l1 = 4 \<and> k + 4 \<le> length resp then
                          do { a \<leftarrow> byte_at resp k; b \<leftarrow> byte_at resp (k + 1); c \<leftarrow> byte_at resp (k + 2); d \<leftarrow> byte_at resp (k + 3);
                               Some (Some [a, b, c, d]) }
                        else answer_loop resp n (k + unat (be16 l0 l1))) } }
      else Some None)"

definition dns_parse :: "u8 list \<Rightarrow> u8 list option option" where
  "dns_parse resp =
     (if length resp < 12 then Some None
      else do { a0 \<leftarrow> byte_at resp 6; a1 \<leftarrow> byte_at resp 7;
                if be16 a0 a1 = 0 then Some None
                else do { i \<leftarrow> skip_name resp 12; answer_loop resp (unat (be16 a0 a1)) (i + 4) } })"

section \<open>Resolver\<close>

text \<open>\<open>dns_txid\<close> is the static transaction number.\<close>

record dns =
  dns_net :: net
  dns_txid :: u16

definition dns_resolve :: "(net \<Rightarrow> net option) \<Rightarrow> u8 list \<Rightarrow> dns \<Rightarrow> (u8 list option \<times> dns) option" where
  "dns_resolve poll name s =
     (case parse_ip name of Some ip \<Rightarrow> Some (Some ip, s)
      | None \<Rightarrow>
          let txid = dns_txid s + 1; s1 = s\<lparr>dns_txid := txid\<rparr>; local = 53000 + (txid AND 0xFF)
          in case dns_query txid name of None \<Rightarrow> Some (None, s1)
             | Some q \<Rightarrow>
                 do { (r, n1) \<leftarrow> udp_send poll [10, 0, 2, 3] 53 local q (dns_net s1);
                      if r \<noteq> 0 then Some (None, s1\<lparr>dns_net := n1\<rparr>)
                      else do { (resp, n2) \<leftarrow> udp_recv poll local 512 40 n1;
                                (case resp of None \<Rightarrow> Some (None, s1\<lparr>dns_net := n2\<rparr>)
                                 | Some (bytes, from, port) \<Rightarrow>
                                     do { a \<leftarrow> dns_parse bytes; Some (a, s1\<lparr>dns_net := n2\<rparr>) }) } })"

section \<open>Reads stay inside the response\<close>

lemma byte_at_in: "i < length resp \<Longrightarrow> byte_at resp i = Some (resp ! i)"
  by (simp add: byte_at_def)

lemma skip_labels_returns: "\<exists>j. skip_labels resp i = Some j \<and> i \<le> j"
proof (induction resp i rule: skip_labels.induct)
  case (1 resp i)
  show ?case
  proof (cases "i < length resp \<and> resp ! i \<noteq> 0 \<and> resp ! i AND 0xC0 \<noteq> 0xC0")
    case True
    then obtain j where "skip_labels resp (i + unat (resp ! i) + 1) = Some j" "i + unat (resp ! i) + 1 \<le> j"
      using 1[of "resp ! i"] by (auto simp: byte_at_in)
    then show ?thesis using True by (subst skip_labels.simps) (simp add: byte_at_in)
  qed (subst skip_labels.simps, auto simp: byte_at_in)
qed

lemma skip_name_returns: "\<exists>j. skip_name resp i = Some j \<and> i \<le> j"
  using skip_labels_returns[of resp i] by (auto simp: skip_name_def byte_at_in)

lemma answer_loop_returns:
  "\<exists>r. answer_loop resp n i = Some r \<and> (\<forall>ip. r = Some ip \<longrightarrow> length ip = 4 \<and> sublist ip resp)"
proof (induction n arbitrary: i)
  case (Suc n)
  obtain j where j: "(if resp ! i AND 0xC0 = 0xC0 then Some (i + 2) else skip_name resp i) = Some j"
    using skip_name_returns[of resp i] by (cases "resp ! i AND 0xC0 = 0xC0") auto
  show ?case
  proof (cases "i + 12 \<le> length resp \<and> j + 10 \<le> length resp")
    case True
    let ?k = "j + 10"
    have sub: "sublist [resp ! ?k, resp ! (?k + 1), resp ! (?k + 2), resp ! (?k + 3)] resp" if "?k + 4 \<le> length resp"
    proof -
      have "take 4 (drop ?k resp) = [resp ! ?k, resp ! (?k + 1), resp ! (?k + 2), resp ! (?k + 3)]"
        using that by (intro nth_equalityI) (auto simp: nth_Cons' numeral_eq_Suc less_Suc_eq)
      then show ?thesis by (metis sublist_take sublist_drop sublist_order.order_trans)
    qed
    then show ?thesis using True j Suc.IH by (auto simp: byte_at_in Let_def add.assoc)
  next
    case False
    then show ?thesis using j by (auto simp: byte_at_in)
  qed
qed simp

lemma dns_parse_returns: "\<exists>r. dns_parse resp = Some r \<and> (\<forall>ip. r = Some ip \<longrightarrow> length ip = 4 \<and> sublist ip resp)"
proof (cases "length resp < 12")
  case False
  obtain i where "skip_name resp 12 = Some i" using skip_name_returns by blast
  then show ?thesis using False answer_loop_returns[of resp] by (simp add: dns_parse_def byte_at_in)
qed (simp add: dns_parse_def)

section \<open>Well-formed replies\<close>

text \<open>
  A resource record with a compressed name, its type, the six bytes of class and time to live, and its data; a reply of a
  server that repeats the question.
\<close>

type_synonym rr = "u16 \<times> u8 list \<times> u8 list"

fun rr_bytes :: "rr \<Rightarrow> u8 list" where
  "rr_bytes (t, x, d) = [0xC0, 0x0C, hi t, lo t] @ x @ [hi (of_nat (length d)), lo (of_nat (length d))] @ d"

definition rr_ok :: "rr \<Rightarrow> bool" where "rr_ok r \<longleftrightarrow> (case r of (t, x, d) \<Rightarrow> length x = 6 \<and> length d < 65536)"

fun first_a :: "rr list \<Rightarrow> u8 list option" where
  "first_a [] = None"
| "first_a ((t, x, d) # rs) = (if t = 1 \<and> length d = 4 then Some d else first_a rs)"

definition dns_reply :: "u8 list \<Rightarrow> u8 list \<Rightarrow> u8 list \<Rightarrow> u8 list \<Rightarrow> rr list \<Rightarrow> u8 list" where
  "dns_reply h c q k rs = h @ [hi (of_nat (length rs)), lo (of_nat (length rs))] @ c @ q @ k @ concat (map rr_bytes rs)"

lemma label_byte:
  assumes "0 < n" "n \<le> 63"
  shows "(of_nat n :: u8) \<noteq> 0" "(of_nat n :: u8) AND 0xC0 \<noteq> 0xC0" "unat (of_nat n :: u8) = n"
proof -
  show u: "unat (of_nat n :: u8) = n" using assms by (simp add: unat_of_nat take_bit_nat_eq_self)
  then show "(of_nat n :: u8) \<noteq> 0" using assms by auto
  have "(of_nat n :: u8) AND 0xC0 \<le> of_nat n" by (rule word_and_le2)
  then have "unat ((of_nat n :: u8) AND 0xC0) \<le> 63" using u assms(2) by (simp add: word_le_nat_alt)
  then show "(of_nat n :: u8) AND 0xC0 \<noteq> 0xC0" by auto
qed

lemma skip_qname: "qname p = Some q \<Longrightarrow> q \<noteq> [] \<and> last q = 0 \<and> skip_labels (pre @ q @ post) (length pre) = Some (length pre + length q - 1)"
proof (induction p arbitrary: q pre rule: qname.induct)
  case (1 p)
  show ?case
  proof (cases "p = []")
    case True
    then have "q = [0]" using "1.prems" by (simp add: qname.simps[of "[]"])
    then show ?thesis by (subst skip_labels.simps) (simp add: byte_at_in)
  next
    case False
    define lab where "lab = takeWhile (\<lambda>c. c \<noteq> 46) p"
    define rest where "rest = drop (length lab) p"
    let ?next = "if rest \<noteq> [] then tl rest else rest"
    obtain q' where lab: "lab \<noteq> []" "length lab \<le> 63" and q': "qname ?next = Some q'" "q = of_nat (length lab) # lab @ q'"
      using "1.prems" False by (subst (asm) qname.simps) (auto simp: Let_def lab_def rest_def split: if_splits bind_splits)
    note lb = label_byte[of "length lab"]
    have IH: "q' \<noteq> []" "last q' = 0" "skip_labels ((pre @ of_nat (length lab) # lab) @ q' @ post) (length (pre @ of_nat (length lab) # lab)) =
        Some (length (pre @ of_nat (length lab) # lab) + length q' - 1)"
      using "1.IH"[OF False lab_def rest_def _ q'(1), of "pre @ of_nat (length lab) # lab"] lab by auto
    have "skip_labels (pre @ q @ post) (length pre) = skip_labels (pre @ q @ post) (length pre + length lab + 1)"
      using lb lab q'(2) by (subst skip_labels.simps) (simp add: byte_at_in)
    then show ?thesis using IH q'(2) by simp
  qed
qed

lemma answer_loop_pointer:
  assumes "i + 12 \<le> length resp" "resp ! i = 0xC0"
  shows "answer_loop resp (Suc n) i =
    (if be16 (resp ! (i + 2)) (resp ! (i + 3)) = 1 \<and> be16 (resp ! (i + 10)) (resp ! (i + 11)) = 4 \<and> i + 16 \<le> length resp
     then Some (Some [resp ! (i + 12), resp ! (i + 13), resp ! (i + 14), resp ! (i + 15)])
     else answer_loop resp n (i + 12 + unat (be16 (resp ! (i + 10)) (resp ! (i + 11)))))"
proof -
  have e: "i + 2 + 1 = i + 3" "i + 2 + 8 = i + 10" "i + 2 + 9 = i + 11" "i + 2 + 10 = i + 12" "i + 12 + 1 = i + 13" "i + 12 + 2 = i + 14"
    "i + 12 + 3 = i + 15" "i + 12 + 4 = i + 16" by simp_all
  show ?thesis using assms unfolding answer_loop.simps Let_def by (simp add: byte_at_in e del: add_2_eq_Suc' add_Suc_right One_nat_def)
qed

lemma answer_loop_reply:
  assumes "\<forall>r \<in> set rs. rr_ok r"
  shows "answer_loop (pre @ concat (map rr_bytes rs)) (length rs) (length pre) = Some (first_a rs)"
  using assms
proof (induction rs arbitrary: pre)
  case (Cons r rs)
  obtain t x d where r: "r = (t, x, d)" "length x = 6" "length d < 65536" using Cons.prems by (cases r) (auto simp: rr_ok_def)
  define resp where "resp = pre @ concat (map rr_bytes (r # rs))"
  let ?i = "length pre"
  have len: "length resp \<ge> ?i + 12 + length d" by (simp add: resp_def r)
  have b: "resp ! ?i = 0xC0" "resp ! (?i + 2) = hi t" "resp ! (?i + 3) = lo t" "resp ! (?i + 10) = hi (of_nat (length d))"
    "resp ! (?i + 11) = lo (of_nat (length d))"
    using r(2) by (simp_all add: resp_def r(1) nth_append)
  have ln: "unat (of_nat (length d) :: u16) = length d" using r(3) by (simp add: unat_of_nat take_bit_nat_eq_self)
  then have l4: "(of_nat (length d) :: u16) = 4 \<longleftrightarrow> length d = 4" by (auto simp: word_unat_eq_iff)
  have d4: "[resp ! (?i + 12), resp ! (?i + 13), resp ! (?i + 14), resp ! (?i + 15)] = d" if "length d = 4"
  proof -
    have "resp ! (?i + 12 + k) = d ! k" if "k < length d" for k using that r(2) by (simp add: resp_def r(1) nth_append)
    from this[of 0] this[of 1] this[of 2] this[of 3] that show ?thesis
      by (intro nth_equalityI) (auto simp: nth_Cons' numeral_eq_Suc less_Suc_eq)
  qed
  have IH: "answer_loop resp (length rs) (?i + 12 + length d) = Some (first_a rs)"
    using Cons.IH[of "pre @ rr_bytes r"] Cons.prems r(2) by (simp add: resp_def r(1) add.assoc)
  have "answer_loop resp (length (r # rs)) ?i = Some (first_a (r # rs))"
    using len b(2-5) l4 ln IH d4 answer_loop_pointer[OF _ b(1), of "length rs"] by (auto simp: r(1))
  then show ?case by (simp only: resp_def)
qed simp

lemma dns_parse_reply:
  assumes "qname name = Some q" "length h = 6" "length c = 4" "length k = 4" "length rs < 65536" "\<forall>r \<in> set rs. rr_ok r"
  shows "dns_parse (dns_reply h c q k rs) = Some (first_a rs)"
proof -
  let ?n = "of_nat (length rs) :: u16"
  let ?pre = "h @ [hi ?n, lo ?n] @ c" and ?resp = "dns_reply h c q k rs"
  have n: "unat ?n = length rs" using assms(5) by (simp add: unat_of_nat take_bit_nat_eq_self)
  have resp: "?resp = ?pre @ q @ k @ concat (map rr_bytes rs)" by (simp add: dns_reply_def)
  have q: "q \<noteq> []" "last q = 0" "skip_labels ?resp 12 = Some (12 + length q - 1)"
    using skip_qname[OF assms(1), of ?pre "k @ concat (map rr_bytes rs)"] assms(2,3) by (simp_all add: resp)
  have "?resp ! (11 + length q) = q ! (length q - 1)" using assms(2,3) q(1) by (simp add: resp nth_append)
  then have z: "?resp ! (11 + length q) = 0" using q(1,2) by (simp add: last_conv_nth)
  have len: "12 + length q + 4 \<le> length ?resp" using assms(2-4) by (simp add: resp)
  have sk: "skip_name ?resp 12 = Some (12 + length q)"
    using q z len by (simp add: skip_name_def byte_at_in)
  have "answer_loop ?resp (length rs) (12 + length q + 4) = Some (first_a rs)"
    using answer_loop_reply[OF assms(6), of "?pre @ q @ k"] assms(2-4) by (simp add: resp add.assoc)
  moreover have "?resp ! 6 = hi ?n" "?resp ! 7 = lo ?n" using assms(2) by (simp_all add: dns_reply_def nth_append)
  moreover have "first_a rs = None" if "?n = 0" using that n by simp
  ultimately show ?thesis using sk n len by (auto simp: dns_parse_def byte_at_in)
qed

section \<open>Dotted addresses are parsed back\<close>

lemma foldl_dec_mono: "v \<le> foldl (\<lambda>a d. a * 10 + d) v (ds :: nat list)"
proof (induction ds arbitrary: v)
  case (Cons d ds)
  have "v \<le> v * 10 + d" by simp
  then show ?case using Cons.IH[of "v * 10 + d"] by simp
qed simp

lemma parse_num_digits:
  "list_all is_digit cs \<Longrightarrow> foldl (\<lambda>a d. a * 10 + d) v (map (\<lambda>c. unat (c - 48)) cs) \<le> 255 \<Longrightarrow> rest = [] \<or> \<not> is_digit (hd rest) \<Longrightarrow>
   parse_num v (cs @ rest) = Some (foldl (\<lambda>a d. a * 10 + d) v (map (\<lambda>c. unat (c - 48)) cs), rest)"
proof (induction cs arbitrary: v)
  case Nil
  then show ?case by (cases rest) auto
next
  case (Cons c cs)
  have "v * 10 + unat (c - 48) \<le> 255"
    using foldl_dec_mono[of "v * 10 + unat (c - 48)" "map (\<lambda>c. unat (c - 48)) cs"] Cons.prems(2) by simp
  then show ?case using Cons by simp
qed

definition dotted :: "u8 list \<Rightarrow> u8 list" where
  "dotted ip = dec_chars (ucast (ip ! 0)) @ [46] @ dec_chars (ucast (ip ! 1)) @ [46] @ dec_chars (ucast (ip ! 2)) @ [46] @ dec_chars (ucast (ip ! 3))"

lemma parse_num_dec:
  fixes b :: u8
  assumes "rest = [] \<or> \<not> is_digit (hd rest)"
  shows "parse_num 0 (dec_chars (ucast b) @ rest) = Some (unat b, rest)" "is_digit (hd (dec_chars (ucast b) @ rest))" "dec_chars (ucast b) \<noteq> []"
proof -
  note d = dec_chars_number[of "ucast b"]
  have u: "unat (ucast b :: u64) = unat b" by (simp add: unsigned_ucast_eq take_bit_nat_eq_self unsigned_less[THEN order.strict_trans])
  show ne: "dec_chars (ucast b) \<noteq> []"
    using d u dec_digits_last[of "ucast b" 23] by (auto simp: dec_chars_def dec_value_def digits_value_def unat_eq_zero dest: arg_cong[where f = unat])
  have dg: "list_all is_digit (dec_chars (ucast b))" using d by (simp add: is_digit_def list_all_iff)
  then show "is_digit (hd (dec_chars (ucast b) @ rest))" using ne by (cases "dec_chars (ucast b)") simp_all
  have "unat b \<le> 255" using unsigned_less[of b, where 'a = nat] by simp
  then show "parse_num 0 (dec_chars (ucast b) @ rest) = Some (unat b, rest)"
    using parse_num_digits[OF dg _ assms, of 0] d u by (simp add: dec_value_def digits_value_def)
qed

lemma parse_ip_dotted:
  assumes "length ip = 4"
  shows "parse_ip (dotted ip) = Some ip"
proof -
  obtain a b c d where ip: "ip = [a, b, c, d]" using assms by (auto simp: numeral_eq_Suc length_Suc_conv)
  have dot: "\<not> is_digit 46" by (simp add: is_digit_def)
  have step: "parse_parts ps (dec_chars (ucast x) @ 46 # p) = parse_parts (ps @ [unat x]) p" if "length ps < 4" for ps p and x :: u8
    using that parse_num_dec[of "46 # p" x] dot by (subst parse_parts.simps) auto
  have end4: "parse_parts ps (dec_chars (ucast x)) = Some (ps @ [unat x], [])" if "length ps < 4" for ps and x :: u8
    using that parse_num_dec[of "[]" x] by (subst parse_parts.simps) auto
  have "parse_parts [] (dotted ip) = Some ([unat a, unat b, unat c, unat d], [])" by (simp add: dotted_def ip step end4)
  moreover have "dotted ip \<noteq> []" by (simp add: dotted_def)
  ultimately show ?thesis by (simp add: parse_ip_def ip)
qed

lemma qname_length: "qname p = Some q \<Longrightarrow> length q \<le> length p + 2"
proof (induction p arbitrary: q rule: qname.induct)
  case (1 p)
  define lab where "lab = takeWhile (\<lambda>c. c \<noteq> 46) p"
  define rest where "rest = drop (length lab) p"
  show ?case
  proof (cases "p = []")
    case False
    let ?next = "if rest \<noteq> [] then tl rest else rest"
    obtain q' where lab: "lab \<noteq> []" "length lab \<le> 63" and q': "qname ?next = Some q'" "q = of_nat (length lab) # lab @ q'"
      using "1.prems" False by (subst (asm) qname.simps) (auto simp: Let_def lab_def rest_def split: if_splits bind_splits)
    have "length q' \<le> length ?next + 2" using "1.IH"[OF False lab_def rest_def _ q'(1)] lab by auto
    moreover have "length lab + length rest = length p" by (simp add: rest_def lab_def length_takeWhile_le)
    moreover have "q' = [0]" if "rest = []" using q'(1) that by (simp add: qname.simps[of "[]"])
    ultimately show ?thesis using q'(2) by (cases "rest = []") simp_all
  qed (use "1.prems" in \<open>auto simp: qname.simps[of "[]"]\<close>)
qed

text \<open>The query of a name of at most 490 bytes fits the 512 bytes reserved for it.\<close>

lemma dns_query_fits: "dns_query txid name = Some q \<Longrightarrow> length name \<le> 490 \<Longrightarrow> length q \<le> 512"
  using qname_length by (fastforce simp: dns_query_def split: bind_splits)

section \<open>The response parser\<close>



end
