(* ===== verification/Tcp_Stream.thy ===== *)
theory Tcp_Stream
  imports Net_Wire "HOL-Library.Sublist"
begin

text \<open>
  The byte stream the TCP client delivers. A peer sends a stream in segments numbered from a base; frames may be
  lost, repeated and reordered. What the reads return is always a prefix of the stream, whatever else arrives
  in between and however the polls nest, and a stream sent by \<open>tcp_send\<close> arrives unchanged on a loss-free wire.
\<close>

section \<open>Frames of a peer\<close>

text \<open>The TCP segment a frame carries, as \<open>handle_ip\<close> cuts it out.\<close>

definition ip_payload :: "u8 list \<Rightarrow> u8 list" where
  "ip_payload frame =
     (let ip = drop 14 frame; ihl = unat (ip ! 0 AND 0xF) * 4; tot = unat (be16 (ip ! 2) (ip ! 3)); avail = length frame - 14;
          tot' = (if tot > avail then unat (of_nat avail :: u16) else tot)
      in take (tot' - ihl) (drop ihl ip))"

text \<open>Segment \<open>tcp\<close> is part of the stream \<open>str\<close> numbered from \<open>base\<close>; a FIN stands at its end.\<close>

definition seg_of :: "u32 \<Rightarrow> u8 list \<Rightarrow> u8 list \<Rightarrow> bool" where
  "seg_of base str tcp \<longleftrightarrow>
     (\<exists>off \<le> length str. let payload = drop (unat (drop_bit 4 (tcp ! 12)) * 4) tcp in
        be32 (tcp ! 4) (tcp ! 5) (tcp ! 6) (tcp ! 7) = base + of_nat off \<and>
        payload = take (length payload) (drop off str) \<and> (bit (tcp ! 13) 0 \<longrightarrow> off + length payload = length str))"

text \<open>Any frame is allowed, but those that carry a segment of this connection carry a segment of the stream.\<close>

definition frame_of :: "net \<Rightarrow> u32 \<Rightarrow> u8 list \<Rightarrow> u8 list \<Rightarrow> bool" where
  "frame_of s base str frame \<longleftrightarrow>
     (let ip = drop 14 frame; tcp = ip_payload frame in
      take 4 (drop 12 ip) = remote_ip s \<and> ip ! 9 = 6 \<and> 20 \<le> length tcp \<and> be16 (tcp ! 0) (tcp ! 1) = remote_port s \<and>
      be16 (tcp ! 2) (tcp ! 3) = local_port s \<longrightarrow> seg_of base str tcp)"

text \<open>The receiver has delivered \<open>D\<close>: behind it are the buffered bytes, up to the next expected number.\<close>

definition stream_inv :: "net \<Rightarrow> u32 \<Rightarrow> u8 list \<Rightarrow> u8 list \<Rightarrow> net \<Rightarrow> bool" where
  "stream_inv c base str D s \<longleftrightarrow>
     (tcp_st s = ST_EST \<or> tcp_st s = ST_CLOSE_WAIT) \<and> remote_ip s = remote_ip c \<and> remote_port s = remote_port c \<and>
     local_port s = local_port c \<and> (\<forall>f \<in> set (rx_frames s). frame_of c base str f) \<and>
     ((\<exists>off \<le> length str. rcv_nxt s = base + of_nat off \<and> D @ rx_data s = take off str) \<or>
      (rcv_nxt s = base + of_nat (length str) + 1 \<and> prefix (D @ rx_data s) str))"

lemma stream_inv_cong:
  assumes "tcp_st s' = tcp_st s" "remote_ip s' = remote_ip s" "remote_port s' = remote_port s" "local_port s' = local_port s"
    "rcv_nxt s' = rcv_nxt s" "rx_data s' = rx_data s" "set (rx_frames s') \<subseteq> set (rx_frames s)"
  shows "stream_inv c base str D s \<Longrightarrow> stream_inv c base str D s'"
  using assms by (auto simp: stream_inv_def)

section \<open>Every poll keeps the invariant\<close>

definition keeps :: "(net \<Rightarrow> bool) \<Rightarrow> (net \<Rightarrow> net option) \<Rightarrow> bool" where
  "keeps I poll \<longleftrightarrow> (\<forall>s s'. I s \<longrightarrow> poll s = Some s' \<longrightarrow> I s')"

lemma arp_wait_keeps: "keeps I poll \<Longrightarrow> I s \<Longrightarrow> arp_wait poll dst n s = Some (b, s') \<Longrightarrow> I s'"
  by (induction n arbitrary: s) (auto simp: keeps_def split: option.splits if_splits)

lemma ip_output_inv: "stream_inv c base str D s \<Longrightarrow> stream_inv c base str D (snd (ip_output mac dst proto p s))"
  by (erule stream_inv_cong[rotated 7]) (auto simp: ip_output_def Let_def)

lemma arp_xmit_inv: "stream_inv c base str D s \<Longrightarrow> stream_inv c base str D (arp_xmit b ip mac s)"
  by (erule stream_inv_cong[rotated 7]) (auto simp: arp_xmit_def)

lemma ipv4_send_inv:
  assumes k: "keeps (stream_inv c base str D) poll" and "stream_inv c base str D s"
    "net_ipv4_send poll dst proto p s = Some (r, s')"
  shows "stream_inv c base str D s'"
proof -
  have out: "stream_inv c base str D u \<Longrightarrow> ip_output mac dst proto p u = (r, s') \<Longrightarrow> stream_inv c base str D s'" for u mac
    by (metis ip_output_inv snd_conv)
  have w: "arp_wait poll dst 30 (arp_xmit True dst [] s) = Some (b, u) \<Longrightarrow> stream_inv c base str D u" for b u
    by (rule arp_wait_keeps[OF k arp_xmit_inv[OF assms(2)]])
  show ?thesis using assms(2,3) w out by (auto simp: net_ipv4_send_def split: if_splits option.splits prod.splits bool.splits)
qed

lemma send_ack_inv:
  assumes "keeps (stream_inv c base str D) poll" "stream_inv c base str D s" "send_ack poll s = Some s'"
  shows "stream_inv c base str D s'"
  using assms ipv4_send_inv[OF assms(1,2)] by (auto simp: send_ack_def send_segment_def Let_def split: if_splits)

lemma of_nat_u32_inj: "a \<le> 9000 \<Longrightarrow> b \<le> 9000 \<Longrightarrow> (of_nat a :: u32) = of_nat b \<longleftrightarrow> a = b"
  by (simp add: word_unat_eq_iff unat_of_nat)

lemma tcp_data_inv:
  assumes k: "keeps (stream_inv c base str D) poll" and inv: "stream_inv c base str D s" and len: "length str \<le> 8192"
    and seg: "sq = base + of_nat off" "off \<le> length str" "payload = take (length payload) (drop off str)"
    and ret: "tcp_data poll sq payload s = Some s'"
  shows "stream_inv c base str D s'"
proof (cases "payload \<noteq> [] \<and> sq = rcv_nxt s")
  case True
  let ?s = "s\<lparr>rx_data := rx_data s @ take (8192 - length (rx_data s)) payload, rcv_nxt := rcv_nxt s + of_nat (length payload)\<rparr>"
  have fit: "off + length payload \<le> length str" using seg(2,3) by (metis length_drop length_take min.bounded_iff le_diff_conv2 add.commute order_refl)
  have "rcv_nxt s \<noteq> base + of_nat (length str) + 1"
    using True seg(1,2) len of_nat_u32_inj[of off "length str + 1"] by (auto simp: algebra_simps)
  then obtain off' where off': "off' \<le> length str" "rcv_nxt s = base + of_nat off'" "D @ rx_data s = take off' str"
    using inv by (auto simp: stream_inv_def)
  then have "off' = off" using True seg(1,2) len of_nat_u32_inj[of off off'] by simp
  then have got: "D @ rx_data s = take off str" using off' by simp
  then have "length D + length (rx_data s) = off" using seg(2) by (metis length_append length_take min.absorb2)
  then have room: "take (8192 - length (rx_data s)) payload = payload" using fit len by simp
  have "D @ rx_data s @ payload = take (off + length payload) str"
    using got seg(3) by (metis append_assoc take_add)
  moreover have "rcv_nxt s + of_nat (length payload) = base + of_nat (off + length payload)" using True seg(1) by simp
  ultimately have "\<exists>o' \<le> length str. rcv_nxt ?s = base + of_nat o' \<and> D @ rx_data ?s = take o' str"
    using room fit by (intro exI[of _ "off + length payload"]) simp
  then have "stream_inv c base str D ?s" using inv unfolding stream_inv_def by simp
  then show ?thesis using send_ack_inv[OF k] ret True by (simp add: tcp_data_def)
next
  case False
  then show ?thesis using inv ret send_ack_inv[OF k inv] by (auto simp: tcp_data_def split: if_splits)
qed

lemma tcp_fin_inv:
  assumes k: "keeps (stream_inv c base str D) poll" and inv: "stream_inv c base str D s"
    and seg: "sq = base + of_nat off" "bit flags 0 \<longrightarrow> off + n = length str"
    and ret: "tcp_fin poll sq n flags s = Some s'"
  shows "stream_inv c base str D s'"
proof (cases "bit flags 0")
  case True
  let ?s = "s\<lparr>rcv_nxt := (if sq = rcv_nxt s then sq + of_nat n + 1 else if n = 0 then sq + 1 else rcv_nxt s), got_fin := True\<rparr>"
  have off: "off + n = length str" using seg(2) True by simp
  have pre: "prefix (D @ rx_data s) str" using inv by (auto simp: stream_inv_def take_is_prefix)
  have nxt: "sq + of_nat n + 1 = base + of_nat (length str) + 1" unfolding off[symmetric] using seg(1) by simp
  have "stream_inv c base str D ?s"
  proof (cases "sq = rcv_nxt s \<or> n = 0")
    case True
    then have "rcv_nxt ?s = base + of_nat (length str) + 1" using nxt by auto
    then show ?thesis using inv pre by (simp add: stream_inv_def)
  qed (use inv in \<open>auto simp: stream_inv_def\<close>)
  then obtain s1 where "send_ack poll ?s = Some s1" "s' = s1\<lparr>tcp_st := ST_CLOSE_WAIT\<rparr>" "stream_inv c base str D s1"
    using ret True send_ack_inv[OF k] by (auto simp: tcp_fin_def)
  then show ?thesis by (auto simp: stream_inv_def)
qed (use inv ret in \<open>simp add: tcp_fin_def\<close>)

lemma on_tcp_inv:
  assumes k: "keeps (stream_inv c base str D) poll" and inv: "stream_inv c base str D s" and len: "length str \<le> 8192"
    and seg: "length src = 4" "src = remote_ip c \<Longrightarrow> 20 \<le> length tcp \<Longrightarrow> be16 (tcp ! 0) (tcp ! 1) = remote_port c \<Longrightarrow>
      be16 (tcp ! 2) (tcp ! 3) = local_port c \<Longrightarrow> seg_of base str tcp"
    and ret: "on_tcp poll src tcp s = Some s'"
  shows "stream_inv c base str D s'"
proof (cases "s' = s")
  case False
  let ?pl = "drop (unat (drop_bit 4 (tcp ! 12)) * 4) tcp" and ?sq = "be32 (tcp ! 4) (tcp ! 5) (tcp ! 6) (tcp ! 7)"
  have st: "tcp_st s \<noteq> ST_SYN_SENT" and cn: "remote_ip s = remote_ip c" "remote_port s = remote_port c" "local_port s = local_port c"
    using inv by (auto simp: stream_inv_def)
  have chk: "20 \<le> length tcp" "src = remote_ip c" "be16 (tcp ! 2) (tcp ! 3) = local_port c" "be16 (tcp ! 0) (tcp ! 1) = remote_port c"
    using ret False st seg(1) cn by (auto simp: on_tcp_def Let_def split: if_splits)
  obtain s1 where s1: "tcp_data poll ?sq ?pl s = Some s1" "tcp_fin poll ?sq (length ?pl) (tcp ! 13) s1 = Some s'"
    using ret False st by (auto simp: on_tcp_def Let_def split: if_splits option.splits)
  obtain off where off: "off \<le> length str" "?sq = base + of_nat off" "?pl = take (length ?pl) (drop off str)"
    "bit (tcp ! 13) 0 \<longrightarrow> off + length ?pl = length str"
    using seg(2)[OF chk(2,1,4,3)] unfolding seg_of_def Let_def by blast
  have "stream_inv c base str D s1" by (rule tcp_data_inv[OF k inv len off(2,1,3) s1(1)])
  then show ?thesis by (rule tcp_fin_inv[OF k _ off(2,4) s1(2)])
qed (use inv in simp)

lemma handle_ip_inv:
  assumes k: "keeps (stream_inv c base str D) poll" and inv: "stream_inv c base str D s" and len: "length str \<le> 8192"
    and fr: "frame_of c base str frame" and ret: "handle_ip poll frame s = Some s'"
  shows "stream_inv c base str D s'"
proof (cases "length frame < 34")
  case False
  let ?src = "take 4 (drop 12 (drop 14 frame))"
  have on: "on_tcp poll ?src (ip_payload frame) s = Some s' \<Longrightarrow> drop 14 frame ! 9 = 6 \<Longrightarrow> stream_inv c base str D s'"
    by (rule on_tcp_inv[OF k inv len, of ?src "ip_payload frame"]) (use fr False in \<open>auto simp: frame_of_def Let_def\<close>)
  define Q where "Q r \<longleftrightarrow> (r = Some s' \<longrightarrow> stream_inv c base str D s')" for r :: "net option"
  have "stream_inv c base str D (on_udp a p s)" for a p
    by (rule stream_inv_cong[OF _ _ _ _ _ _ _ inv]) (auto simp: on_udp_def Let_def)
  then have udp: "Q (Some (on_udp a p s))" for a p by (auto simp: Q_def)
  have "stream_inv c base str D (eth_send a t p s)" for a t p
    by (rule stream_inv_cong[OF _ _ _ _ _ _ _ inv]) auto
  then have icmp: "Q (Some (eth_send a t p s))" for a t p by (auto simp: Q_def)
  have tcp: "drop 14 frame ! 9 = 6 \<and> tcp_cb s \<Longrightarrow> Q (on_tcp poll ?src (ip_payload frame) s)" using on by (auto simp: Q_def)
  have keep: "Q (Some s)" using inv by (auto simp: Q_def)
  have Q: "(b \<Longrightarrow> Q x) \<Longrightarrow> (\<not> b \<Longrightarrow> Q y) \<Longrightarrow> Q (if b then x else y)" for b x y by simp
  have "Q (handle_ip poll frame s)"
    unfolding handle_ip_def Let_def by (intro Q udp icmp keep tcp[unfolded ip_payload_def Let_def])
  then show ?thesis using ret by (simp add: Q_def)
qed (use inv ret in \<open>simp add: handle_ip_def\<close>)

lemma net_poll_keeps:
  assumes "length str \<le> 8192"
  shows "keeps (stream_inv c base str D) (net_poll d)"
proof (induction d)
  case (Suc d)
  show ?case unfolding keeps_def
  proof (intro allI impI)
    fix s s' assume inv: "stream_inv c base str D s" and ret: "net_poll (Suc d) s = Some s'"
    show "stream_inv c base str D s'"
    proof (cases "rx_frames s")
      case (Cons f rest)
      let ?s = "s\<lparr>rx_frames := rest\<rparr>"
      have s: "stream_inv c base str D ?s" by (rule stream_inv_cong[OF _ _ _ _ _ _ _ inv]) (use Cons in auto)
      have "stream_inv c base str D (handle_arp p ?s)" for p
        by (rule stream_inv_cong[OF _ _ _ _ _ _ _ s]) (auto simp: handle_arp_def arp_xmit_def Let_def)
      moreover have "handle_ip (net_poll d) f ?s = Some s' \<Longrightarrow> ?thesis"
        by (rule handle_ip_inv[OF Suc s assms]) (use inv Cons in \<open>auto simp: stream_inv_def\<close>)
      ultimately show ?thesis using ret Cons s by (auto simp: net_poll.simps Let_def split: if_splits)
    qed (use inv ret in \<open>simp add: net_poll.simps\<close>)
  qed
qed (simp add: keeps_def net_poll.simps)

section \<open>Reading the stream\<close>

text \<open>A series of reads, each with its buffer size and time-out; a read that times out returns nothing.\<close>

fun reads :: "(net \<Rightarrow> net option) \<Rightarrow> (nat \<times> nat) list \<Rightarrow> net \<Rightarrow> (u8 list \<times> net) option" where
  "reads poll [] s = Some ([], s)"
| "reads poll ((maxlen, n) # rs) s =
     do { (r, s1) \<leftarrow> tcp_recv poll maxlen n s;
          (bs, s2) \<leftarrow> reads poll rs s1;
          Some ((case r of None \<Rightarrow> [] | Some b \<Rightarrow> b) @ bs, s2) }"

lemma tcp_recv_inv:
  assumes "length str \<le> 8192" "stream_inv c base str D s" "length (rx_frames s) \<le> k"
  shows "\<exists>r s'. tcp_recv (net_poll (Suc k)) maxlen n s = Some (r, s') \<and>
    stream_inv c base str (D @ (case r of None \<Rightarrow> [] | Some b \<Rightarrow> b)) s' \<and> length (rx_frames s') \<le> k"
  using assms(2,3)
proof (induction n arbitrary: s)
  case (Suc n)
  obtain s1 where s1: "net_poll (Suc k) s = Some s1" "length (rx_frames s1) \<le> k"
    using net_poll_good[of k] Suc.prems(2) by (fastforce simp: good_def)
  have inv: "stream_inv c base str D s1"
    using net_poll_keeps[OF assms(1), of c base D "Suc k"] Suc.prems(1) s1(1) by (auto simp: keeps_def)
  show ?case
  proof (cases "rx_data s1 = []")
    case True
    then show ?thesis using s1 inv Suc.IH[OF inv s1(2)] by (cases "got_fin s1") auto
  next
    case False
    have "stream_inv c base str (D @ take maxlen (rx_data s1)) (s1\<lparr>rx_data := drop maxlen (rx_data s1)\<rparr>)"
      using inv by (simp add: stream_inv_def)
    then show ?thesis using False s1 by simp
  qed
qed simp

lemma reads_inv:
  assumes "length str \<le> 8192" "stream_inv c base str D s" "length (rx_frames s) \<le> k"
  shows "\<exists>bs s'. reads (net_poll (Suc k)) rs s = Some (bs, s') \<and> stream_inv c base str (D @ bs) s'"
  using assms(2,3)
proof (induction rs arbitrary: D s)
  case (Cons r rs)
  obtain maxlen n where r: "r = (maxlen, n)" by fastforce
  obtain q s1 where s1: "tcp_recv (net_poll (Suc k)) maxlen n s = Some (q, s1)"
    "stream_inv c base str (D @ (case q of None \<Rightarrow> [] | Some b \<Rightarrow> b)) s1" "length (rx_frames s1) \<le> k"
    using tcp_recv_inv[OF assms(1) Cons.prems] by blast
  then show ?case using Cons.IH[OF s1(2,3)] r by auto
qed simp

section \<open>One segment from sender to receiver\<close>

definition sender :: "net \<Rightarrow> bool" where
  "sender a \<longleftrightarrow> net_up a \<and> arp_have a \<and> arp_ip a = remote_ip a \<and> length (remote_ip a) = 4 \<and> length (arp_mac a) = 6 \<and>
     length (nic_mac a) = 6 \<and> tcp_st a = ST_EST \<and> rx_frames a = []"

definition receiver :: "net \<Rightarrow> net \<Rightarrow> bool" where
  "receiver a b \<longleftrightarrow> net_up b \<and> arp_have b \<and> arp_ip b = remote_ip b \<and> tcp_cb b \<and> tcp_st b = ST_EST \<and> remote_ip b = ip_addr \<and>
     remote_port b = local_port a \<and> local_port b = remote_port a \<and> rcv_nxt b = snd_nxt a"

lemma be32_bytes_join: "be32 (ucast (drop_bit 24 w)) (ucast (drop_bit 16 w)) (ucast (drop_bit 8 w)) (ucast w) = w"
proof (rule bit_word_eqI)
  fix n assume "n < LENGTH(32)"
  then consider "n < 8" | "8 \<le> n" "n < 16" | "16 \<le> n" "n < 24" | "24 \<le> n" "n < 32" by fastforce
  then show "bit (be32 (ucast (drop_bit 24 w)) (ucast (drop_bit 16 w)) (ucast (drop_bit 8 w)) (ucast w)) n \<longleftrightarrow> bit w n"
    by cases (auto simp: be32_def bit_simps)
qed

lemma send_ack_direct:
  assumes "net_up b" "arp_have b" "arp_ip b = remote_ip b" "length (remote_ip b) = 4"
  shows "\<exists>t i. send_ack poll b = Some (b\<lparr>ip_id := i, tx_frames := t\<rparr>)"
  using assms by (auto simp: send_ack_def send_segment_def net_ipv4_send_def ip_output_def eth_send_def Let_def)

lemma on_tcp_segment:
  assumes "receiver a b" "chunk \<noteq> []" "length (rx_data b) + length chunk \<le> 8192"
  shows "\<exists>t i. on_tcp poll ip_addr (tcp_segment 0x18 chunk ack c a) b =
    Some (b\<lparr>rx_data := rx_data b @ chunk, rcv_nxt := rcv_nxt b + of_nat (length chunk), ip_id := i, tx_frames := t\<rparr>)"
proof -
  let ?b = "b\<lparr>rx_data := rx_data b @ chunk, rcv_nxt := rcv_nxt b + of_nat (length chunk)\<rparr>"
  obtain t i where ack: "send_ack poll ?b = Some (?b\<lparr>ip_id := i, tx_frames := t\<rparr>)"
    using send_ack_direct[of ?b poll] assms(1) by (auto simp: receiver_def ip_addr_def)
  have off: "unat (drop_bit 4 (0x50 :: u8)) = 5" "\<not> bit (0x18 :: u8) 0" by (simp_all add: drop_bit_eq_div unat_div)
  have "on_tcp poll ip_addr (tcp_segment 0x18 chunk ack c a) b = send_ack poll ?b"
    using assms off
    by (simp add: on_tcp_def receiver_def tcp_segment_def be32_bytes_def Let_def tcp_data_def tcp_fin_def ip_addr_def be32_bytes_join
        split: option.split)
  then show ?thesis using ack by auto
qed

lemma handle_ip_packet:
  assumes "length eth = 14" "length dst = 4" "length seg \<le> 1400" "tcp_cb b"
  shows "handle_ip poll (eth @ ip_packet ident 6 dst seg @ pad) b = on_tcp poll ip_addr seg b"
proof -
  define n :: u16 where "n = of_nat (20 + length seg)"
  define h where "h = ip_header n ident 6 (ip_checksum (ip_header n ident 6 0 dst)) dst"
  have f: "drop 14 (eth @ ip_packet ident 6 dst seg @ pad) = h @ seg @ pad"
    using assms(1) by (simp add: ip_packet_def Let_def h_def n_def)
  have h: "length h = 20" "h ! 0 = 0x45" "h ! 2 = hi n" "h ! 3 = lo n" "h ! 9 = 6" "take 4 (drop 12 h) = ip_addr"
    using assms(2) by (simp_all add: h_def ip_header_def ip_addr_def)
  have n: "unat n = 20 + length seg" using assms(3) unfolding n_def unat_of_nat by (intro mod_less) simp
  have v: "drop_bit 4 (0x45 :: u8) = 4" "unat ((0x45 :: u8) AND 0xF) = 5" by (simp_all add: drop_bit_eq_div)
  have len: "length (eth @ ip_packet ident 6 dst seg @ pad) = 34 + length seg + length pad"
    using assms(1,2) by (simp add: ip_packet_def Let_def)
  show ?thesis unfolding handle_ip_def Let_def f len using h n v assms(4) by (simp add: nth_append)
qed

lemma poll_segment:
  assumes "sender a" "chunk \<noteq> []" "length chunk \<le> 800" "send_segment poll 0x18 chunk ack a = Some (r, a1)"
  shows "r = 0" "\<exists>F i. a1 = a\<lparr>ip_id := i, tx_frames := tx_frames a @ [F]\<rparr> \<and>
    (\<forall>b rest d. receiver a b \<and> rx_frames b = F # rest \<and> length (rx_data b) + length chunk \<le> 8192 \<longrightarrow>
      (\<exists>b'. net_poll (Suc d) b = Some b' \<and> rx_frames b' = rest \<and> rx_data b' = rx_data b @ chunk \<and>
        receiver (a1\<lparr>snd_nxt := snd_nxt a1 + of_nat (length chunk)\<rparr>) b'))"
proof -
  define c where "c = tcp_checksum ip_addr (remote_ip a) (tcp_segment 0x18 chunk ack 0 a)"
  define seg where "seg = tcp_segment 0x18 chunk ack c a"
  define eth where "eth = arp_mac a @ nic_mac a @ [hi 0x0800, lo 0x0800]"
  obtain pad where ret: "r = 0" "a1 = a\<lparr>ip_id := ip_id a + 1, tx_frames := tx_frames a @ [eth @ ip_packet (ip_id a + 1) 6 (remote_ip a) seg @ pad]\<rparr>"
    using assms by (auto simp: sender_def send_segment_def net_ipv4_send_def ip_output_def eth_send_def Let_def seg_def c_def eth_def)
  let ?F = "eth @ ip_packet (ip_id a + 1) 6 (remote_ip a) seg @ pad"
  have "\<exists>b'. net_poll (Suc d) b = Some b' \<and> rx_frames b' = rest \<and> rx_data b' = rx_data b @ chunk \<and>
        receiver (a1\<lparr>snd_nxt := snd_nxt a1 + of_nat (length chunk)\<rparr>) b'"
    if b: "receiver a b" "rx_frames b = ?F # rest" "length (rx_data b) + length chunk \<le> 8192" for b rest d
  proof -
    let ?b = "b\<lparr>rx_frames := rest\<rparr>"
    have e: "length eth = 14" "be16 (?F ! 12) (?F ! 13) = 0x0800" using assms(1) by (simp_all add: eth_def sender_def nth_append)
    obtain t i where "on_tcp (net_poll d) ip_addr seg ?b =
        Some (?b\<lparr>rx_data := rx_data b @ chunk, rcv_nxt := rcv_nxt b + of_nat (length chunk), ip_id := i, tx_frames := t\<rparr>)"
      using on_tcp_segment[of a ?b chunk "net_poll d" ack c] b assms(2) by (auto simp: seg_def receiver_def)
    moreover have "handle_ip (net_poll d) ?F ?b = on_tcp (net_poll d) ip_addr seg ?b"
      by (rule handle_ip_packet) (use e assms b in \<open>auto simp: sender_def receiver_def seg_def\<close>)
    ultimately show ?thesis using b e ret(2) by (simp add: net_poll.simps receiver_def)
  qed
  then show "r = 0" "\<exists>F i. a1 = a\<lparr>ip_id := i, tx_frames := tx_frames a @ [F]\<rparr> \<and>
    (\<forall>b rest d. receiver a b \<and> rx_frames b = F # rest \<and> length (rx_data b) + length chunk \<le> 8192 \<longrightarrow>
      (\<exists>b'. net_poll (Suc d) b = Some b' \<and> rx_frames b' = rest \<and> rx_data b' = rx_data b @ chunk \<and>
        receiver (a1\<lparr>snd_nxt := snd_nxt a1 + of_nat (length chunk)\<rparr>) b'))"
    using ret by blast+
qed

section \<open>A whole stream\<close>

lemma poll_idle: "rx_frames s = [] \<Longrightarrow> poll_until (net_poll (Suc d)) (\<lambda>_. False) n s = Some s"
  by (induction n) (simp_all add: net_poll.simps)

lemma tcp_send_loop_delivers:
  assumes "sender a"
  shows "\<exists>Fs a'. tcp_send_loop (net_poll (Suc d)) data a = Some (0, a') \<and> tx_frames a' = tx_frames a @ Fs \<and>
    800 * length Fs \<le> length data + 799 \<and>
    (\<forall>b n. receiver a b \<and> rx_frames b = Fs \<and> length (rx_data b) + length data \<le> 8192 \<and> length Fs \<le> n \<longrightarrow>
      (\<exists>b'. poll_until (net_poll (Suc d)) (\<lambda>_. False) n b = Some b' \<and> rx_data b' = rx_data b @ data))"
  using assms
proof (induction "length data" arbitrary: data a rule: less_induct)
  case less
  show ?case
  proof (cases "data = []")
    case True
    then show ?thesis by (auto simp: tcp_send_loop.simps poll_idle)
  next
    case False
    let ?c = "take 800 data"
    have c: "?c \<noteq> []" "length ?c \<le> 800" using False by auto
    obtain r a1 where r: "send_segment (net_poll (Suc d)) 0x18 ?c (rcv_nxt a) a = Some (r, a1)"
      using send_segment_good[OF net_poll_good, of a 0 "0x18" ?c "rcv_nxt a"] less.prems
      by (auto simp: sender_def send_segment_def net_ipv4_send_def Let_def)
    note p = poll_segment[OF less.prems c r]
    obtain F i where a1: "a1 = a\<lparr>ip_id := i, tx_frames := tx_frames a @ [F]\<rparr>" and
      rcv: "\<And>b rest. receiver a b \<Longrightarrow> rx_frames b = F # rest \<Longrightarrow> length (rx_data b) + length ?c \<le> 8192 \<Longrightarrow>
        \<exists>b'. net_poll (Suc d) b = Some b' \<and> rx_frames b' = rest \<and> rx_data b' = rx_data b @ ?c \<and>
          receiver (a1\<lparr>snd_nxt := snd_nxt a1 + of_nat (length ?c)\<rparr>) b'"
      using p(2) by blast
    define a2 where "a2 = a1\<lparr>snd_nxt := snd_nxt a1 + of_nat (length ?c)\<rparr>"
    have a2: "sender a2" using less.prems a1 by (simp add: a2_def sender_def)
    obtain Fs a' where rest: "tcp_send_loop (net_poll (Suc d)) (drop 800 data) a2 = Some (0, a')" "tx_frames a' = tx_frames a2 @ Fs"
      "800 * length Fs \<le> length (drop 800 data) + 799"
      "\<And>b n. receiver a2 b \<Longrightarrow> rx_frames b = Fs \<Longrightarrow> length (rx_data b) + length (drop 800 data) \<le> 8192 \<Longrightarrow> length Fs \<le> n \<Longrightarrow>
        \<exists>b'. poll_until (net_poll (Suc d)) (\<lambda>_. False) n b = Some b' \<and> rx_data b' = rx_data b @ drop 800 data"
      using less.hyps[OF _ a2, of "drop 800 data"] False by fastforce
    have "settle (net_poll (Suc d)) 5 a2 = Some a2" using a2 by (simp add: settle_def poll_idle sender_def)
    then have snd: "tcp_send_loop (net_poll (Suc d)) data a = Some (0, a')"
      using False r p(1) rest(1) unfolding a2_def by (simp add: tcp_send_loop.simps[of _ data])
    have "\<exists>b'. poll_until (net_poll (Suc d)) (\<lambda>_. False) n b = Some b' \<and> rx_data b' = rx_data b @ data"
      if b: "receiver a b" "rx_frames b = F # Fs" "length (rx_data b) + length data \<le> 8192" "length (F # Fs) \<le> n" for b n
    proof -
      obtain b1 where b1: "net_poll (Suc d) b = Some b1" "rx_frames b1 = Fs" "rx_data b1 = rx_data b @ ?c" "receiver a2 b1"
        using rcv[OF b(1,2)] b(3) unfolding a2_def by force
      obtain m where m: "n = Suc m" "length Fs \<le> m" using b(4) by (cases n) auto
      have "length (rx_data b1) + length (drop 800 data) \<le> 8192" using b(3) b1(3) by simp
      from rest(4)[OF b1(4,2) this m(2)] show ?thesis using b1 m(1) by auto
    qed
    moreover have "800 * length (F # Fs) \<le> length data + 799" using rest(3) False by (cases "length data \<le> 800"; cases Fs) (auto simp: neq_Nil_conv)
    moreover have "tx_frames a' = tx_frames a @ F # Fs" using rest(2) a1 by (simp add: a2_def)
    ultimately show ?thesis using snd by blast
  qed
qed

section \<open>Properties\<close>

text \<open>
  C7. Stream safety. On an established connection with an empty buffer, whose peer sends a stream of at
  most 8192 bytes in segments that may be lost, repeated and reordered among arbitrary other frames, every
  series of reads returns, and the bytes it returns are a prefix of the stream.
\<close>

theorem tcp_reads_prefix:
  assumes "tcp_st s = ST_EST" "rx_data s = []" "length str \<le> 8192"
    "\<forall>f \<in> set (rx_frames s). frame_of s (rcv_nxt s) str f" "length (rx_frames s) < d"
  shows "\<exists>bs s'. reads (net_poll d) rs s = Some (bs, s') \<and> prefix bs str"
proof -
  obtain k where k: "d = Suc k" "length (rx_frames s) \<le> k" using assms(5) by (cases d) auto
  have "stream_inv s (rcv_nxt s) str [] s" using assms by (auto simp: stream_inv_def intro: exI[of _ 0])
  from reads_inv[OF assms(3) this k(2), of rs] obtain bs s' where
    r: "reads (net_poll d) rs s = Some (bs, s')" and i: "stream_inv s (rcv_nxt s) str bs s'" using k(1) by auto
  have "prefix (bs @ rx_data s') str" using i by (auto simp: stream_inv_def take_is_prefix)
  then show ?thesis using r by (auto intro: append_prefixD)
qed


definition demo_peer :: net where
  "demo_peer = demo_net\<lparr>remote_ip := ip_addr, arp_ip := ip_addr, local_port := 80, remote_port := 42000, rcv_nxt := 0xFFFFFFF0\<rparr>"


definition demo_segment :: "u8 list" where
  "demo_segment = [0, 80, 0xA4, 0x10, 0xFF, 0xFF, 0xFF, 0xFE, 0, 0, 0, 0, 0x50, 0x11, 0, 0, 0, 0, 0, 0, 72, 105, 33]"

definition demo_frame :: "u8 list" where
  "demo_frame = replicate 12 9 @ [8, 0, 0x45, 0, 0, 43, 0, 1, 0, 0, 64, 6, 0, 0, 10, 0, 2, 100, 10, 0, 2, 15] @ demo_segment"

theorem tcp_reads_prefix_witness:
  "\<exists>bs s'. reads (net_poll 3) [(2, 1), (100, 1), (5, 4)] (demo_net\<lparr>rx_frames := [demo_frame, demo_frame]\<rparr>) = Some (bs, s') \<and>
     prefix bs [72, 105, 33]"
proof -
  have "ip_payload demo_frame = demo_segment"
    by (simp add: ip_payload_def demo_frame_def demo_segment_def be16_nat Let_def)
  moreover have "seg_of 0xFFFFFFFE [72, 105, 33] demo_segment"
    by (simp add: seg_of_def demo_segment_def be32_def drop_bit_eq_div exI[of _ 0])
  ultimately have "frame_of demo_net 0xFFFFFFFE [72, 105, 33] demo_frame" by (simp add: frame_of_def)
  then have "frame_of (demo_net\<lparr>rx_frames := [demo_frame, demo_frame]\<rparr>) 0xFFFFFFFE [72, 105, 33] demo_frame"
    by (simp add: frame_of_def)
  then show ?thesis
    using tcp_reads_prefix[of "demo_net\<lparr>rx_frames := [demo_frame, demo_frame]\<rparr>" "[72, 105, 33]" 3 "[(2, 1), (100, 1), (5, 4)]"]
    by (simp add: demo_net_def)
qed

end
