(* ===== verification/Http.thy ===== *)
theory Http
  imports Dns Tcp_Stream
begin

text \<open>
  The HTTP client (\<open>kernel/net/http.c\<close>) and \<open>net_http_get\<close> of \<open>kernel/net/net.c\<close>, on the TCP, UDP and DNS models. A
  request returns the bytes it leaves at the start of the buffer, \<open>None\<close> stands for -1. The pauses between attempts have no
  effect on the state; the messages on the serial port are left out.
\<close>

section \<open>URLs\<close>

definition starts :: "u8 list \<Rightarrow> u8 list \<Rightarrow> bool" where "starts s pfx \<longleftrightarrow> take (length pfx) s = pfx"

definition http_scheme :: "u8 list" where "http_scheme = map of_char ''http://''"

text \<open>The number behind the colon is computed in \<open>int\<close> and cut to 16 bits.\<close>

definition port_value :: "u8 list \<Rightarrow> u16" where
  "port_value ds = foldl (\<lambda>pr c. pr * 10 + ucast (c - 48)) 0 ds"

definition parse_url :: "u8 list \<Rightarrow> nat \<Rightarrow> nat \<Rightarrow> (u8 list \<times> u16 \<times> u8 list) option" where
  "parse_url url host_max path_max =
     (if \<not> starts url http_scheme then None
      else let p = drop 7 url;
               host = takeWhile (\<lambda>c. c \<noteq> 47 \<and> c \<noteq> 58) (take (host_max - 1) p); p1 = drop (length host) p
      in if host = [] then None
         else let colon = p1 \<noteq> [] \<and> hd p1 = 58;
                  port = (if colon then port_value (takeWhile is_digit (tl p1)) else 80);
                  p2 = (if colon then dropWhile is_digit (tl p1) else p1)
         in Some (host, port, if p2 = [] then [47] else take (path_max - 1) p2))"

section \<open>One request\<close>

definition http_request :: "u8 list \<Rightarrow> u8 list \<Rightarrow> u8 list" where
  "http_request host path = map of_char ''GET '' @ path @ map of_char '' HTTP/1.0'' @ [13, 10] @ map of_char ''Host: '' @ host @
     [13, 10] @ map of_char ''Connection: close'' @ [13, 10, 13, 10]"

function recv_all :: "(net \<Rightarrow> net option) \<Rightarrow> nat \<Rightarrow> u8 list \<Rightarrow> nat \<Rightarrow> net \<Rightarrow> (u8 list \<times> net) option" where
  "recv_all poll maxlen out idle s =
     (if length out < maxlen \<and> idle < 10 then
        do { (r, s1) \<leftarrow> tcp_recv poll (maxlen - length out) 120 s;
             (case r of None \<Rightarrow> recv_all poll maxlen out (idle + 1) s1
              | Some bs \<Rightarrow> if bs = [] then Some (out, s1) else recv_all poll maxlen (out @ bs) 0 s1) }
      else Some (out, s))"
  by pat_completeness auto
termination
  by (relation "measures [\<lambda>(poll, maxlen, out, idle, s). maxlen - length out, \<lambda>(poll, maxlen, out, idle, s). 10 - idle]")
    (auto simp: length_greater_0_conv[symmetric] diff_less_mono2 simp del: length_greater_0_conv)

declare recv_all.simps [simp del]

text \<open>The position behind the first occurrence of a pattern.\<close>

fun find_after :: "u8 list \<Rightarrow> u8 list \<Rightarrow> nat option" where
  "find_after pat [] = None"
| "find_after pat (x # xs) = (if take (length pat) (x # xs) = pat then Some (length pat) else map_option Suc (find_after pat xs))"

definition http_body :: "u8 list \<Rightarrow> u8 list" where
  "http_body out =
     (let body = (case find_after [13, 10, 13, 10] out of Some b \<Rightarrow> b
         | None \<Rightarrow> (case find_after [10, 10] out of Some b \<Rightarrow> b | None \<Rightarrow> 0))
      in if body = 0 \<or> body \<ge> length out then out else drop body out)"

definition http_get_once :: "(net \<Rightarrow> net option) \<Rightarrow> u8 list \<Rightarrow> nat \<Rightarrow> dns \<Rightarrow> (u8 list option \<times> dns) option" where
  "http_get_once poll url maxlen s =
     (case parse_url url 128 128 of None \<Rightarrow> Some (None, s)
      | Some (host, port, path) \<Rightarrow>
          do { (ip, s1) \<leftarrow> dns_resolve poll host s;
               (case ip of None \<Rightarrow> Some (None, s1)
                | Some a \<Rightarrow>
                    do { (r, n1) \<leftarrow> tcp_connect poll a port (dns_net s1);
                         if r \<noteq> 0 then Some (None, s1\<lparr>dns_net := n1\<rparr>)
                         else do { (r2, n2) \<leftarrow> tcp_send poll (http_request host path) n1;
                                   if r2 \<noteq> 0 then do { n3 \<leftarrow> tcp_close poll n2; Some (None, s1\<lparr>dns_net := n3\<rparr>) }
                                   else do { (out, n3) \<leftarrow> recv_all poll maxlen [] 0 n2;
                                             n4 \<leftarrow> tcp_close poll n3;
                                             Some (if out = [] then None else Some (http_body out), s1\<lparr>dns_net := n4\<rparr>) } } }) })"

section \<open>Attempts\<close>

fun http_attempts :: "nat \<Rightarrow> (net \<Rightarrow> net option) \<Rightarrow> u8 list \<Rightarrow> nat \<Rightarrow> dns \<Rightarrow> (u8 list option \<times> dns) option" where
  "http_attempts 0 poll url maxlen s = Some (None, s)"
| "http_attempts (Suc n) poll url maxlen s =
     do { (r, s1) \<leftarrow> http_get_once poll url maxlen s;
          (case r of Some (b # bs) \<Rightarrow> Some (r, s1) | _ \<Rightarrow> http_attempts n poll url maxlen s1) }"

definition http_get :: "(net \<Rightarrow> net option) \<Rightarrow> u8 list \<Rightarrow> nat \<Rightarrow> dns \<Rightarrow> (u8 list option \<times> dns) option" where
  "http_get poll url maxlen s = http_attempts 3 poll url maxlen s"

definition offline_hello_pkg :: "u8 list" where
  "offline_hello_pkg =
     map of_char ''---MANIFEST---'' @ [10] @ map of_char ''name: hello'' @ [10] @ map of_char ''version: 0.1.0'' @ [10] @
     map of_char ''desc: offline fallback'' @ [10] @ map of_char ''file: README.TXT'' @ [10] @ map of_char ''---FILE:README.TXT---'' @ [10] @
     map of_char ''GNU/Windows package: hello (offline fallback)'' @ [10] @ map of_char ''---END---'' @ [10]"

definition net_http_get :: "(net \<Rightarrow> net option) \<Rightarrow> u8 list \<Rightarrow> nat \<Rightarrow> dns \<Rightarrow> (u8 list option \<times> dns) option" where
  "net_http_get poll url maxlen s =
     do { (r, s1) \<leftarrow> http_get poll url maxlen s;
          Some (case r of Some b \<Rightarrow> Some b
            | None \<Rightarrow> if starts url (map of_char ''http://10.0.2.100/v1/hello.pkg'') \<or>
                starts url (map of_char ''http://packages.gnuwindows.org/v1/hello.pkg'')
              then Some (take maxlen offline_hello_pkg) else None, s1) }"

definition net_status :: "net \<Rightarrow> u8 list" where
  "net_status s = map of_char (if net_up s then ''net: up'' else ''net: down'') @ map of_char ''  gw_mac='' @
     map of_char (if gw_mac_valid s then ''yes'' else ''no'') @ [10]"

section \<open>Requests fit their buffers, bodies are found\<close>

text \<open>Host and path fit the arrays of 128 bytes with their terminating zero, and the request the one of 320 bytes.\<close>

lemma parse_url_fits:
  assumes "parse_url url 128 128 = Some (host, port, path)"
  shows "0 < length host" "length host \<le> 127" "length path \<le> 127" "length (http_request host path) \<le> 319"
proof -
  have "host \<noteq> []" and h: "length host \<le> 127" and p: "length path \<le> 127"
    using assms length_takeWhile_le[of "\<lambda>c. c \<noteq> 47 \<and> c \<noteq> 58" "take 127 (drop 7 url)"]
    by (auto simp: parse_url_def Let_def split: if_splits)
  then show "0 < length host" "length host \<le> 127" "length path \<le> 127" by simp_all
  show "length (http_request host path) \<le> 319" using h p by (simp add: http_request_def)
qed

text \<open>A URL of a short host name, an optional port and a path is taken apart into these.\<close>

lemma parse_url_parts:
  assumes "host \<noteq> []" "length host \<le> 127" "\<forall>c \<in> set host. c \<noteq> 47 \<and> c \<noteq> 58" "length path < 127"
  shows "parse_url (http_scheme @ host @ 47 # path) 128 128 = Some (host, 80, 47 # path)"
    "list_all is_digit ds \<Longrightarrow> parse_url (http_scheme @ host @ 58 # ds @ 47 # path) 128 128 = Some (host, port_value ds, 47 # path)"
proof -
  have s7: "length http_scheme = 7" by (simp add: http_scheme_def)
  have st: "starts (http_scheme @ xs) http_scheme" for xs by (simp add: starts_def)
  have tw: "takeWhile (\<lambda>c. c \<noteq> 47 \<and> c \<noteq> 58) (take 127 (host @ e # xs)) = host" if "e = 47 \<or> e = 58" for e xs
  proof -
    have "take 127 (host @ e # xs) = host @ take (127 - length host) (e # xs)" using assms(2) by simp
    moreover have "takeWhile (\<lambda>c. c \<noteq> 47 \<and> c \<noteq> 58) (take (127 - length host) (e # xs)) = []"
      using that by (cases "127 - length host") auto
    ultimately show ?thesis using assms(3) by (simp add: takeWhile_append2)
  qed
  show "parse_url (http_scheme @ host @ 47 # path) 128 128 = Some (host, 80, 47 # path)"
    using assms(1,4) tw st s7 by (simp add: parse_url_def Let_def)
  assume "list_all is_digit ds"
  then have "takeWhile is_digit (ds @ 47 # path) = ds" "dropWhile is_digit (ds @ 47 # path) = 47 # path"
    by (auto simp: list_all_iff is_digit_def takeWhile_append2 dropWhile_append2)
  then show "parse_url (http_scheme @ host @ 58 # ds @ 47 # path) 128 128 = Some (host, port_value ds, 47 # path)"
    using assms(1,4) tw st s7 by (simp add: parse_url_def Let_def)
qed

lemma find_after_first:
  assumes "pat \<noteq> []" "\<And>i. i < length h \<Longrightarrow> take (length pat) (drop i (h @ pat @ b)) \<noteq> pat"
  shows "find_after pat (h @ pat @ b) = Some (length h + length pat)"
  using assms
proof (induction h)
  case Nil
  then show ?case by (cases pat) auto
next
  case (Cons x h)
  have "take (length pat) (drop i (h @ pat @ b)) \<noteq> pat" if "i < length h" for i using Cons.prems(2)[of "Suc i"] that by simp
  then show ?case using Cons Cons.prems(2)[of 0] by simp
qed

text \<open>The body is what follows the first empty line.\<close>

lemma http_body_after_header:
  assumes "\<And>i. i < length h \<Longrightarrow> take 4 (drop i (h @ [13, 10, 13, 10] @ b)) \<noteq> [13, 10, 13, 10]" "b \<noteq> []"
  shows "http_body (h @ [13, 10, 13, 10] @ b) = b"
proof -
  have l: "length ([13, 10, 13, 10] :: u8 list) = 4" by simp
  have "find_after [13, 10, 13, 10] (h @ [13, 10, 13, 10] @ b) = Some (length h + 4)"
    using find_after_first[of "[13, 10, 13, 10]" h b, unfolded l] assms(1) by blast
  then show ?thesis using assms(2) by (simp add: http_body_def)
qed

section \<open>A request returns\<close>

text \<open>With a poll that handles the pending frames, every part of a request returns and adds no frames.\<close>

lemma settle_returns:
  assumes "good k poll" "length (rx_frames s) \<le> k"
  shows "\<exists>s'. settle poll n s = Some s' \<and> length (rx_frames s') \<le> length (rx_frames s)"
  using poll_until_good[OF assms] by (simp add: settle_def)

lemma tcp_close_returns:
  assumes g: "good k poll" and k: "length (rx_frames s) \<le> k"
  shows "\<exists>s'. tcp_close poll s = Some s' \<and> length (rx_frames s') \<le> length (rx_frames s)"
proof -
  have tail: "\<exists>s'. settle poll 25 (net_set_tcp_rx False (u\<lparr>tcp_st := ST_CLOSED, rx_data := [], got_fin := False, got_synack := False\<rparr>)) = Some s' \<and>
      length (rx_frames s') \<le> length (rx_frames s)" if "length (rx_frames u) \<le> length (rx_frames s)" for u
    using settle_returns[OF g, of "net_set_tcp_rx False (u\<lparr>tcp_st := ST_CLOSED, rx_data := [], got_fin := False, got_synack := False\<rparr>)" 25]
      that k by (fastforce simp: net_set_tcp_rx_def)
  show ?thesis
  proof (cases "tcp_st s = ST_EST \<or> tcp_st s = ST_CLOSE_WAIT")
    case True
    obtain r1 s1 where 1: "send_segment poll 0x11 [] (rcv_nxt s) s = Some (r1, s1)" "length (rx_frames s1) \<le> length (rx_frames s)"
      using send_segment_good[OF g k] by blast
    obtain s2 where 2: "settle poll 40 (s1\<lparr>snd_nxt := snd_nxt s1 + 1\<rparr>) = Some s2" "length (rx_frames s2) \<le> length (rx_frames s)"
      using settle_returns[OF g, of "s1\<lparr>snd_nxt := snd_nxt s1 + 1\<rparr>" 40] 1(2) k by fastforce
    obtain r3 s3 where 3: "send_segment poll 0x14 [] (rcv_nxt s2) s2 = Some (r3, s3)" "length (rx_frames s3) \<le> length (rx_frames s)"
      using send_segment_good[OF g, of s2] 2(2) k by (meson le_trans)
    obtain s4 where 4: "settle poll 15 s3 = Some s4" "length (rx_frames s4) \<le> length (rx_frames s)"
      using settle_returns[OF g, of s3] 3(2) k by (meson le_trans)
    show ?thesis using True 1 2 3 4 tail[OF 4(2)] by (simp add: tcp_close_def)
  qed (use tail[OF order_refl] in \<open>simp add: tcp_close_def\<close>)
qed

lemma tcp_connect_returns:
  assumes g: "good k poll" and k: "length (rx_frames s) \<le> k"
  shows "\<exists>r s'. tcp_connect poll ip port s = Some (r, s') \<and> length (rx_frames s') \<le> length (rx_frames s)"
proof -
  obtain s1 where 1: "(if tcp_st s \<noteq> ST_CLOSED then tcp_close poll s else Some s) = Some s1" "length (rx_frames s1) \<le> length (rx_frames s)"
    using tcp_close_returns[OF assms] by (cases "tcp_st s = ST_CLOSED") auto
  obtain s2 where 2: "settle poll 20 s1 = Some s2" "length (rx_frames s2) \<le> length (rx_frames s)"
    using settle_returns[OF g, of s1] 1(2) k by (meson le_trans)
  define s3 where "s3 = (net_set_tcp_rx True s2)\<lparr>remote_ip := ip, remote_port := port, local_port := next_port s2,
      next_port := (if next_port s2 + 1 < 42000 then 42000 else next_port s2 + 1), isn_seed := isn_seed s2 * 1103515245 + 12345,
      snd_nxt := isn_seed s2 * 1103515245 + 12345, rcv_nxt := 0,
      rx_data := [], got_synack := False, got_fin := False, tcp_st := ST_SYN_SENT\<rparr>"
  have r3: "rx_frames s3 = rx_frames s2" by (simp add: s3_def net_set_tcp_rx_def)
  obtain r s4 where 4: "send_segment poll 0x02 [] 0 s3 = Some (r, s4)" "length (rx_frames s4) \<le> length (rx_frames s)"
    using send_segment_good[OF g, of s3] 2(2) k r3 by (metis le_trans)
  obtain s5 where 5: "poll_until poll got_synack 400 (s4\<lparr>snd_nxt := snd_nxt s4 + 1\<rparr>) = Some s5" "length (rx_frames s5) \<le> length (rx_frames s)"
    using poll_until_good[OF g, of "s4\<lparr>snd_nxt := snd_nxt s4 + 1\<rparr>" got_synack 400] 4(2) k by fastforce
  have rx: "rx_frames (net_set_tcp_rx b u) = rx_frames u" for b u by (simp add: net_set_tcp_rx_def)
  show ?thesis unfolding tcp_connect_def Let_def 1(1) Option.bind_lunit 2(1) unfolding s3_def[symmetric] using 4 5 by (simp add: rx)
qed

lemma tcp_send_returns:
  assumes g: "good k poll"
  shows "length (rx_frames s) \<le> k \<Longrightarrow> \<exists>r s'. tcp_send poll data s = Some (r, s') \<and> length (rx_frames s') \<le> length (rx_frames s)"
proof -
  have "\<exists>r s'. tcp_send_loop poll data s = Some (r, s') \<and> length (rx_frames s') \<le> length (rx_frames s)" if "length (rx_frames s) \<le> k"
    using that
  proof (induction "length data" arbitrary: data s rule: less_induct)
    case less
    show ?case
    proof (cases "data = []")
      case False
      obtain r s1 where 1: "send_segment poll 0x18 (take 800 data) (rcv_nxt s) s = Some (r, s1)" "length (rx_frames s1) \<le> length (rx_frames s)"
        using send_segment_good[OF g less.prems] by blast
      let ?s1 = "s1\<lparr>snd_nxt := snd_nxt s1 + of_nat (length (take 800 data))\<rparr>"
      obtain s2 where 2: "settle poll 5 ?s1 = Some s2" "length (rx_frames s2) \<le> length (rx_frames s)"
        using settle_returns[OF g, of ?s1 5] 1(2) less.prems by fastforce
      have "length (drop 800 data) < length data" using False by simp
      then obtain r' s' where 3: "tcp_send_loop poll (drop 800 data) s2 = Some (r', s')" "length (rx_frames s') \<le> length (rx_frames s2)"
        using less.hyps 2(2) less.prems le_trans by blast
      then show ?thesis using False 1 2 3 by (subst tcp_send_loop.simps) auto
    qed (simp add: tcp_send_loop.simps)
  qed
  then show "length (rx_frames s) \<le> k \<Longrightarrow> ?thesis" by (simp add: tcp_send_def)
qed

lemma tcp_recv_returns:
  assumes g: "good k poll"
  shows "length (rx_frames s) \<le> k \<Longrightarrow> \<exists>r s'. tcp_recv poll n t s = Some (r, s') \<and> length (rx_frames s') \<le> length (rx_frames s)"
proof (induction t arbitrary: s)
  case (Suc t)
  obtain s1 where 1: "poll s = Some s1" "length (rx_frames s1) \<le> length (rx_frames s)" using g Suc.prems by (auto simp: good_def)
  obtain r s' where "tcp_recv poll n t s1 = Some (r, s')" "length (rx_frames s') \<le> length (rx_frames s1)"
    using Suc.IH[of s1] 1(2) Suc.prems le_trans by blast
  then show ?case using 1 by auto
qed simp

lemma recv_all_returns:
  "good k poll \<Longrightarrow> length (rx_frames s) \<le> k \<Longrightarrow>
   \<exists>out' s'. recv_all poll n out idle s = Some (out', s') \<and> length (rx_frames s') \<le> length (rx_frames s)"
proof (induction poll n out idle s rule: recv_all.induct)
  case (1 poll n out idle s)
  show ?case
  proof (cases "length out < n \<and> idle < 10")
    case True
    obtain r s1 where r: "tcp_recv poll (n - length out) 120 s = Some (r, s1)" "length (rx_frames s1) \<le> length (rx_frames s)"
      using tcp_recv_returns[OF 1(3,4)] by blast
    then have k: "length (rx_frames s1) \<le> k" using 1(4) by simp
    have go: "\<exists>out' s'. x = Some (out', s') \<and> length (rx_frames s') \<le> length (rx_frames s)"
      if "\<exists>out' s'. x = Some (out', s') \<and> length (rx_frames s') \<le> length (rx_frames s1)" for x :: "(u8 list \<times> net) option"
      using that r(2) le_trans by blast
    show ?thesis
    proof (cases r)
      case None
      then show ?thesis using go[OF 1(1)[OF True r(1) _ None 1(3) k]] True r(1) by (simp add: recv_all.simps[of poll n out idle])
    next
      case (Some bs)
      then show ?thesis using go[OF 1(2)[OF True r(1) _ Some _ 1(3) k]] True r by (cases "bs = []") (simp_all add: recv_all.simps[of poll n out idle])
    qed
  qed (auto simp: recv_all.simps)
qed

lemma udp_wait_returns:
  assumes g: "good k poll"
  shows "length (rx_frames s) \<le> k \<Longrightarrow> \<exists>r s'. udp_wait poll p n t s = Some (r, s') \<and> length (rx_frames s') \<le> length (rx_frames s)"
proof (induction t arbitrary: s)
  case (Suc t)
  obtain s1 where 1: "poll s = Some s1" "length (rx_frames s1) \<le> length (rx_frames s)" using g Suc.prems by (auto simp: good_def)
  obtain r s' where "udp_wait poll p n t s1 = Some (r, s')" "length (rx_frames s') \<le> length (rx_frames s1)"
    using Suc.IH[of s1] 1(2) Suc.prems le_trans by blast
  then show ?case using 1 by auto
qed simp

lemma dns_resolve_returns:
  assumes g: "good k poll" and k: "length (rx_frames (dns_net s)) \<le> k"
  shows "\<exists>r s'. dns_resolve poll name s = Some (r, s') \<and> length (rx_frames (dns_net s')) \<le> length (rx_frames (dns_net s))"
proof (cases "parse_ip name = None \<and> dns_query (dns_txid s + 1) name \<noteq> None")
  case True
  then obtain q where q: "dns_query (dns_txid s + 1) name = Some q" by blast
  let ?l = "53000 + (dns_txid s + 1 AND 0xFF)"
  obtain r n1 where 1: "udp_send poll [10, 0, 2, 3] 53 ?l q (dns_net s) = Some (r, n1)" "length (rx_frames n1) \<le> length (rx_frames (dns_net s))"
    using ipv4_send_good[OF g k, of "[10, 0, 2, 3]" 17] by (cases "length q + 8 > 1480") (fastforce simp: udp_send_def Let_def)+
  have rx: "rx_frames (net_set_udp_rx True n1) = rx_frames n1" by (simp add: net_set_udp_rx_def)
  obtain resp n2 where 2: "udp_recv poll ?l 512 40 n1 = Some (resp, n2)" "length (rx_frames n2) \<le> length (rx_frames (dns_net s))"
    using udp_wait_returns[OF g, of "net_set_udp_rx True n1" ?l 512 40] 1(2) k unfolding udp_recv_def rx by (meson le_trans)
  have p: "\<exists>a. dns_parse bytes = Some a" for bytes using dns_parse_returns by blast
  have e: "dns_resolve poll name s = (if r \<noteq> 0 then Some (None, s\<lparr>dns_txid := dns_txid s + 1, dns_net := n1\<rparr>)
      else case resp of None \<Rightarrow> Some (None, s\<lparr>dns_txid := dns_txid s + 1, dns_net := n2\<rparr>)
        | Some (bytes, from, port) \<Rightarrow> do { a \<leftarrow> dns_parse bytes; Some (a, s\<lparr>dns_txid := dns_txid s + 1, dns_net := n2\<rparr>) })"
    using True q 1(1) 2(1) by (simp add: dns_resolve_def Let_def)
  show ?thesis
  proof (cases resp)
    case (Some x)
    obtain bytes frm prt a where "x = (bytes, frm, prt)" "dns_parse bytes = Some a" using p by (metis prod_cases3)
    then show ?thesis unfolding e using 1(2) 2(2) Some by simp
  qed (unfold e, use 1(2) 2(2) in simp)
qed (auto simp: dns_resolve_def Let_def split: option.split)

lemma http_get_once_returns:
  assumes g: "good k poll" and k: "length (rx_frames (dns_net s)) \<le> k"
  shows "\<exists>r s'. http_get_once poll url n s = Some (r, s') \<and> length (rx_frames (dns_net s')) \<le> length (rx_frames (dns_net s))"
proof (cases "parse_url url 128 128")
  case (Some hpp)
  then obtain host port path where u: "parse_url url 128 128 = Some (host, port, path)" by (cases hpp) auto
  obtain ip s1 where 1: "dns_resolve poll host s = Some (ip, s1)" "length (rx_frames (dns_net s1)) \<le> length (rx_frames (dns_net s))"
    using dns_resolve_returns[OF assms] by blast
  show ?thesis
  proof (cases ip)
    case ip: (Some a)
    obtain r n1 where 2: "tcp_connect poll a port (dns_net s1) = Some (r, n1)" "length (rx_frames n1) \<le> length (rx_frames (dns_net s))"
      using tcp_connect_returns[OF g, of "dns_net s1"] 1(2) k by (meson le_trans)
    obtain r2 n2 where 3: "tcp_send poll (http_request host path) n1 = Some (r2, n2)" "length (rx_frames n2) \<le> length (rx_frames (dns_net s))"
      using tcp_send_returns[OF g, of n1] 2(2) k by (meson le_trans)
    obtain n3 where 4: "tcp_close poll n2 = Some n3" "length (rx_frames n3) \<le> length (rx_frames (dns_net s))"
      using tcp_close_returns[OF g, of n2] 3(2) k by (meson le_trans)
    obtain out n4 where 5: "recv_all poll n [] 0 n2 = Some (out, n4)" "length (rx_frames n4) \<le> length (rx_frames (dns_net s))"
      using recv_all_returns[OF g, of n2] 3(2) k by (meson le_trans)
    obtain n5 where 6: "tcp_close poll n4 = Some n5" "length (rx_frames n5) \<le> length (rx_frames (dns_net s))"
      using tcp_close_returns[OF g, of n4] 5(2) k by (meson le_trans)
    show ?thesis using u ip 1 2 3 4 5 6 by (simp add: http_get_once_def)
  qed (use u 1 in \<open>simp add: http_get_once_def\<close>)
qed (simp add: http_get_once_def)

lemma http_get_returns:
  assumes g: "good k poll"
  shows "length (rx_frames (dns_net s)) \<le> k \<Longrightarrow>
    \<exists>r s'. http_attempts a poll url n s = Some (r, s') \<and> length (rx_frames (dns_net s')) \<le> length (rx_frames (dns_net s))"
proof (induction a arbitrary: s)
  case (Suc a)
  obtain r s1 where 1: "http_get_once poll url n s = Some (r, s1)" "length (rx_frames (dns_net s1)) \<le> length (rx_frames (dns_net s))"
    using http_get_once_returns[OF g Suc.prems] by blast
  obtain r' s' where "http_attempts a poll url n s1 = Some (r', s')" "length (rx_frames (dns_net s')) \<le> length (rx_frames (dns_net s1))"
    using Suc.IH[of s1] 1(2) Suc.prems le_trans by blast
  then show ?case using 1 by (auto split: option.split list.split)
qed simp

lemma net_http_get_returns:
  fixes s :: dns
  shows "\<exists>r s'. net_http_get (net_poll (Suc (length (rx_frames (dns_net s))))) url n s = Some (r, s')"
  using http_get_returns[OF net_poll_good, of s "length (rx_frames (dns_net s))" 3 url n] by (auto simp: net_http_get_def http_get_def)

end
