(* ===== verification/Spec2Isabelle.thy ===== *)
theory Spec2Isabelle
  imports Vmm Sched Kbd Screen Devices Vfs_Inv Syscall Http
begin

text \<open>
  A verification development for GWKernel, a small x86-64 kernel written in C
  (\<open>src/kernel\<close>, started by the UEFI loader in \<open>src/boot\<close>).

  \<^bold>\<open>Parts.\<close> The loader passes a \<open>GW_BOOT_INFO\<close> to the kernel. The physical memory manager
  builds its page bitmap from it.

  \<^bold>\<open>Theories.\<close>
  \<^item> \<open>GW_Prelude\<close>: byte-addressed memory, little-endian words, shared word lemmas.
  \<^item> \<open>Pmm\<close>: \<open>kernel/mm/pmm.c\<close>.
\<close>

end
